(* ===== verification/Prelude.thy ===== *)
theory Prelude
  imports Main "HOL-Library.Word" "HOL-Library.Monad_Syntax"
begin

text \<open>
  Shared vocabulary of the Synapse Kernel development.

  Machine integers are words of their C width. A pointer is its 32-bit address, \<open>0\<close> is
  \<open>NULL\<close>. Objects that the C code reaches through pointers live in typed stores, partial maps
  from addresses to records. The option type is the result of every operation that dereferences
  a pointer or walks a linked structure: \<open>None\<close> means that the C code has no defined result (it
  dereferences an address that holds no object of the expected type, \<open>NULL\<close> included, or it
  does not return). A theorem that an operation works therefore always states \<open>Some\<close>.
\<close>

unbundle bit_operations_syntax

type_synonym u8 = "8 word"
type_synonym u16 = "16 word"
type_synonym u32 = "32 word"
type_synonym u64 = "64 word"
type_synonym addr = u32

abbreviation (input) NULL :: addr where "NULL \<equiv> 0"

named_theorems ub_simps \<open>unfolding of the undefined-behaviour monad\<close>
named_theorems unat_simps \<open>passing from machine words to natural numbers\<close>

lemmas [ub_simps] = bind_eq_Some_conv option.case_eq_if

subsection \<open>Words\<close>

lemma unat_plus_small [unat_simps]:
  "unat (a :: u32) + unat b < 2 ^ 32 \<Longrightarrow> unat (a + b) = unat a + unat b"
  by (simp add: unat_word_ariths)

lemma unat_minus_le [unat_simps]:
  "b \<le> a \<Longrightarrow> unat (a - b :: u32) = unat a - unat b"
  by (simp add: unat_sub)

lemma unat_u32_less: "unat (a :: u32) < 2 ^ 32"
  using unsigned_less [of a] by simp

lemma unat_of_nat_small [unat_simps]: "n < 2 ^ 32 \<Longrightarrow> unat (of_nat n :: u32) = n"
  by (simp add: unat_of_nat take_bit_nat_eq_self)

lemma words_below: "{f :: u32. f < n} = of_nat ` {0..<unat n}"
proof (rule set_eqI)
  fix f :: u32
  have "f \<in> of_nat ` {0..<unat n}" if "f < n"
    using that by (intro image_eqI [of _ _ "unat f"]) (simp_all add: word_less_nat_alt)
  then show "f \<in> {f. f < n} \<longleftrightarrow> f \<in> of_nat ` {0..<unat n}"
    using unat_u32_less [of n] by (auto simp: word_less_nat_alt unat_of_nat_small)
qed

lemma card_words_below: "card {f :: u32. f < n} = unat n"
proof -
  have "inj_on (of_nat :: nat \<Rightarrow> u32) {0..<unat n}"
    using unat_u32_less [of n]
    by (auto intro!: inj_onI dest!: arg_cong [where f = unat] simp: unat_of_nat_small)
  then show ?thesis by (simp add: words_below card_image)
qed

lemma unat_inc: "i < n \<Longrightarrow> unat (i + 1 :: u32) = unat i + 1"
proof -
  assume "i < n"
  then have "unat i + unat (1 :: u32) < 2 ^ 32"
    using unat_u32_less [of n] by (simp add: word_less_nat_alt)
  then show ?thesis using unat_plus_small [of i 1] by simp
qed

text \<open>Masking with \<open>~(2^k - 1)\<close> rounds down to a multiple of \<open>2^k\<close>.\<close>

lemma and_not_mask_u32: "(w :: u32) AND NOT (mask k) = push_bit k (drop_bit k w)"
  by (rule bit_word_eqI) (auto simp: bit_simps)

lemma unat_and_not_mask_u32:
  "unat ((w :: u32) AND NOT (mask k)) = unat w div 2 ^ k * 2 ^ k"
proof -
  have "unat w div 2 ^ k * 2 ^ k < 2 ^ 32"
    using unat_u32_less [of w] div_times_less_eq_dividend [of "unat w" "2 ^ k"] by linarith
  moreover have "unat (push_bit k (drop_bit k w)) = take_bit 32 (push_bit k (drop_bit k (unat w)))"
    using unat_u32_less [of w]
    by (simp add: unsigned_push_bit_eq unsigned_drop_bit_eq take_bit_nat_eq_self)
  ultimately show ?thesis
    by (simp add: and_not_mask_u32 push_bit_nat_def drop_bit_nat_def take_bit_nat_eq_self)
qed

subsection \<open>Linked lists in a store\<close>

text \<open>\<open>linked nx p xs\<close>: from the pointer \<open>p\<close>, following \<open>nx\<close>, the nodes are \<open>xs\<close> and then \<open>NULL\<close>.\<close>

fun linked :: "(addr \<rightharpoonup> addr) \<Rightarrow> addr \<Rightarrow> addr list \<Rightarrow> bool" where
  "linked nx p [] \<longleftrightarrow> p = NULL"
| "linked nx p (x # xs) \<longleftrightarrow> p = x \<and> x \<noteq> NULL \<and> (\<exists>n. nx x = Some n \<and> linked nx n xs)"

lemma linked_null [simp]: "linked nx 0 xs \<longleftrightarrow> xs = []"
  by (cases xs) auto

lemma linked_cong:
  "(\<And>x. x \<in> set xs \<Longrightarrow> nx x = nx' x) \<Longrightarrow> linked nx p xs = linked nx' p xs"
  by (induction xs arbitrary: p) auto

lemma linked_upd [simp]: "x \<notin> set xs \<Longrightarrow> linked (nx(x := v)) p xs = linked nx p xs"
  by (rule linked_cong) auto

lemma linked_nonnull: "linked nx p xs \<Longrightarrow> p \<noteq> NULL \<Longrightarrow> xs \<noteq> [] \<and> hd xs = p"
  by (cases xs) auto

lemma linked_dom: "linked nx p xs \<Longrightarrow> set xs \<subseteq> dom nx"
  by (induction xs arbitrary: p) auto

end
