(* ===== verification/Allocator.thy ===== *)
theory Allocator
  imports Prelude
begin

text \<open>
  The interface between the kernel heap and its clients (scheduler, process table, file systems).
  A client only relies on these laws: allocation always returns, either \<open>NULL\<close> with the heap
  unchanged or a fresh live pointer; releasing a live pointer always returns and makes exactly
  that pointer dead; releasing \<open>NULL\<close> does nothing. The client lemmas are the error paths every
  constructor of the kernel takes: allocate several objects and, when a later allocation fails,
  release the earlier ones.
\<close>

locale kernel_allocator =
  fixes alloc :: "u32 \<Rightarrow> 'h \<Rightarrow> (addr \<times> 'h) option"
    and dealloc :: "addr \<Rightarrow> 'h \<Rightarrow> 'h option"
    and ok :: "'h \<Rightarrow> bool"
    and live :: "'h \<Rightarrow> addr set"
  assumes alloc_total: "ok h \<Longrightarrow> n \<le> 0xFFFFFFE8 \<Longrightarrow> \<exists>p h'. alloc n h = Some (p, h')"
    and alloc_ok: "ok h \<Longrightarrow> n \<le> 0xFFFFFFE8 \<Longrightarrow> alloc n h = Some (p, h') \<Longrightarrow> ok h'"
    and alloc_null: "ok h \<Longrightarrow> n \<le> 0xFFFFFFE8 \<Longrightarrow> alloc n h = Some (NULL, h') \<Longrightarrow> h' = h"
    and alloc_fresh: "ok h \<Longrightarrow> n \<le> 0xFFFFFFE8 \<Longrightarrow> alloc n h = Some (p, h') \<Longrightarrow> p \<noteq> NULL \<Longrightarrow> p \<notin> live h"
    and alloc_live: "ok h \<Longrightarrow> n \<le> 0xFFFFFFE8 \<Longrightarrow> alloc n h = Some (p, h') \<Longrightarrow> p \<noteq> NULL \<Longrightarrow>
          live h' = insert p (live h)"
    and dealloc_live: "ok h \<Longrightarrow> p \<in> live h \<Longrightarrow>
          \<exists>h'. dealloc p h = Some h' \<and> ok h' \<and> live h' = live h - {p}"
    and dealloc_null: "dealloc NULL h = Some h"
    and null_not_live: "ok h \<Longrightarrow> NULL \<notin> live h"
begin

lemma allocE:
  assumes "ok h" "n \<le> 0xFFFFFFE8"
  obtains (null) "alloc n h = Some (NULL, h)"
  | (fresh) p h' where "alloc n h = Some (p, h')" "p \<noteq> NULL" "ok h'" "p \<notin> live h"
      "live h' = insert p (live h)"
proof -
  obtain p h' where a: "alloc n h = Some (p, h')" using alloc_total [OF assms] by blast
  show thesis
  proof (cases "p = NULL")
    case True
    then show thesis using a alloc_null [OF assms] null by blast
  next
    case False
    then show thesis
      using a fresh alloc_ok [OF assms a] alloc_fresh [OF assms a] alloc_live [OF assms a] by blast
  qed
qed

text \<open>Undoing allocations on an error path leaks nothing.\<close>

lemma undo_one:
  assumes "ok h" "n \<le> 0xFFFFFFE8" "alloc n h = Some (p, h1)" "p \<noteq> NULL"
  shows "\<exists>h2. dealloc p h1 = Some h2 \<and> ok h2 \<and> live h2 = live h"
  using dealloc_live [of h1 p] alloc_ok [OF assms(1-3)] alloc_live [OF assms] alloc_fresh [OF assms]
  by auto

lemma undo_two:
  assumes "ok h" "n \<le> 0xFFFFFFE8" "alloc n h = Some (p, h1)" "p \<noteq> NULL"
    and "m \<le> 0xFFFFFFE8" "alloc m h1 = Some (q, h2)" "q \<noteq> NULL"
  shows "\<exists>h3 h4. dealloc q h2 = Some h3 \<and> dealloc p h3 = Some h4 \<and> ok h4 \<and> live h4 = live h"
proof -
  have ok1: "ok h1" and l1: "live h1 = insert p (live h)" and np: "p \<notin> live h"
    using assms alloc_ok alloc_live alloc_fresh by blast+
  obtain h3 where h3: "dealloc q h2 = Some h3" "ok h3" "live h3 = insert p (live h)"
    using undo_one [OF ok1 assms(5-7)] l1 by auto
  obtain h4 where "dealloc p h3 = Some h4" "ok h4" "live h4 = live h"
    using dealloc_live [of h3 p] h3 np by auto
  with h3 show ?thesis by blast
qed

lemma two_fresh:
  assumes "ok h" "n \<le> 0xFFFFFFE8" "alloc n h = Some (p, h1)" "p \<noteq> NULL"
    and "m \<le> 0xFFFFFFE8" "alloc m h1 = Some (q, h2)" "q \<noteq> NULL"
  shows "p \<noteq> q" "q \<notin> live h" "ok h2" "live h2 = insert q (insert p (live h))"
  using assms alloc_ok alloc_live alloc_fresh by (metis insert_iff)+

end

text \<open>
  Clients that keep bytes in their blocks also rely on the sizes: \<open>blk h p n\<close> says that \<open>p\<close> is a live
  block of at least \<open>n\<close> bytes. Live blocks lie in the region \<open>[lo, hi)\<close>, do not overlap, and stay as
  they are when other blocks are allocated and released.
\<close>

locale sized_allocator = kernel_allocator +
  fixes blk :: "'a \<Rightarrow> addr \<Rightarrow> nat \<Rightarrow> bool"
    and lo :: nat
    and hi :: nat
  assumes blk_live: "blk h p j \<Longrightarrow> p \<in> live h"
    and blk_range: "blk h p j \<Longrightarrow> lo \<le> unat p \<and> unat p + j \<le> hi"
    and blk_disjoint: "blk h p j \<Longrightarrow> blk h q k \<Longrightarrow> p \<noteq> q \<Longrightarrow> unat p + j \<le> unat q \<or> unat q + k \<le> unat p"
    and blk_le: "blk h p j \<Longrightarrow> k \<le> j \<Longrightarrow> blk h p k"
    and alloc_blk: "ok h \<Longrightarrow> n \<le> 0xFFFFFFE8 \<Longrightarrow> alloc n h = Some (p, h') \<Longrightarrow> p \<noteq> NULL \<Longrightarrow> blk h' p (unat n)"
    and alloc_keeps: "ok h \<Longrightarrow> n \<le> 0xFFFFFFE8 \<Longrightarrow> alloc n h = Some (p, h') \<Longrightarrow> blk h q k \<Longrightarrow> blk h' q k"
    and dealloc_keeps: "ok h \<Longrightarrow> p \<in> live h \<Longrightarrow> dealloc p h = Some h' \<Longrightarrow> blk h q k \<Longrightarrow> q \<noteq> p \<Longrightarrow> blk h' q k"
begin

text \<open>Replacing a block by a new one: the new block is apart from all old blocks, and the blocks other
  than the released one stay.\<close>

lemma replace_block:
  assumes "ok h" "n \<le> 0xFFFFFFE8" "alloc n h = Some (p, h1)" "p \<noteq> NULL" "q \<in> live h"
  shows "\<exists>h2. dealloc q h1 = Some h2 \<and> ok h2 \<and> live h2 = insert p (live h - {q}) \<and> blk h2 p (unat n) \<and>
    (\<forall>r k. blk h r k \<longrightarrow> r \<noteq> q \<longrightarrow> blk h2 r k)"
proof -
  have ok1: "ok h1" and l1: "live h1 = insert p (live h)" and np: "p \<notin> live h"
    using alloc_ok [OF assms(1-3)] alloc_live [OF assms(1-4)] alloc_fresh [OF assms(1-4)] by blast+
  then have q: "q \<in> live h1" "p \<noteq> q" using assms(5) by auto
  obtain h2 where h2: "dealloc q h1 = Some h2" "ok h2" "live h2 = live h1 - {q}"
    using dealloc_live [OF ok1 q(1)] by blast
  have "blk h2 p (unat n)"
    by (rule dealloc_keeps [OF ok1 q(1) h2(1) alloc_blk [OF assms(1-4)] q(2)])
  moreover have "blk h2 r k" if "blk h r k" "r \<noteq> q" for r k
    by (rule dealloc_keeps [OF ok1 q(1) h2(1) alloc_keeps [OF assms(1-3) that(1)] that(2)])
  moreover have "live h2 = insert p (live h - {q})" using h2(3) l1 q(2) by auto
  ultimately show ?thesis using h2 by blast
qed

lemma fresh_apart:
  assumes "ok h" "n \<le> 0xFFFFFFE8" "alloc n h = Some (p, h1)" "p \<noteq> NULL" "blk h q k"
  shows "unat p + unat n \<le> unat q \<or> unat q + k \<le> unat p"
proof -
  have "p \<noteq> q" using alloc_fresh [OF assms(1-4)] blk_live [OF assms(5)] by blast
  then show ?thesis
    by (rule blk_disjoint [OF alloc_blk [OF assms(1-4)] alloc_keeps [OF assms(1-3,5)]])
qed

end

end
