(* ===== verification/Kheap.thy ===== *)
theory Kheap
  imports Allocator
begin

text \<open>
  The kernel heap, \<^verbatim>\<open>kernel/mm/kheap.c\<close>: a first-fit allocator over one region of 16 MB, cut into
  blocks that carry a 16-byte header (size, next, prev, is_free) and form a doubly linked list
  in address order.

  The headers are a store from addresses to \<open>heap_block\<close> records, updated field by field in the
  order of the C code, so that every alias the code creates is visible. Payload bytes are not in
  this store: the model says what the allocator does as long as its clients write only inside the
  payloads they were given. \<^verbatim>\<open>kprintf\<close> diagnostics are left out.

  The specification is a list of chunks (address, size, free) that tile the region. The
  operations are proved to refine first-fit allocation and coalescing release on that list.
\<close>

unbundle bit_operations_syntax

subsection \<open>Data\<close>

definition KHEAP_START :: addr where "KHEAP_START = 0xC0000000"
definition KHEAP_SIZE :: u32 where "KHEAP_SIZE = 0x1000000"

record heap_block =
  hb_size :: u32
  hb_next :: addr
  hb_prev :: addr
  hb_is_free :: bool

text \<open>\<open>sizeof(heap_block_t)\<close> on i686: two pointers, a \<open>size_t\<close> and a padded \<open>bool\<close>.\<close>

definition sizeof_heap_block :: u32 where "sizeof_heap_block = 16"

record kheap =
  free_list :: addr
  heap_base :: addr
  heap_limit :: addr
  total_size :: u32
  used_size :: u32
  blocks :: "addr \<rightharpoonup> heap_block"

subsection \<open>Memory accesses\<close>

definition get_block :: "kheap \<Rightarrow> addr \<Rightarrow> heap_block option" where
  "get_block h p = (if p = NULL then None else blocks h p)"

definition put_block :: "addr \<Rightarrow> heap_block \<Rightarrow> kheap \<Rightarrow> kheap" where
  "put_block p b h = h\<lparr>blocks := (blocks h)(p \<mapsto> b)\<rparr>"

definition mod_block :: "addr \<Rightarrow> (heap_block \<Rightarrow> heap_block) \<Rightarrow> kheap \<Rightarrow> kheap option" where
  "mod_block p f h = do { b \<leftarrow> get_block h p; Some (put_block p (f b) h) }"

subsection \<open>Operations\<close>

definition init_kheap :: "kheap \<Rightarrow> kheap" where
  "init_kheap h =
     put_block KHEAP_START
       \<lparr>hb_size = KHEAP_SIZE, hb_next = NULL, hb_prev = NULL, hb_is_free = True\<rparr>
       (h\<lparr>heap_base := KHEAP_START, heap_limit := KHEAP_START + KHEAP_SIZE,
          total_size := KHEAP_SIZE, used_size := 0, free_list := KHEAP_START\<rparr>)"

definition align_size :: "u32 \<Rightarrow> u32" where
  "align_size sz = (sz + 7) AND NOT 7"

partial_function (option) find_free_from :: "kheap \<Rightarrow> u32 \<Rightarrow> addr \<Rightarrow> addr option" where
  "find_free_from h sz current =
     (if current = NULL then Some NULL
      else do {
        b \<leftarrow> get_block h current;
        if hb_is_free b \<and> hb_size b \<ge> sz then Some current
        else find_free_from h sz (hb_next b)
      })"

definition find_free_block :: "kheap \<Rightarrow> u32 \<Rightarrow> addr option" where
  "find_free_block h sz = find_free_from h sz (free_list h)"

definition split_block :: "addr \<Rightarrow> u32 \<Rightarrow> kheap \<Rightarrow> kheap option" where
  "split_block block sz h = do {
     b \<leftarrow> get_block h block;
     if hb_size b - sz < sizeof_heap_block + 8 then Some h
     else do {
       let new_block = block + sz;
       let h = put_block new_block
                 \<lparr>hb_size = hb_size b - sz, hb_next = hb_next b, hb_prev = block,
                  hb_is_free = True\<rparr> h;
       b \<leftarrow> get_block h block;
       h \<leftarrow> (if hb_next b \<noteq> NULL
             then mod_block (hb_next b) (\<lambda>x. x\<lparr>hb_prev := new_block\<rparr>) h
             else Some h);
       mod_block block (\<lambda>x. x\<lparr>hb_next := new_block, hb_size := sz\<rparr>) h
     }
   }"

text \<open>\<open>merge_blocks\<close>: first the following block, then the preceding one.\<close>

definition merge_next :: "addr \<Rightarrow> kheap \<Rightarrow> kheap option" where
  "merge_next block h = do {
     b \<leftarrow> get_block h block;
     if hb_next b = NULL then Some h
     else do {
       n \<leftarrow> get_block h (hb_next b);
       if \<not> hb_is_free n then Some h
       else do {
         h \<leftarrow> mod_block block (\<lambda>x. x\<lparr>hb_size := hb_size x + hb_size n\<rparr>) h;
         b \<leftarrow> get_block h block;
         n \<leftarrow> get_block h (hb_next b);
         h \<leftarrow> mod_block block (\<lambda>x. x\<lparr>hb_next := hb_next n\<rparr>) h;
         b \<leftarrow> get_block h block;
         if hb_next b \<noteq> NULL
         then mod_block (hb_next b) (\<lambda>x. x\<lparr>hb_prev := block\<rparr>) h
         else Some h
       }
     }
   }"

definition merge_prev :: "addr \<Rightarrow> kheap \<Rightarrow> kheap option" where
  "merge_prev block h = do {
     b \<leftarrow> get_block h block;
     if hb_prev b = NULL then Some h
     else do {
       p \<leftarrow> get_block h (hb_prev b);
       if \<not> hb_is_free p then Some h
       else do {
         h \<leftarrow> mod_block (hb_prev b) (\<lambda>x. x\<lparr>hb_size := hb_size x + hb_size b\<rparr>) h;
         b \<leftarrow> get_block h block;
         h \<leftarrow> mod_block (hb_prev b) (\<lambda>x. x\<lparr>hb_next := hb_next b\<rparr>) h;
         b \<leftarrow> get_block h block;
         if hb_next b \<noteq> NULL
         then mod_block (hb_next b) (\<lambda>x. x\<lparr>hb_prev := hb_prev b\<rparr>) h
         else Some h
       }
     }
   }"

definition merge_blocks :: "addr \<Rightarrow> kheap \<Rightarrow> kheap option" where
  "merge_blocks block h = do { h \<leftarrow> merge_next block h; merge_prev block h }"

definition kmalloc :: "u32 \<Rightarrow> kheap \<Rightarrow> (addr \<times> kheap) option" where
  "kmalloc sz h =
     (if sz = 0 then Some (NULL, h)
      else do {
        let actual_size = align_size sz + sizeof_heap_block;
        block \<leftarrow> find_free_block h actual_size;
        if block = NULL then Some (NULL, h)
        else do {
          h \<leftarrow> split_block block actual_size h;
          h \<leftarrow> mod_block block (\<lambda>x. x\<lparr>hb_is_free := False\<rparr>) h;
          Some (block + sizeof_heap_block, h\<lparr>used_size := used_size h + actual_size\<rparr>)
        }
      })"

definition kfree :: "addr \<Rightarrow> kheap \<Rightarrow> kheap option" where
  "kfree ptr h =
     (if ptr = NULL then Some h
      else do {
        let block = ptr - sizeof_heap_block;
        b \<leftarrow> get_block h block;
        if hb_is_free b then Some h
        else do {
          h \<leftarrow> mod_block block (\<lambda>x. x\<lparr>hb_is_free := True\<rparr>) h;
          b \<leftarrow> get_block h block;
          merge_blocks block (h\<lparr>used_size := used_size h - hb_size b\<rparr>)
        }
      })"

definition get_kheap_info :: "kheap \<Rightarrow> u32 \<times> u32 \<times> u32" where
  "get_kheap_info h = (total_size h, used_size h, total_size h - used_size h)"

subsection \<open>Specification: chunks that tile the heap\<close>

type_synonym chunk = "addr \<times> u32 \<times> bool"

abbreviation chunk_addr :: "chunk \<Rightarrow> addr" where "chunk_addr \<equiv> fst"

fun first_addr :: "chunk list \<Rightarrow> addr \<Rightarrow> addr" where
  "first_addr [] nx = nx"
| "first_addr ((p, s, f) # cs) nx = p"

fun last_addr :: "addr \<Rightarrow> chunk list \<Rightarrow> addr" where
  "last_addr pr [] = pr"
| "last_addr pr ((p, s, f) # cs) = last_addr p cs"

text \<open>The doubly linked list from \<open>pr\<close> (exclusive) to \<open>nx\<close> (exclusive).\<close>

fun chain :: "(addr \<rightharpoonup> heap_block) \<Rightarrow> addr \<Rightarrow> chunk list \<Rightarrow> addr \<Rightarrow> bool" where
  "chain H pr [] nx \<longleftrightarrow> True"
| "chain H pr ((p, s, f) # cs) nx \<longleftrightarrow>
     H p = Some \<lparr>hb_size = s, hb_next = first_addr cs nx, hb_prev = pr, hb_is_free = f\<rparr> \<and>
     chain H p cs nx"

text \<open>Every chunk holds at least its header, and chunks leave no gap and do not overlap.\<close>

fun tiles :: "nat \<Rightarrow> chunk list \<Rightarrow> nat \<Rightarrow> bool" where
  "tiles a [] e \<longleftrightarrow> a = e"
| "tiles a ((p, s, f) # cs) e \<longleftrightarrow>
     unat p = a \<and> 16 \<le> unat s \<and> 8 dvd unat s \<and> tiles (a + unat s) cs e"

definition not_both_free :: "chunk \<Rightarrow> chunk \<Rightarrow> bool" where
  "not_both_free c d \<longleftrightarrow> \<not> (snd (snd c) \<and> snd (snd d))"

abbreviation coalesced :: "chunk list \<Rightarrow> bool" where
  "coalesced \<equiv> successively not_both_free"

definition heap_shape :: "kheap \<Rightarrow> chunk list \<Rightarrow> bool" where
  "heap_shape h cs \<longleftrightarrow>
     free_list h = first_addr cs NULL \<and> chain (blocks h) NULL cs NULL \<and>
     tiles 0xC0000000 cs 0xC1000000 \<and> total_size h = KHEAP_SIZE"

definition heap_rep :: "kheap \<Rightarrow> chunk list \<Rightarrow> bool" where
  "heap_rep h cs \<longleftrightarrow> heap_shape h cs \<and> coalesced cs"

text \<open>First fit: take the first free chunk that is big enough, split off what remains.\<close>

definition cut_chunk :: "u32 \<Rightarrow> chunk \<Rightarrow> chunk list" where
  "cut_chunk n c = (case c of (p, s, f) \<Rightarrow>
     if s - n < 24 then [(p, s, False)] else [(p, n, False), (p + n, s - n, True)])"

fun first_fit :: "u32 \<Rightarrow> chunk list \<Rightarrow> (addr \<times> chunk list) option" where
  "first_fit n [] = None"
| "first_fit n ((p, s, f) # cs) =
     (if f \<and> n \<le> s then Some (p, cut_chunk n (p, s, f) @ cs)
      else map_option (\<lambda>(q, ds). (q, (p, s, f) # ds)) (first_fit n cs))"

text \<open>Release: mark the chunk free and merge every run of adjacent free chunks.\<close>

definition mark_free :: "addr \<Rightarrow> chunk list \<Rightarrow> chunk list" where
  "mark_free p = map (\<lambda>(q, s, f). (q, s, f \<or> q = p))"

fun cons_chunk :: "chunk \<Rightarrow> chunk list \<Rightarrow> chunk list" where
  "cons_chunk (p, s, True) ((q, t, True) # cs) = (p, s + t, True) # cs"
| "cons_chunk c cs = c # cs"

definition coalesce :: "chunk list \<Rightarrow> chunk list" where
  "coalesce cs = foldr cons_chunk cs []"

definition release :: "addr \<Rightarrow> chunk list \<Rightarrow> chunk list" where
  "release p cs = coalesce (mark_free p cs)"

subsection \<open>Facts about the list and the tiling\<close>

lemma first_addr_append [simp]: "first_addr (xs @ ys) nx = first_addr xs (first_addr ys nx)"
  by (cases xs) auto

lemma last_addr_append [simp]: "last_addr pr (xs @ ys) = last_addr (last_addr pr xs) ys"
  by (induction xs arbitrary: pr) auto

lemma chain_append [simp]:
  "chain H pr (xs @ ys) nx \<longleftrightarrow> chain H pr xs (first_addr ys nx) \<and> chain H (last_addr pr xs) ys nx"
  by (induction xs arbitrary: pr) auto

lemma chain_upd_other [simp]:
  "p \<notin> chunk_addr ` set cs \<Longrightarrow> chain (H(p \<mapsto> b)) pr cs nx = chain H pr cs nx"
  by (induction cs arbitrary: pr) auto

lemma tiles_le: "tiles a cs e \<Longrightarrow> a \<le> e"
  by (induction cs arbitrary: a) fastforce+

lemma tiles_same: "tiles a cs a \<Longrightarrow> cs = []"
proof (cases cs)
  case (Cons c ds)
  assume "tiles a cs a"
  then show ?thesis using Cons tiles_le [of _ ds a] by (cases c) fastforce
qed simp

lemma tiles_append:
  "tiles a (xs @ ys) e \<longleftrightarrow> (\<exists>m. tiles a xs m \<and> tiles m ys e)"
  by (induction xs arbitrary: a) auto

lemma tiles_in:
  assumes "tiles a cs e" "(p, s, f) \<in> set cs"
  shows "a \<le> unat p" "unat p + unat s \<le> e" "16 \<le> unat s" "8 dvd unat s"
  using assms by (induction cs arbitrary: a) (auto dest: tiles_le, fastforce+)

lemma tiles_addr_lower: "tiles a cs e \<Longrightarrow> p \<in> chunk_addr ` set cs \<Longrightarrow> a \<le> unat p"
  using tiles_in(1) by fastforce

lemma tiles_addr_upper: "tiles a cs e \<Longrightarrow> p \<in> chunk_addr ` set cs \<Longrightarrow> unat p < e"
  using tiles_in(2,3) by fastforce

lemma tiles_distinct: "tiles a cs e \<Longrightarrow> distinct (map chunk_addr cs)"
proof (induction cs arbitrary: a)
  case (Cons c cs)
  obtain p s f where c: "c = (p, s, f)" by (cases c)
  with Cons.prems have t: "tiles (a + unat s) cs e" "unat p = a" "16 \<le> unat s" by auto
  then have "p \<notin> chunk_addr ` set cs"
    using tiles_addr_lower [of "a + unat s" cs e p] by auto
  with Cons.IH [OF t(1)] c show ?case by simp
qed simp

text \<open>What the representation says about one chunk in the middle of the heap.\<close>

lemma shape_not_null:
  assumes "heap_shape h cs" "p \<in> chunk_addr ` set cs"
  shows "p \<noteq> NULL"
  using assms tiles_addr_lower [of "0xC0000000" cs "0xC1000000" p] by (auto simp: heap_shape_def)

lemma shape_focus:
  assumes "heap_shape h (xs @ (p, s, f) # ys)"
  shows "get_block h p = Some \<lparr>hb_size = s, hb_next = first_addr ys NULL,
           hb_prev = last_addr NULL xs, hb_is_free = f\<rparr>"
    and "blocks h p = Some \<lparr>hb_size = s, hb_next = first_addr ys NULL,
           hb_prev = last_addr NULL xs, hb_is_free = f\<rparr>"
    and "p \<noteq> NULL" "p \<notin> chunk_addr ` set xs" "p \<notin> chunk_addr ` set ys"
    and "chunk_addr ` set xs \<inter> chunk_addr ` set ys = {}"
    and "chain (blocks h) NULL xs p" "chain (blocks h) p ys NULL"
proof -
  show nn: "p \<noteq> NULL" by (rule shape_not_null [OF assms]) simp
  have "distinct (map chunk_addr (xs @ (p, s, f) # ys))"
    using assms tiles_distinct by (auto simp: heap_shape_def simp del: map_append)
  then show "p \<notin> chunk_addr ` set xs" "p \<notin> chunk_addr ` set ys"
    and "chunk_addr ` set xs \<inter> chunk_addr ` set ys = {}" by auto
  show "blocks h p = Some \<lparr>hb_size = s, hb_next = first_addr ys NULL,
           hb_prev = last_addr NULL xs, hb_is_free = f\<rparr>"
    and "chain (blocks h) NULL xs p" "chain (blocks h) p ys NULL"
    using assms by (auto simp: heap_shape_def)
  with nn show "get_block h p = Some \<lparr>hb_size = s, hb_next = first_addr ys NULL,
           hb_prev = last_addr NULL xs, hb_is_free = f\<rparr>"
    by (simp add: get_block_def)
qed

lemma shape_set_free:
  assumes "heap_shape h (xs @ (p, s, f) # ys)"
  shows "\<exists>h'. mod_block p (\<lambda>x. x\<lparr>hb_is_free := g\<rparr>) h = Some h' \<and>
           heap_shape h' (xs @ (p, s, g) # ys) \<and> used_size h' = used_size h"
  using shape_focus [OF assms] assms
  by (auto simp: mod_block_def put_block_def heap_shape_def tiles_append)

lemma shape_used_size [simp]: "heap_shape (h\<lparr>used_size := u\<rparr>) cs = heap_shape h cs"
  by (simp add: heap_shape_def)

lemma shape_split:
  assumes sh: "heap_shape h (xs @ (p, s, f) # ys)"
    and n: "n \<le> s" "16 \<le> unat n" "8 dvd unat n"
  shows "\<exists>h'. split_block p n h = Some h' \<and> used_size h' = used_size h \<and>
     heap_shape h' (xs @ (if s - n < 24 then [(p, s, f)] else [(p, n, f), (p + n, s - n, True)]) @ ys)"
proof (cases "s - n < 24")
  case True
  then show ?thesis
    using sh shape_focus(1) [OF sh] by (auto simp: split_block_def sizeof_heap_block_def)
next
  case False
  let ?nb = "p + n"
  note foc = shape_focus [OF sh]
  obtain m where t: "tiles 0xC0000000 xs m" "unat p = m" "16 \<le> unat s" "8 dvd unat s"
      "tiles (m + unat s) ys 0xC1000000"
    using sh by (auto simp: heap_shape_def tiles_append)
  have s24: "24 \<le> unat s - unat n" and ns: "unat n \<le> unat s" 
    using False n(1) by (auto simp: word_less_nat_alt word_le_nat_alt unat_sub)
  have psum: "unat p + unat s \<le> 0xC1000000"
    using t tiles_le by blast
  have unb: "unat ?nb = unat p + unat n"
    using psum ns by (simp add: unat_plus_small)
  have uns: "unat (s - n) = unat s - unat n" using n(1) by (rule unat_minus_le)
  have nb: "?nb \<noteq> NULL" "?nb \<noteq> p" "?nb \<notin> chunk_addr ` set xs" "?nb \<notin> chunk_addr ` set ys"
  proof -
    show "?nb \<notin> chunk_addr ` set xs" using tiles_addr_upper [OF t(1)] t(2) unb by force
    show "?nb \<notin> chunk_addr ` set ys" using tiles_addr_lower [OF t(5)] t(2) unb s24 by force
  qed (use n(2) unb foc(3) in auto)
  have tl: "tiles 0xC0000000 (xs @ [(p, n, f), (?nb, s - n, True)] @ ys) 0xC1000000"
    using t n(2,3) ns s24 unb uns by (auto simp: tiles_append intro!: exI [of _ m] dvd_diff_nat)
  show ?thesis
  proof (cases ys)
    case Nil
    then show ?thesis
      using False foc nb tl sh
      by (auto simp: split_block_def sizeof_heap_block_def mod_block_def put_block_def
          get_block_def heap_shape_def Let_def)
  next
    case (Cons c zs)
    obtain q u g where c: "c = (q, u, g)" by (cases c)
    have "q \<noteq> NULL" by (rule shape_not_null [OF sh]) (simp add: Cons c)
    moreover have "q \<notin> chunk_addr ` set zs" "q \<notin> chunk_addr ` set xs" "q \<noteq> p" "q \<noteq> ?nb"
      using shape_focus(4,5) [of h "xs @ [(p, s, f)]" q u g zs] sh nb Cons c by auto
    ultimately show ?thesis
      using False foc nb tl sh Cons c
      by (auto simp: split_block_def sizeof_heap_block_def mod_block_def put_block_def
          get_block_def heap_shape_def Let_def)
  qed
qed

lemma merge_next_stop:
  assumes "heap_shape h (xs @ (p, s, f) # ys)" "ys = [] \<or> \<not> snd (snd (hd ys))"
  shows "merge_next p h = Some h"
proof (cases ys)
  case Nil
  then show ?thesis using shape_focus(1) [OF assms(1)] by (simp add: merge_next_def)
next
  case (Cons c zs)
  obtain q t g where c: "c = (q, t, g)" by (cases c)
  have "get_block h q = Some \<lparr>hb_size = t, hb_next = first_addr zs NULL, hb_prev = p, hb_is_free = g\<rparr>"
    using shape_focus(1) [of h "xs @ [(p, s, f)]" q t g zs] assms(1) Cons c by simp
  then show ?thesis
    using shape_focus(1) [OF assms(1)] assms(2) Cons c by (simp add: merge_next_def)
qed

lemma merge_next_glue:
  assumes sh: "heap_shape h (xs @ (p, s, f) # (q, t, True) # zs)"
  shows "\<exists>h'. merge_next p h = Some h' \<and> used_size h' = used_size h \<and>
           heap_shape h' (xs @ (p, s + t, f) # zs)"
proof -
  note foc = shape_focus [OF sh]
  note focq = shape_focus [of h "xs @ [(p, s, f)]" q t True zs, simplified, OF sh]
  obtain m where m: "tiles 0xC0000000 xs m" "unat p = m" "16 \<le> unat s" "8 dvd unat s"
      "16 \<le> unat t" "8 dvd unat t" "tiles (m + unat s + unat t) zs 0xC1000000"
    using sh by (auto simp: heap_shape_def tiles_append)
  have st: "unat (s + t) = unat s + unat t"
    using tiles_le [OF m(7)] by (simp add: unat_plus_small)
  have tl: "tiles 0xC0000000 (xs @ (p, s + t, f) # zs) 0xC1000000"
    using m st by (auto simp: tiles_append add.assoc intro!: exI [of _ m])
  show ?thesis
  proof (cases zs)
    case Nil
    then show ?thesis
      using foc focq tl sh
      by (auto simp: merge_next_def mod_block_def put_block_def get_block_def heap_shape_def)
  next
    case (Cons c ws)
    obtain r u g where c: "c = (r, u, g)" by (cases c)
    have shr: "heap_shape h ((xs @ [(p, s, f), (q, t, True)]) @ (r, u, g) # ws)"
      using sh Cons c by simp
    note focr = shape_focus [OF shr]
    have "p \<noteq> q" "p \<noteq> r" "q \<noteq> r" "r \<noteq> NULL" "q \<noteq> NULL" "p \<noteq> NULL"
      "p \<notin> chunk_addr ` set ws" "q \<notin> chunk_addr ` set ws" "r \<notin> chunk_addr ` set ws"
      "p \<notin> chunk_addr ` set xs" "q \<notin> chunk_addr ` set xs" "r \<notin> chunk_addr ` set xs"
      using foc focq focr Cons c by auto
    moreover have "free_list h = first_addr xs p" "total_size h = KHEAP_SIZE"
      using sh by (simp_all add: heap_shape_def)
    ultimately show ?thesis
      using foc(2,7) focq(2) focr(2,8) tl Cons c
      by (auto simp: merge_next_def mod_block_def put_block_def get_block_def heap_shape_def)
  qed
qed

lemma merge_prev_stop:
  assumes "heap_shape h (xs @ (p, s, f) # ys)" "xs = [] \<or> \<not> snd (snd (last xs))"
  shows "merge_prev p h = Some h"
proof (cases xs rule: rev_cases)
  case Nil
  then show ?thesis using shape_focus(1) [OF assms(1)] by (simp add: merge_prev_def)
next
  case (snoc zs c)
  obtain q t g where c: "c = (q, t, g)" by (cases c)
  have "get_block h q = Some \<lparr>hb_size = t, hb_next = p, hb_prev = last_addr NULL zs, hb_is_free = g\<rparr>"
    using shape_focus(1) [of h zs q t g "(p, s, f) # ys"] assms(1) snoc c by simp
  then show ?thesis
    using shape_focus(1) [OF assms(1)] assms(2) snoc c by (simp add: merge_prev_def)
qed

lemma merge_prev_glue:
  assumes sh: "heap_shape h (xs @ (q, t, True) # (p, s, f) # zs)"
  shows "\<exists>h'. merge_prev p h = Some h' \<and> used_size h' = used_size h \<and>
           heap_shape h' (xs @ (q, t + s, True) # zs)"
proof -
  note foc = shape_focus [OF sh]
  note focp = shape_focus [of h "xs @ [(q, t, True)]" p s f zs, simplified, OF sh]
  obtain m where m: "tiles 0xC0000000 xs m" "unat q = m" "16 \<le> unat s" "8 dvd unat s"
      "16 \<le> unat t" "8 dvd unat t" "tiles (m + unat t + unat s) zs 0xC1000000"
    using sh by (auto simp: heap_shape_def tiles_append)
  have st: "unat (t + s) = unat t + unat s"
    using tiles_le [OF m(7)] by (simp add: unat_plus_small)
  have tl: "tiles 0xC0000000 (xs @ (q, t + s, True) # zs) 0xC1000000"
    using m st by (auto simp: tiles_append add.assoc intro!: exI [of _ m])
  show ?thesis
  proof (cases zs)
    case Nil
    then show ?thesis
      using foc focp tl sh
      by (auto simp: merge_prev_def mod_block_def put_block_def get_block_def heap_shape_def)
  next
    case (Cons c ws)
    obtain r u g where c: "c = (r, u, g)" by (cases c)
    have shr: "heap_shape h ((xs @ [(q, t, True), (p, s, f)]) @ (r, u, g) # ws)"
      using sh Cons c by simp
    note focr = shape_focus [OF shr]
    have "p \<noteq> q" "p \<noteq> r" "q \<noteq> r" "r \<noteq> NULL" "q \<noteq> NULL" "p \<noteq> NULL"
      "p \<notin> chunk_addr ` set ws" "q \<notin> chunk_addr ` set ws" "r \<notin> chunk_addr ` set ws"
      "p \<notin> chunk_addr ` set xs" "q \<notin> chunk_addr ` set xs" "r \<notin> chunk_addr ` set xs"
      using foc focp focr Cons c by auto
    moreover have "free_list h = first_addr xs q" "total_size h = KHEAP_SIZE"
      using sh by (simp_all add: heap_shape_def)
    ultimately show ?thesis
      using foc(2,7) focp(2) focr(2,8) tl Cons c
      by (auto simp: merge_prev_def mod_block_def put_block_def get_block_def heap_shape_def)
  qed
qed

subsection \<open>Refinement of allocation\<close>

lemma find_free_from_shape:
  assumes "heap_shape h (xs @ ys)"
  shows "find_free_from h n (first_addr ys NULL) =
           Some (case first_fit n ys of None \<Rightarrow> NULL | Some (p, _) \<Rightarrow> p)"
  using assms
proof (induction ys arbitrary: xs)
  case Nil
  then show ?case by (simp add: find_free_from.simps)
next
  case (Cons c ys)
  obtain p s f where c: "c = (p, s, f)" by (cases c)
  with Cons.prems have sh: "heap_shape h (xs @ (p, s, f) # ys)" by simp
  have "find_free_from h n (first_addr ys NULL) =
      Some (case first_fit n ys of None \<Rightarrow> NULL | Some (p, _) \<Rightarrow> p)"
    using Cons.IH [of "xs @ [c]"] Cons.prems by simp
  then show ?case
    using shape_focus(1,3) [OF sh] c
    by (auto simp: find_free_from.simps [of h n p] split: option.splits)
qed

lemma find_free_block_shape:
  "heap_shape h cs \<Longrightarrow>
     find_free_block h n = Some (case first_fit n cs of None \<Rightarrow> NULL | Some (p, _) \<Rightarrow> p)"
  using find_free_from_shape [of h "[]" cs n] by (simp add: find_free_block_def heap_shape_def)

lemma first_fit_SomeE:
  assumes "first_fit n cs = Some (p, ds)"
  obtains xs s ys where "cs = xs @ (p, s, True) # ys" "n \<le> s"
    "ds = xs @ cut_chunk n (p, s, True) @ ys"
  using assms
proof (induction cs arbitrary: ds thesis)
  case (Cons c cs)
  obtain q t g where c: "c = (q, t, g)" by (cases c)
  show ?case
  proof (cases "g \<and> n \<le> t")
    case True
    then show ?thesis using Cons.prems(1) [of "[]"] Cons.prems(2) c by auto
  next
    case False
    with Cons.prems(2) c obtain ds' where ds': "first_fit n cs = Some (p, ds')"
      "ds = (q, t, g) # ds'" by auto
    obtain xs s ys where "cs = xs @ (p, s, True) # ys" "n \<le> s"
      "ds' = xs @ cut_chunk n (p, s, True) @ ys" by (rule Cons.IH [OF _ ds'(1)])
    then show ?thesis using Cons.prems(1) [of "c # xs"] ds'(2) c by simp
  qed
qed simp

lemma align_size_bounds:
  assumes "sz \<le> 0xFFFFFFE8"
  shows "unat (align_size sz) = (unat sz + 7) div 8 * 8"
    and "unat (align_size sz + 16) = (unat sz + 7) div 8 * 8 + 16"
proof -
  have sz: "unat sz \<le> 0xFFFFFFE8" using assms by (simp add: word_le_nat_alt)
  then have "unat (sz + 7) = unat sz + 7" by (simp add: unat_plus_small)
  then show 1: "unat (align_size sz) = (unat sz + 7) div 8 * 8"
    using unat_and_not_mask_u32 [of "sz + 7" 3] by (simp add: align_size_def mask_eq_exp_minus_1)
  have "(unat sz + 7) div 8 * 8 \<le> 0xFFFFFFE8" using sz by arith
  with 1 show "unat (align_size sz + 16) = (unat sz + 7) div 8 * 8 + 16"
    by (simp add: unat_plus_small)
qed

lemma heap_repD: "heap_rep h cs \<Longrightarrow> heap_shape h cs" "heap_rep h cs \<Longrightarrow> coalesced cs"
  by (simp_all add: heap_rep_def)

lemma coalesced_cut:
  "coalesced (xs @ (p, s, True) # ys) \<Longrightarrow> coalesced (xs @ cut_chunk n (p, s, True) @ ys)"
  by (cases ys; cases xs rule: rev_cases)
    (auto simp: cut_chunk_def successively_append_iff not_both_free_def)

lemma kmalloc_refines:
  assumes rep: "heap_rep h cs" and sz: "sz \<noteq> 0" "sz \<le> 0xFFFFFFE8"
  shows "case first_fit (align_size sz + 16) cs of
      None \<Rightarrow> kmalloc sz h = Some (NULL, h)
    | Some (p, ds) \<Rightarrow> \<exists>h'. kmalloc sz h = Some (p + 16, h') \<and> heap_rep h' ds \<and>
        used_size h' = used_size h + (align_size sz + 16)"
proof (cases "first_fit (align_size sz + 16) cs")
  case None
  then show ?thesis
    using sz heap_repD(1) [OF rep] find_free_block_shape
    by (simp add: kmalloc_def sizeof_heap_block_def)
next
  case (Some pd)
  let ?n = "align_size sz + 16"
  obtain p ds where pd: "pd = (p, ds)" by (cases pd)
  with Some have ff: "first_fit ?n cs = Some (p, ds)" by simp
  then obtain xs s ys where cs: "cs = xs @ (p, s, True) # ys" "?n \<le> s"
    "ds = xs @ cut_chunk ?n (p, s, True) @ ys" by (rule first_fit_SomeE)
  let ?mid = "\<lambda>f. if s - ?n < 24 then [(p, s, f)] else [(p, ?n, f), (p + ?n, s - ?n, True)]"
  have sh: "heap_shape h (xs @ (p, s, True) # ys)" using heap_repD(1) [OF rep] cs by simp
  have n: "16 \<le> unat ?n" "8 dvd unat ?n" using align_size_bounds(2) [OF sz(2)] by auto
  obtain h1 where h1: "split_block p ?n h = Some h1" "used_size h1 = used_size h"
      "heap_shape h1 (xs @ ?mid True @ ys)"
    using shape_split [OF sh cs(2) n] by auto
  obtain h2 where h2: "mod_block p (\<lambda>x. x\<lparr>hb_is_free := False\<rparr>) h1 = Some h2"
      "used_size h2 = used_size h1" "heap_shape h2 (xs @ ?mid False @ ys)"
    using shape_set_free [of h1 xs p _ True _ False] h1(3) by (cases "s - ?n < 24") auto
  have "kmalloc sz h = Some (p + 16, h2\<lparr>used_size := used_size h2 + ?n\<rparr>)"
    using sz find_free_block_shape [OF heap_repD(1) [OF rep]] ff shape_focus(3) [OF sh] h1 h2
    by (simp add: kmalloc_def sizeof_heap_block_def)
  moreover have "heap_rep (h2\<lparr>used_size := used_size h2 + ?n\<rparr>) ds"
    using h2(3) coalesced_cut [of xs p s ys ?n] heap_repD(2) [OF rep] cs
    by (simp add: heap_rep_def cut_chunk_def)
  ultimately show ?thesis using ff h1(2) h2(2) by simp
qed

subsection \<open>Refinement of release\<close>

lemma merge_next_cons:
  assumes "heap_shape h (xs @ (p, s, True) # ys)"
  shows "\<exists>h'. merge_next p h = Some h' \<and> used_size h' = used_size h \<and>
           heap_shape h' (xs @ cons_chunk (p, s, True) ys)"
proof (cases "ys = [] \<or> \<not> snd (snd (hd ys))")
  case True
  then have "cons_chunk (p, s, True) ys = (p, s, True) # ys" by (cases ys) auto
  then show ?thesis using merge_next_stop [OF assms True] assms by simp
next
  case False
  then obtain q t zs where "ys = (q, t, True) # zs" by (cases ys) auto
  then show ?thesis using merge_next_glue [of h xs p s True q t zs] assms by simp
qed

lemma cons_chunk_free: "\<exists>s' zs. cons_chunk (p, s, True) ys = (p, s', True) # zs"
  by (cases "((p, s, True), ys)" rule: cons_chunk.cases) auto

lemma merge_prev_cons:
  assumes "heap_shape h (xs @ (p, s, True) # ys)"
  shows "\<exists>h'. merge_prev p h = Some h' \<and> used_size h' = used_size h \<and>
           heap_shape h' (if xs = [] then (p, s, True) # ys
             else butlast xs @ cons_chunk (last xs) ((p, s, True) # ys))"
proof (cases "xs = [] \<or> \<not> snd (snd (last xs))")
  case True
  then have "xs = [] \<or> cons_chunk (last xs) ((p, s, True) # ys) = last xs # (p, s, True) # ys"
    by (cases "last xs") auto
  then show ?thesis
    using merge_prev_stop [OF assms True] assms by (cases xs rule: rev_cases) auto
next
  case False
  then obtain zs q t where "xs = zs @ [(q, t, True)]" by (cases xs rule: rev_cases) auto
  then show ?thesis using merge_prev_glue [of h zs q t p s True ys] assms by simp
qed

lemma foldr_cons_chunk: "coalesced (xs @ ds) \<Longrightarrow> foldr cons_chunk xs ds = xs @ ds"
proof (induction xs)
  case (Cons c xs)
  then have "foldr cons_chunk xs ds = xs @ ds" by (auto simp: successively_Cons)
  moreover have "cons_chunk c (xs @ ds) = c # xs @ ds"
    using Cons.prems by (cases "(c, xs @ ds)" rule: cons_chunk.cases) (auto simp: not_both_free_def)
  ultimately show ?case by simp
qed simp

lemma coalesced_coalesce [simp]: "coalesced cs \<Longrightarrow> coalesce cs = cs"
  using foldr_cons_chunk [of cs "[]"] by (simp add: coalesce_def)

lemma coalesced_cons_chunk: "coalesced cs \<Longrightarrow> coalesced (cons_chunk c cs)"
  by (cases "(c, cs)" rule: cons_chunk.cases) (auto simp: successively_Cons not_both_free_def)

lemma coalesced_coalesce' [simp]: "coalesced (coalesce cs)"
  by (induction cs) (auto simp: coalesce_def intro: coalesced_cons_chunk)

text \<open>Releasing one used chunk of a coalesced heap: at most its two neighbours are merged.\<close>

lemma release_focus:
  assumes "coalesced (xs @ (p, s, False) # ys)" "p \<notin> chunk_addr ` set xs" "p \<notin> chunk_addr ` set ys"
  shows "release p (xs @ (p, s, False) # ys) =
     (if xs = [] then cons_chunk (p, s, True) ys
      else butlast xs @ cons_chunk (last xs) (cons_chunk (p, s, True) ys))"
proof -
  have "mark_free p zs = zs" if "p \<notin> chunk_addr ` set zs" for zs
    using that by (induction zs) (auto simp: mark_free_def)
  then have "mark_free p (xs @ (p, s, False) # ys) = xs @ (p, s, True) # ys"
    using assms(2,3) by (simp add: mark_free_def)
  moreover have "coalesce ys = ys"
    using assms(1) by (intro coalesced_coalesce) (auto simp: successively_append_iff successively_Cons)
  ultimately have eq: "release p (xs @ (p, s, False) # ys) =
      foldr cons_chunk xs (cons_chunk (p, s, True) ys)"
    by (simp add: release_def coalesce_def)
  show ?thesis
  proof (cases xs rule: rev_cases)
    case Nil
    then show ?thesis using eq by simp
  next
    case (snoc zs c)
    obtain s' ws where ws: "cons_chunk (p, s, True) ys = (p, s', True) # ws"
      using cons_chunk_free by blast
    have "\<exists>u vs. cons_chunk c ((p, s', True) # ws) = (chunk_addr c, u, snd (snd c)) # vs"
      by (cases c; cases "snd (snd c)") auto
    then obtain u vs where u: "cons_chunk c ((p, s', True) # ws) = (chunk_addr c, u, snd (snd c)) # vs"
      by blast
    have "coalesced (cons_chunk c (cons_chunk (p, s, True) ys))"
      using assms(1) by (intro coalesced_cons_chunk) (auto simp: successively_append_iff successively_Cons)
    then have "coalesced (zs @ cons_chunk c (cons_chunk (p, s, True) ys))"
      using assms(1) snoc u ws by (auto simp: successively_append_iff not_both_free_def)
    then show ?thesis using eq snoc foldr_cons_chunk by simp
  qed
qed

lemma kfree_refines:
  assumes rep: "heap_rep h cs" and cs: "cs = xs @ (p, s, False) # ys"
  shows "\<exists>h'. kfree (p + 16) h = Some h' \<and> heap_rep h' (release p cs) \<and>
           used_size h' = used_size h - s"
proof -
  have sh: "heap_shape h (xs @ (p, s, False) # ys)" using heap_repD(1) [OF rep] cs by simp
  note foc = shape_focus [OF sh]
  obtain h1 where h1: "mod_block p (\<lambda>x. x\<lparr>hb_is_free := True\<rparr>) h = Some h1"
      "heap_shape h1 (xs @ (p, s, True) # ys)" "used_size h1 = used_size h"
    using shape_set_free [OF sh, of True] by auto
  let ?h1 = "h1\<lparr>used_size := used_size h1 - s\<rparr>"
  obtain h2 where h2: "merge_next p ?h1 = Some h2" "used_size h2 = used_size h - s"
      "heap_shape h2 (xs @ cons_chunk (p, s, True) ys)"
    using merge_next_cons [of ?h1 xs p s ys] h1(2,3) by auto
  obtain s' zs where zs: "cons_chunk (p, s, True) ys = (p, s', True) # zs"
    using cons_chunk_free by blast
  have "release p cs = (if xs = [] then (p, s', True) # zs
      else butlast xs @ cons_chunk (last xs) ((p, s', True) # zs))"
    using release_focus [of xs p s ys] heap_repD(2) [OF rep] foc(4,5) cs zs by simp
  then obtain h3 where h3: "merge_prev p h2 = Some h3" "used_size h3 = used_size h - s"
      "heap_shape h3 (release p cs)"
    using merge_prev_cons [of h2 xs p s' zs] h2(2,3) zs by auto
  have "p + 16 \<noteq> NULL"
  proof
    assume "p + 16 = NULL"
    then have "p = - 16" by (simp add: eq_neg_iff_add_eq_0)
    then show False
      using tiles_addr_upper [of "0xC0000000" cs "0xC1000000" p] heap_repD(1) [OF rep] cs
      by (simp add: heap_shape_def)
  qed
  then have "kfree (p + 16) h = Some h3"
    using foc(1) h1 h2 h3 shape_focus(1) [OF h1(2)]
    by (simp add: kfree_def sizeof_heap_block_def merge_blocks_def)
  then show ?thesis using h3 by (simp add: heap_rep_def release_def)
qed

lemma heap_rep_unique: "heap_rep h cs \<Longrightarrow> heap_rep h ds \<Longrightarrow> cs = ds"
proof -
  have "chain H pr cs NULL \<Longrightarrow> chain H pr ds NULL \<Longrightarrow> first_addr cs NULL = first_addr ds NULL \<Longrightarrow>
      tiles a cs e \<Longrightarrow> tiles a ds e \<Longrightarrow> cs = ds" for H pr a e
  proof (induction cs arbitrary: ds pr a)
    case Nil
    then show ?case by (auto dest: tiles_same)
  next
    case (Cons c cs)
    obtain p s f where c: "c = (p, s, f)" by (cases c)
    with Cons.prems obtain es where ds: "ds = (p, s, f) # es"
      by (cases ds) (auto dest: tiles_le)
    have "cs = es"
      by (rule Cons.IH [of p es "a + unat s"]) (use Cons.prems c ds in auto)
    then show ?case using c ds by simp
  qed
  note * = this [of "blocks h" NULL "0xC0000000" "0xC1000000"]
  show "heap_rep h cs \<Longrightarrow> heap_rep h ds \<Longrightarrow> cs = ds"
    by (rule *) (simp_all add: heap_rep_def heap_shape_def)
qed

subsection \<open>Live pointers, and the heap as a kernel allocator\<close>

definition kheap_ok :: "kheap \<Rightarrow> bool" where
  "kheap_ok h \<longleftrightarrow> (\<exists>cs. heap_rep h cs)"

definition used_chunks :: "chunk list \<Rightarrow> addr set" where
  "used_chunks cs = {p + 16 | p s. (p, s, False) \<in> set cs}"

definition kheap_live :: "kheap \<Rightarrow> addr set" where
  "kheap_live h = {q. \<exists>cs. heap_rep h cs \<and> q \<in> used_chunks cs}"

lemma kheap_live_rep: "heap_rep h cs \<Longrightarrow> kheap_live h = used_chunks cs"
  using heap_rep_unique by (auto simp: kheap_live_def)

lemma used_chunks_append [simp]: "used_chunks (xs @ ys) = used_chunks xs \<union> used_chunks ys"
  and used_chunks_Cons [simp]:
    "used_chunks ((p, s, f) # cs) = (if f then {} else {p + 16}) \<union> used_chunks cs"
  and used_chunks_Nil [simp]: "used_chunks [] = {}"
  by (auto simp: used_chunks_def)

lemma used_chunks_addr: "q + 16 \<in> used_chunks cs \<Longrightarrow> q \<in> chunk_addr ` set cs"
  by (force simp: used_chunks_def)

lemma used_chunks_cons_chunk: "used_chunks (cons_chunk c cs) = used_chunks (c # cs)"
  by (cases "(c, cs)" rule: cons_chunk.cases) auto

lemma used_chunks_coalesce: "used_chunks (coalesce cs) = used_chunks cs"
proof (induction cs)
  case (Cons c cs)
  then show ?case
    by (cases c) (simp add: coalesce_def used_chunks_cons_chunk)
qed (simp add: coalesce_def)

lemma used_chunks_release: "used_chunks (release p cs) = used_chunks cs - {p + 16}"
proof -
  have "used_chunks (mark_free p cs) = used_chunks cs - {p + 16}"
  proof (induction cs)
    case (Cons c cs)
    obtain q s f where c: "c = (q, s, f)" by (cases c)
    have "mark_free p (c # cs) = (q, s, f \<or> q = p) # mark_free p cs" by (simp add: c mark_free_def)
    then show ?case by (simp add: c Cons.IH insert_Diff_if Un_Diff)
  qed (simp add: mark_free_def)
  then show ?thesis by (simp add: release_def used_chunks_coalesce)
qed

lemma rep_addr_bound:
  assumes "heap_rep h cs" "p \<in> chunk_addr ` set cs"
  shows "0xC0000000 \<le> unat p" "unat p + 16 \<le> 0xC1000000" "unat (p + 16) = unat p + 16"
    "p + 16 \<noteq> NULL"
proof -
  obtain s f where c: "(p, s, f) \<in> set cs" using assms(2) by auto
  have t: "tiles 0xC0000000 cs 0xC1000000" using heap_repD(1) [OF assms(1)] by (simp add: heap_shape_def)
  show b: "0xC0000000 \<le> unat p" "unat p + 16 \<le> 0xC1000000"
    using tiles_in [OF t c] by auto
  then show u: "unat (p + 16) = unat p + 16" by (simp add: unat_plus_small)
  with b show "p + 16 \<noteq> NULL" by auto
qed

lemma kheap_live_range: "q \<in> kheap_live h \<Longrightarrow> 0xC0000000 \<le> unat q"
proof -
  assume "q \<in> kheap_live h"
  then obtain cs p s where rep: "heap_rep h cs" and p: "(p, s, False) \<in> set cs" "q = p + 16"
    by (auto simp: kheap_live_def used_chunks_def)
  have "p \<in> chunk_addr ` set cs" using p(1) by force
  then show ?thesis using rep_addr_bound [OF rep, of p] p(2) by simp
qed

lemma kmalloc_zero [simp]: "kmalloc 0 h = Some (NULL, h)"
  by (simp add: kmalloc_def)

text \<open>The shape of a successful allocation, the form in which the rest uses it.\<close>

lemma kmalloc_cases:
  assumes rep: "heap_rep h cs" and sz: "sz \<le> 0xFFFFFFE8"
  obtains (null) "kmalloc sz h = Some (NULL, h)"
      "sz = 0 \<or> first_fit (align_size sz + 16) cs = None"
  | (fit) p s xs ys h' where "sz \<noteq> 0" "cs = xs @ (p, s, True) # ys" "align_size sz + 16 \<le> s"
      "kmalloc sz h = Some (p + 16, h')"
      "heap_rep h' (xs @ cut_chunk (align_size sz + 16) (p, s, True) @ ys)"
      "used_size h' = used_size h + (align_size sz + 16)" "p + 16 \<noteq> NULL" "p + 16 \<notin> kheap_live h"
      "kheap_live h' = insert (p + 16) (kheap_live h)"
proof (cases "sz = 0 \<or> first_fit (align_size sz + 16) cs = None")
  case True
  then show thesis using null kmalloc_refines [OF rep _ sz] by (cases "sz = 0") auto
next
  case False
  then obtain p ds where ff: "first_fit (align_size sz + 16) cs = Some (p, ds)" by auto
  then obtain xs s ys where cs: "cs = xs @ (p, s, True) # ys" "align_size sz + 16 \<le> s"
    "ds = xs @ cut_chunk (align_size sz + 16) (p, s, True) @ ys" by (rule first_fit_SomeE)
  obtain h' where h': "kmalloc sz h = Some (p + 16, h')" "heap_rep h' ds"
      "used_size h' = used_size h + (align_size sz + 16)"
    using kmalloc_refines [OF rep _ sz] ff False by auto
  have sh: "heap_shape h (xs @ (p, s, True) # ys)" using heap_repD(1) [OF rep] cs by simp
  have "p + 16 \<notin> used_chunks cs"
    using shape_focus(4,5) [OF sh] used_chunks_addr [of p xs] used_chunks_addr [of p ys] cs by auto
  then show thesis
    using fit [of xs p s ys h'] False cs h' rep_addr_bound(4) [OF rep, of p]
      kheap_live_rep [OF rep] kheap_live_rep [OF h'(2)]
    by (auto simp: cut_chunk_def)
qed

interpretation kh: kernel_allocator kmalloc kfree kheap_ok kheap_live
proof
  fix h n assume ok: "kheap_ok h" and n: "n \<le> (0xFFFFFFE8 :: u32)"
  then obtain cs where rep: "heap_rep h cs" by (auto simp: kheap_ok_def)
  show ex: "\<exists>p h'. kmalloc n h = Some (p, h')" by (rule kmalloc_cases [OF rep n]) auto
  fix p h' assume a: "kmalloc n h = Some (p, h')"
  show "kheap_ok h'"
    using rep a by (rule_tac kmalloc_cases [OF rep n]) (auto simp: kheap_ok_def)
  show "p \<noteq> NULL \<Longrightarrow> p \<notin> kheap_live h" and "p \<noteq> NULL \<Longrightarrow> kheap_live h' = insert p (kheap_live h)"
    using a by (rule_tac kmalloc_cases [OF rep n]; simp)+
next
  fix h n h' assume "kheap_ok h" and n: "n \<le> (0xFFFFFFE8 :: u32)" and a: "kmalloc n h = Some (NULL, h')"
  then obtain cs where rep: "heap_rep h cs" by (auto simp: kheap_ok_def)
  show "h' = h" by (rule kmalloc_cases [OF rep n]) (use a in auto)
next
  fix h p assume "kheap_ok h" "p \<in> kheap_live h"
  then obtain cs q s where rep: "heap_rep h cs" and q: "p = q + 16" "(q, s, False) \<in> set cs"
    using kheap_live_rep by (auto simp: kheap_ok_def used_chunks_def)
  then obtain xs ys where "cs = xs @ (q, s, False) # ys" by (meson split_list)
  from kfree_refines [OF rep this] obtain h' where
    "kfree p h = Some h'" "heap_rep h' (release q cs)" using q by auto
  then show "\<exists>h'. kfree p h = Some h' \<and> kheap_ok h' \<and> kheap_live h' = kheap_live h - {p}"
    using rep q used_chunks_release by (auto simp: kheap_ok_def kheap_live_rep)
next
  fix h show "kfree NULL h = Some h" by (simp add: kfree_def)
next
  fix h assume "kheap_ok h"
  then obtain cs where rep: "heap_rep h cs" by (auto simp: kheap_ok_def)
  show "NULL \<notin> kheap_live h"
    using rep_addr_bound(4) [OF rep] by (force simp: kheap_live_rep [OF rep] used_chunks_def)
qed

subsection \<open>Correctness of the heap\<close>

lemma tiles_aligned: "tiles a cs e \<Longrightarrow> 8 dvd a \<Longrightarrow> p \<in> chunk_addr ` set cs \<Longrightarrow> 8 dvd unat p"
proof (induction cs arbitrary: a)
  case (Cons c cs)
  obtain q s f where c: "c = (q, s, f)" by (cases c)
  with Cons.prems have "tiles (a + unat s) cs e" "8 dvd a + unat s" "unat q = a"
    by (auto intro: dvd_add)
  with Cons.IH [of "a + unat s"] Cons.prems(2,3) c show ?case by (cases "p = q") auto
qed simp

lemma tiles_disjoint:
  assumes "tiles a (xs @ (p, s, f) # ys) e" "(q, t, g) \<in> set xs \<union> set ys"
  shows "{unat p..<unat p + unat s} \<inter> {unat q..<unat q + unat t} = {}"
proof -
  obtain m where m: "tiles a xs m" "unat p = m" "tiles (m + unat s) ys e"
    using assms(1) by (auto simp: tiles_append)
  have "unat q + unat t \<le> unat p \<or> unat p + unat s \<le> unat q"
    using assms(2) tiles_in(2) [OF m(1), of q t g] tiles_in(1) [OF m(3), of q t g] m(2) by auto
  then show ?thesis by (simp add: Int_def set_eq_iff) linarith
qed

lemma first_fit_None: "first_fit n cs = None \<longleftrightarrow> (\<forall>p s. (p, s, True) \<in> set cs \<longrightarrow> s < n)"
proof (induction n cs rule: first_fit.induct)
  case (2 n p s f cs)
  show ?case
  proof (cases "f \<and> n \<le> s")
    case True
    then have "(p, s, True) \<in> set ((p, s, f) # cs)" "\<not> s < n" by auto
    with True show ?thesis by (metis first_fit.simps(2) option.distinct(1))
  next
    case False
    with "2.IH" show ?thesis by (auto simp: not_le)
  qed
qed simp

text \<open>C34: for a request of at most \<open>0xFFFFFFE8\<close> bytes, a pointer that \<open>kmalloc\<close> returns is 8-byte aligned, the
  requested bytes behind it lie in the heap region, and they overlap neither the payload nor the header of
  any block that was in use before; every such block stays in use, and the heap stays well formed. (The
  bound is sharp: for the 23 larger sizes the size of the block wraps around, see \<open>kmalloc_size_wraps\<close>.)\<close>

theorem kmalloc_safe:
  assumes "heap_rep h cs" "sz \<le> 0xFFFFFFE8" "kmalloc sz h = Some (p, h')" "p \<noteq> NULL"
  shows "\<exists>ds. heap_rep h' ds \<and> 0xC0000010 \<le> unat p \<and> unat p + unat sz \<le> 0xC1000000 \<and> 8 dvd unat p \<and>
    (\<forall>q t. (q, t, False) \<in> set cs \<longrightarrow> (q, t, False) \<in> set ds \<and>
       {unat p - 16..<unat p + unat sz} \<inter> {unat q..<unat q + unat t} = {})"
  using assms(1,2)
proof (cases rule: kmalloc_cases)
  case null
  then show ?thesis using assms by simp
next
  case (fit q s xs ys h2)
  let ?n = "align_size sz + 16"
  have p: "p = q + 16" "h' = h2" using fit assms(3) by auto
  have b: "unat p = unat q + 16" "0xC0000000 \<le> unat q"
    using rep_addr_bound [OF assms(1), of q] fit(2) p by auto
  have t: "tiles 0xC0000000 cs 0xC1000000"
    using heap_repD(1) [OF assms(1)] by (simp add: heap_shape_def)
  have n: "unat sz + 16 \<le> unat ?n" using align_size_bounds(2) [OF assms(2)] by simp
  then have le: "unat sz + 16 \<le> unat s" using fit(3) by (simp add: word_le_nat_alt)
  have top: "unat q + unat s \<le> 0xC1000000" using tiles_in(2) [OF t, of q s True] fit(2) by simp
  have al: "8 dvd unat q" using tiles_aligned [OF t, of q] fit(2) by simp
  have "{unat q..<unat q + unat s} \<inter> {unat r..<unat r + unat u} = {}"
    if "(r, u, False) \<in> set cs" for r u
    using tiles_disjoint [of _ xs q s True ys _ r u False] t that fit(2) by auto
  moreover have "{unat p - 16..<unat p + unat sz} \<subseteq> {unat q..<unat q + unat s}"
    using b le by simp
  ultimately have "{unat p - 16..<unat p + unat sz} \<inter> {unat r..<unat r + unat u} = {}"
    if "(r, u, False) \<in> set cs" for r u
    using that by blast
  moreover have "(r, u, False) \<in> set (xs @ cut_chunk ?n (q, s, True) @ ys)"
    if "(r, u, False) \<in> set cs" for r u using that fit(2) by auto
  ultimately show ?thesis
    using b le p fit(5) top al by (intro exI [of _ "xs @ cut_chunk ?n (q, s, True) @ ys"]) simp
qed

text \<open>C35: on a well-formed heap \<open>kmalloc\<close> of at most \<open>0xFFFFFFE8\<close> bytes returns; it returns \<open>NULL\<close> exactly for a
  request of 0 bytes or when no free block holds the aligned request and its header, and then it changes
  nothing. (For larger sizes the size of the block wraps around, see \<open>kmalloc_size_wraps\<close>.)\<close>

theorem kmalloc_null_iff:
  assumes "heap_rep h cs" "sz \<le> 0xFFFFFFE8"
  shows "\<exists>p h'. kmalloc sz h = Some (p, h') \<and> (p = NULL \<longrightarrow> h' = h) \<and>
    (p = NULL \<longleftrightarrow> sz = 0 \<or> (\<forall>q s. (q, s, True) \<in> set cs \<longrightarrow> unat s < (unat sz + 7) div 8 * 8 + 16))"
proof -
  have eq: "first_fit (align_size sz + 16) cs = None \<longleftrightarrow>
      (\<forall>q s. (q, s, True) \<in> set cs \<longrightarrow> unat s < (unat sz + 7) div 8 * 8 + 16)"
    using align_size_bounds(2) [OF assms(2)] by (auto simp: first_fit_None word_less_nat_alt)
  show ?thesis
    using assms
  proof (cases rule: kmalloc_cases)
    case null
    then show ?thesis using eq by blast
  next
    case (fit q s xs ys h2)
    then have "(q, s, True) \<in> set cs" "\<not> s < align_size sz + 16" by simp_all
    then have "first_fit (align_size sz + 16) cs \<noteq> None" unfolding first_fit_None by blast
    then show ?thesis
      unfolding eq [symmetric] using fit(1,4,7) by (intro exI [of _ "q + 16"] exI [of _ h2]) simp
  qed
qed

text \<open>C36: releasing the pointer of a block in use succeeds and gives the heap in which that block
  is free and merged with the free blocks around it; no other block in use is touched.\<close>

theorem kfree_releases:
  assumes "heap_rep h cs" "(q, s, False) \<in> set cs"
  shows "\<exists>h'. kfree (q + 16) h = Some h' \<and> heap_rep h' (release q cs) \<and>
    used_size h' = used_size h - s \<and> kheap_live h' = kheap_live h - {q + 16}"
proof -
  obtain xs ys where "cs = xs @ (q, s, False) # ys" using assms(2) by (meson split_list)
  from kfree_refines [OF assms(1) this] obtain h' where
    "kfree (q + 16) h = Some h'" "heap_rep h' (release q cs)" "used_size h' = used_size h - s" by auto
  then show ?thesis using assms(1) by (auto simp: kheap_live_rep used_chunks_release)
qed

lemma cons_chunk_no_merge:
  "coalesced ((p, s, True) # ys) \<Longrightarrow> cons_chunk (p, s, True) ys = (p, s, True) # ys"
  by (cases "((p, s, True), ys)" rule: cons_chunk.cases) (auto simp: not_both_free_def)

lemma release_cut:
  assumes "coalesced (xs @ (p, s, True) # ys)" "p \<notin> chunk_addr ` set xs" "p \<notin> chunk_addr ` set ys"
    and "n \<noteq> 0"
  shows "release p (xs @ cut_chunk n (p, s, True) @ ys) = xs @ (p, s, True) # ys"
proof -
  have ys: "cons_chunk (p, s, True) ys = (p, s, True) # ys"
    using assms(1) by (intro cons_chunk_no_merge) (auto simp: successively_append_iff)
  have xs: "xs = [] \<or> cons_chunk (last xs) ((p, s, True) # ys) = last xs # (p, s, True) # ys"
    using assms(1) by (cases xs rule: rev_cases; cases "last xs")
      (auto simp: successively_append_iff not_both_free_def)
  have co: "coalesced (xs @ cut_chunk n (p, s, True) @ ys)" by (rule coalesced_cut [OF assms(1)])
  show ?thesis
  proof (cases "s - n < 24")
    case True
    then show ?thesis
      using release_focus [of xs p s ys] co assms(2,3) ys xs by (auto simp: cut_chunk_def)
  next
    case False
    then show ?thesis
      using release_focus [of xs p n "(p + n, s - n, True) # ys"] co assms(2-4) ys xs
      by (auto simp: cut_chunk_def)
  qed
qed

text \<open>\<open>kmalloc\<close> followed by \<open>kfree\<close> of the pointer gives back the same division of the heap
  into blocks, split or not.\<close>

theorem kmalloc_kfree_roundtrip:
  assumes "heap_rep h cs" "sz \<le> 0xFFFFFFE8" "kmalloc sz h = Some (p, h1)" "p \<noteq> NULL"
  shows "\<exists>h2. kfree p h1 = Some h2 \<and> heap_rep h2 cs"
  using assms(1,2)
proof (cases rule: kmalloc_cases)
  case null
  then show ?thesis using assms by simp
next
  case (fit q s xs ys h')
  let ?n = "align_size sz + 16"
  have p: "p = q + 16" "h1 = h'" using fit assms(3) by auto
  have n: "?n \<noteq> 0" using align_size_bounds(2) [OF assms(2)] by auto
  have foc: "q \<notin> chunk_addr ` set xs" "q \<notin> chunk_addr ` set ys"
    using shape_focus(4,5) [of h xs q s True ys] heap_repD(1) [OF assms(1)] fit(2) by auto
  have "\<exists>u zs. cut_chunk ?n (q, s, True) = (q, u, False) # zs" by (simp add: cut_chunk_def)
  then obtain u zs where "cut_chunk ?n (q, s, True) = (q, u, False) # zs" by blast
  then show ?thesis
    using kfree_refines [OF fit(5), of xs q u "zs @ ys"] release_cut [of xs q s ys ?n] foc n p
      heap_repD(2) [OF assms(1)] fit(2) by auto
qed

text \<open>The states of the heap: after \<open>init_kheap\<close>, any requests up to \<open>0xFFFFFFE8\<close> bytes and any
  releases of live pointers, in any order.\<close>

inductive heap_reachable :: "kheap \<Rightarrow> bool" where
  init: "heap_reachable (init_kheap h)"
| malloc: "heap_reachable h \<Longrightarrow> sz \<le> 0xFFFFFFE8 \<Longrightarrow> kmalloc sz h = Some (p, h') \<Longrightarrow> heap_reachable h'"
| free: "heap_reachable h \<Longrightarrow> p \<in> kheap_live h \<Longrightarrow> kfree p h = Some h' \<Longrightarrow> heap_reachable h'"

lemma init_kheap_rep: "heap_rep (init_kheap h) [(KHEAP_START, KHEAP_SIZE, True)]"
  by (simp add: heap_rep_def heap_shape_def init_kheap_def put_block_def KHEAP_START_def KHEAP_SIZE_def)

lemma kheap_ok_init: "kheap_ok (init_kheap h)"
  using init_kheap_rep by (auto simp: kheap_ok_def)

text \<open>A heap whose last chunk is its only free one and has \<open>r\<close> bytes serves every request that
  leaves 24 bytes of it; this is how the heap fills up after booting.\<close>

definition heap_room :: "kheap \<Rightarrow> nat \<Rightarrow> bool" where
  "heap_room h r \<longleftrightarrow> (\<exists>xs p s. heap_rep h (xs @ [(p, s, True)]) \<and> (\<forall>c \<in> set xs. \<not> snd (snd c)) \<and> unat s = r)"

lemma heap_room_init: "heap_room (init_kheap h) 0x1000000"
proof -
  have "heap_rep (init_kheap h) ([] @ [(KHEAP_START, KHEAP_SIZE, True)])" using init_kheap_rep by simp
  moreover have "unat KHEAP_SIZE = 0x1000000" by (simp add: KHEAP_SIZE_def)
  ultimately show ?thesis unfolding heap_room_def
    by (intro exI [of _ "[]"] exI [of _ KHEAP_START] exI [of _ KHEAP_SIZE]) simp
qed

lemma first_fit_last:
  "(\<forall>c \<in> set xs. \<not> snd (snd c)) \<Longrightarrow> n \<le> s \<Longrightarrow>
   first_fit n (xs @ [(p, s, True)]) = Some (p, xs @ cut_chunk n (p, s, True))"
  by (induction xs) auto

lemma kmalloc_room:
  assumes "heap_room h r" "sz \<noteq> 0" "sz \<le> 0xFFFFFFE8" "unat (align_size sz + 16) + 24 \<le> r"
  shows "\<exists>p h'. kmalloc sz h = Some (p, h') \<and> p \<noteq> NULL \<and> heap_room h' (r - unat (align_size sz + 16))"
proof -
  let ?n = "align_size sz + 16"
  obtain xs p s where rep: "heap_rep h (xs @ [(p, s, True)])" "\<forall>c \<in> set xs. \<not> snd (snd c)" "unat s = r"
    using assms(1) by (auto simp: heap_room_def)
  have n: "?n \<le> s" "\<not> s - ?n < 24" "unat (s - ?n) = r - unat ?n"
    using assms(4) rep(3) by (auto simp: word_le_nat_alt word_less_nat_alt unat_minus_le)
  have ff: "first_fit ?n (xs @ [(p, s, True)]) = Some (p, xs @ cut_chunk ?n (p, s, True))"
    by (rule first_fit_last [OF rep(2) n(1)])
  obtain h' where h': "kmalloc sz h = Some (p + 16, h')" "heap_rep h' (xs @ cut_chunk ?n (p, s, True))"
    using kmalloc_refines [OF rep(1) assms(2,3)] ff by auto
  have "p + 16 \<noteq> NULL" using rep_addr_bound(4) [OF rep(1), of p] by simp
  moreover have "heap_room h' (r - unat ?n)"
    unfolding heap_room_def
    by (rule exI [of _ "xs @ [(p, ?n, False)]"], rule exI [of _ "p + ?n"], rule exI [of _ "s - ?n"])
      (use h'(2) n rep(2) in \<open>auto simp: cut_chunk_def\<close>)
  ultimately show ?thesis using h'(1) by blast
qed

lemma heap_room_ok: "heap_room h r \<Longrightarrow> kheap_ok h"
  by (auto simp: heap_room_def kheap_ok_def)

lemma heap_reachable_ok: "heap_reachable h \<Longrightarrow> kheap_ok h"
proof (induction rule: heap_reachable.induct)
  case (malloc h sz p h')
  then show ?case using kh.alloc_ok by blast
next
  case (free h p h')
  then show ?case using kh.dealloc_live by fastforce
qed (rule kheap_ok_init)

text \<open>C37: in every state the heap can reach by requests of at most \<open>0xFFFFFFE8\<close> bytes and releases of blocks in use,
  its blocks tile the 16 MB region, form one doubly linked list in address order and no two
  neighbours are both free; from such a state the next request within that bound and the next release of a
  block in use return. (A larger request breaks this: after it the heap may never return again.)\<close>

theorem heap_invariant:
  assumes "heap_reachable h"
  shows "(\<exists>cs. heap_rep h cs) \<and> (\<forall>sz \<le> 0xFFFFFFE8. kmalloc sz h \<noteq> None) \<and>
    (\<forall>p \<in> kheap_live h. kfree p h \<noteq> None)"
proof -
  have ok: "kheap_ok h" by (rule heap_reachable_ok [OF assms])
  then show ?thesis
    using kh.alloc_total [OF ok] kh.dealloc_live [OF ok] by (fastforce simp: kheap_ok_def)
qed

definition free_at :: "addr \<Rightarrow> kheap \<Rightarrow> bool" where
  "free_at p h \<longleftrightarrow> (\<exists>b. get_block h p = Some b \<and> hb_is_free b)"

lemma free_at_mod_block:
  "mod_block q f h = Some h' \<Longrightarrow> (\<And>x. hb_is_free (f x) = hb_is_free x) \<Longrightarrow> free_at p h \<Longrightarrow> free_at p h'"
  by (auto simp: mod_block_def put_block_def free_at_def get_block_def bind_eq_Some_conv split: if_splits)

lemma free_at_fields:
  "mod_block q (\<lambda>x. x\<lparr>hb_size := hb_size x + n\<rparr>) h = Some h' \<Longrightarrow> free_at p h \<Longrightarrow> free_at p h'"
  "mod_block q (\<lambda>x. x\<lparr>hb_next := a\<rparr>) h = Some h' \<Longrightarrow> free_at p h \<Longrightarrow> free_at p h'"
  "mod_block q (\<lambda>x. x\<lparr>hb_prev := a\<rparr>) h = Some h' \<Longrightarrow> free_at p h \<Longrightarrow> free_at p h'"
  by (erule free_at_mod_block; simp)+

lemma free_at_merge_next: "merge_next q h = Some h' \<Longrightarrow> free_at p h \<Longrightarrow> free_at p h'"
  by (auto simp: merge_next_def bind_eq_Some_conv split: if_splits dest: free_at_fields)

lemma free_at_merge_prev: "merge_prev q h = Some h' \<Longrightarrow> free_at p h \<Longrightarrow> free_at p h'"
  by (auto simp: merge_prev_def bind_eq_Some_conv split: if_splits dest: free_at_fields)

text \<open>A second release of the same pointer changes nothing, whatever the heap: the header keeps
  its free mark, and \<open>kfree\<close> stops at it.\<close>

theorem kfree_twice:
  assumes "kfree p h = Some h'"
  shows "kfree p h' = Some h'"
proof (cases "p = NULL")
  case False
  let ?b = "p - sizeof_heap_block"
  have "free_at ?b h'"
  proof (cases "free_at ?b h")
    case True
    then show ?thesis using assms False by (auto simp: kfree_def free_at_def)
  next
    case nf: False
    then obtain b where b: "get_block h ?b = Some b" "\<not> hb_is_free b"
      using assms False by (cases "get_block h ?b") (auto simp: kfree_def free_at_def)
    let ?h1 = "put_block ?b (b\<lparr>hb_is_free := True\<rparr>) h"
    have g: "get_block ?h1 ?b = Some (b\<lparr>hb_is_free := True\<rparr>)"
      using b(1) by (auto simp: get_block_def put_block_def split: if_splits)
    then have "merge_blocks ?b (?h1\<lparr>used_size := used_size ?h1 - hb_size b\<rparr>) = Some h'"
      using assms False b by (simp add: kfree_def mod_block_def Let_def)
    moreover have "free_at ?b (?h1\<lparr>used_size := used_size ?h1 - hb_size b\<rparr>)"
      using g by (simp add: free_at_def get_block_def split: if_splits)
    ultimately show ?thesis
      by (auto simp: merge_blocks_def bind_eq_Some_conv dest: free_at_merge_next free_at_merge_prev)
  qed
  then show ?thesis using False by (auto simp: kfree_def free_at_def)
qed (use assms in \<open>simp add: kfree_def\<close>)

subsection \<open>Two defects\<close>

text \<open>\<open>static kheap_t kheap = {0}\<close>.\<close>

definition kheap_boot :: kheap where
  "kheap_boot = \<lparr>free_list = NULL, heap_base = NULL, heap_limit = NULL, total_size = 0,
     used_size = 0, blocks = Map.empty\<rparr>"

lemmas kheap_eval = kmalloc_def kfree_def find_free_block_def find_free_from.simps split_block_def
  merge_blocks_def merge_next_def merge_prev_def mod_block_def put_block_def get_block_def
  init_kheap_def kheap_boot_def align_size_def sizeof_heap_block_def KHEAP_START_def KHEAP_SIZE_def

text \<open>\<open>used_size\<close> drifts. \<open>kmalloc\<close> adds the size it asked for, \<open>kfree\<close> subtracts the size of the
  block, which is larger when the block was not split. After one request for all but 24 bytes
  of a fresh heap and its release, the heap is as at the start, but \<open>get_kheap_info\<close> reports
  \<open>0xFFFFFFF8\<close> bytes in use and more free bytes than the heap has.\<close>

theorem used_size_drifts:
  "\<exists>p h1 h2. kmalloc 0xFFFFE8 (init_kheap kheap_boot) = Some (p, h1) \<and> p \<noteq> NULL \<and>
     kfree p h1 = Some h2 \<and> heap_rep h2 [(KHEAP_START, KHEAP_SIZE, True)] \<and>
     get_kheap_info h2 = (0x1000000, 0xFFFFFFF8, 0x1000008)"
  by (simp add: kheap_eval get_kheap_info_def heap_rep_def heap_shape_def)

lemma find_free_from_self_loop:
  assumes "get_block h p = Some b" "\<not> hb_is_free b" "hb_next b = p" "p \<noteq> NULL"
  shows "find_free_from h n p = None"
proof (rule ccontr)
  assume "find_free_from h n p \<noteq> None"
  then obtain r where r: "find_free_from h n p = Some r" by auto
  have "\<not> (h = h \<and> p = p)"
  proof (rule find_free_from.raw_induct [where P = "\<lambda>h' n' c r. \<not> (h' = h \<and> c = p)", OF _ r])
    fix f h' n' c r
    assume IH: "\<And>h' n' c r. f h' n' c = Some r \<Longrightarrow> \<not> (h' = h \<and> c = p)"
      and eq: "(if c = NULL then Some NULL
        else get_block h' c \<bind> (\<lambda>b. if hb_is_free b \<and> n' \<le> hb_size b then Some c
          else f h' n' (hb_next b))) = Some r"
    show "\<not> (h' = h \<and> c = p)"
    proof
      assume hc: "h' = h \<and> c = p"
      then have "f h n' p = Some r" using eq assms by simp
      then show False using IH by blast
    qed
  qed
  then show False by simp
qed

text \<open>The size arithmetic wraps. A request of \<open>0xFFFFFFF0\<close> bytes becomes a request for a block of
  0 bytes: \<open>kmalloc\<close> answers it, on a heap of 16 MB, with a pointer, and links the first block to
  itself, so that no later request returns.\<close>

theorem kmalloc_size_wraps:
  "\<exists>p h'. kmalloc 0xFFFFFFF0 (init_kheap kheap_boot) = Some (p, h') \<and> p \<noteq> NULL \<and>
     (\<forall>sz. sz = 0 \<or> kmalloc sz h' = None)"
proof -
  let ?b = "\<lparr>hb_size = 0, hb_next = KHEAP_START, hb_prev = KHEAP_START, hb_is_free = False\<rparr>"
  obtain h' where h': "kmalloc 0xFFFFFFF0 (init_kheap kheap_boot) = Some (KHEAP_START + 16, h')"
      "get_block h' KHEAP_START = Some ?b" "free_list h' = KHEAP_START"
    by (simp add: kheap_eval)
  then have "find_free_block h' n = None" for n
    using find_free_from_self_loop [of h' KHEAP_START ?b n]
    by (simp add: find_free_block_def KHEAP_START_def)
  then have "sz = 0 \<or> kmalloc sz h' = None" for sz
    by (simp add: kmalloc_def Let_def)
  moreover have "KHEAP_START + 16 \<noteq> (0 :: u32)" by (simp add: KHEAP_START_def)
  ultimately show ?thesis using h'(1) by blast
qed

subsection \<open>Witnesses\<close>

text \<open>The theorems above, applied to a fresh heap and to the heap after one request.\<close>

abbreviation heap0 :: kheap where "heap0 \<equiv> init_kheap kheap_boot"

definition heap1 :: kheap where
  "heap1 = \<lparr>free_list = 0xC0000000, heap_base = 0xC0000000, heap_limit = 0xC1000000,
     total_size = 0x1000000, used_size = 120,
     blocks = [0xC0000000 \<mapsto> \<lparr>hb_size = 120, hb_next = 0xC0000078, hb_prev = NULL, hb_is_free = False\<rparr>,
       0xC0000078 \<mapsto> \<lparr>hb_size = 0xFFFF88, hb_next = NULL, hb_prev = 0xC0000000, hb_is_free = True\<rparr>]\<rparr>"

lemma heap0_alloc: "kmalloc 100 heap0 = Some (0xC0000010, heap1)"
  by (simp add: heap1_def kheap_eval fun_upd_twist)

lemma heap1_rep: "heap_rep heap1 [(0xC0000000, 120, False), (0xC0000078, 0xFFFF88, True)]"
  by (simp add: heap1_def heap_rep_def heap_shape_def not_both_free_def KHEAP_SIZE_def)

theorem kmalloc_safe_witness:
  "heap_rep heap1 [(0xC0000000, 120, False), (0xC0000078, 0xFFFF88, True)] \<and>
   (\<exists>h' ds. kmalloc 8 heap1 = Some (0xC0000088, h') \<and> heap_rep h' ds \<and>
     (0xC0000000, 120, False) \<in> set ds)"
proof -
  obtain h' where h': "kmalloc 8 heap1 = Some (0xC0000088, h')"
    by (simp add: heap1_def kheap_eval)
  have "(0xC0000088 :: addr) \<noteq> NULL" "(8 :: u32) \<le> 0xFFFFFFE8" by simp_all
  then obtain ds where "heap_rep h' ds" "(0xC0000000, 120, False) \<in> set ds"
    using kmalloc_safe [OF heap1_rep _ h'] by auto
  then show ?thesis using h' heap1_rep by blast
qed

theorem kmalloc_null_iff_witness:
  "heap_rep heap1 [(0xC0000000, 120, False), (0xC0000078, 0xFFFF88, True)] \<and>
   kmalloc 0x1000000 heap1 = Some (NULL, heap1)"
  using kmalloc_null_iff [OF heap1_rep, of "0x1000000"] heap1_rep by auto

theorem kfree_releases_witness:
  "heap_rep heap1 [(0xC0000000, 120, False), (0xC0000078, 0xFFFF88, True)] \<and>
   (\<exists>h'. kfree 0xC0000010 heap1 = Some h' \<and> kheap_live h' = {})"
  using kfree_releases [OF heap1_rep, of "0xC0000000" 120] heap1_rep
  by (auto simp: kheap_live_rep [OF heap1_rep])

theorem kmalloc_kfree_roundtrip_witness:
  "heap_rep heap0 [(KHEAP_START, KHEAP_SIZE, True)] \<and>
   (\<exists>h2. kfree 0xC0000010 heap1 = Some h2 \<and> heap_rep h2 [(KHEAP_START, KHEAP_SIZE, True)])"
  using kmalloc_kfree_roundtrip [OF init_kheap_rep _ heap0_alloc] init_kheap_rep by simp

theorem heap_invariant_witness: "heap_reachable heap1 \<and> (\<exists>cs. heap_rep heap1 cs)"
proof -
  have "heap_reachable heap1"
    by (rule heap_reachable.malloc [OF heap_reachable.init _ heap0_alloc]) simp
  then show ?thesis using heap_invariant by blast
qed

theorem kfree_twice_witness:
  "\<exists>h'. kfree 0xC0000010 heap1 = Some h' \<and> kfree 0xC0000010 h' = Some h'"
proof -
  obtain h' where "kfree 0xC0000010 heap1 = Some h'"
    by (simp add: heap1_def kheap_eval)
  then show ?thesis using kfree_twice by blast
qed

end
