(* ===== verification/Paging.thy ===== *)
theory Paging
  imports Prelude
begin

text \<open>
  Physical frames and page tables, \<^verbatim>\<open>kernel/mm/paging.c\<close>.

  The code keeps its bitmap, its page directory and its page tables in physical memory and
  addresses them by physical address, so all of them are one store here: \<open>mem\<close> gives the 32-bit
  word at an address. Whatever two of these structures share is shared in the model too, which
  decides what \<open>init_paging\<close> does. The processor's part is the register \<open>cr0\<close>; the TLB is not
  modelled (the code invalidates the entry of every page it changes). \<^verbatim>\<open>kprintf\<close> is left out.

  Two lines of the source are not valid C and are read as they are meant: the page directory
  pointer \<open>(page_directory_t*)alloc_frame() * PAGE_SIZE\<close> is the address of the frame, and
  \<open>kernel_page_dir[i]\<close>, \<open>page_table[j]\<close> are the 32-bit entries of one table.
\<close>

unbundle bit_operations_syntax

subsection \<open>Data\<close>

definition PAGE_SIZE :: u32 where "PAGE_SIZE = 4096"
definition PAGE_PRESENT :: u32 where "PAGE_PRESENT = 0x1"
definition PAGE_WRITABLE :: u32 where "PAGE_WRITABLE = 0x2"
definition PAGE_USER :: u32 where "PAGE_USER = 0x4"

record paging =
  total_frames :: u32
  used_frames :: u32
  frame_bitmap :: addr
  kernel_page_dir :: addr
  cr0 :: u32
  mem :: "addr \<Rightarrow> u32"

definition store :: "addr \<Rightarrow> u32 \<Rightarrow> paging \<Rightarrow> paging" where
  "store a w s = s\<lparr>mem := (mem s)(a := w)\<rparr>"

text \<open>\<open>memset(p, 0, n)\<close>.\<close>

definition memzero :: "addr \<Rightarrow> u32 \<Rightarrow> paging \<Rightarrow> paging" where
  "memzero p n s = s\<lparr>mem := (\<lambda>a. if a - p < n then 0 else mem s a)\<rparr>"

subsection \<open>The frame allocator\<close>

definition bitmap_cell :: "paging \<Rightarrow> u32 \<Rightarrow> addr" where
  "bitmap_cell s i = frame_bitmap s + 4 * (i div 32)"

definition bit_mask :: "u32 \<Rightarrow> u32" where
  "bit_mask i = push_bit (unat (i mod 32)) 1"

definition set_frame_bit :: "u32 \<Rightarrow> paging \<Rightarrow> paging" where
  "set_frame_bit i s = store (bitmap_cell s i) (mem s (bitmap_cell s i) OR bit_mask i) s"

definition clear_frame_bit :: "u32 \<Rightarrow> paging \<Rightarrow> paging" where
  "clear_frame_bit i s = store (bitmap_cell s i) (mem s (bitmap_cell s i) AND NOT (bit_mask i)) s"

definition init_frame_allocator :: "paging \<Rightarrow> paging" where
  "init_frame_allocator s =
     (let total_memory = 128 * 1024 * 1024;
          s = s\<lparr>total_frames := total_memory div PAGE_SIZE, used_frames := 0\<rparr>;
          bitmap_size = (total_frames s + 31) div 32;
          s = s\<lparr>frame_bitmap := 0x100000\<rparr>;
          s = memzero (frame_bitmap s) (bitmap_size * 4) s;
          reserved_frames = 0x100000 div PAGE_SIZE;
          s = fold (\<lambda>i. set_frame_bit (of_nat i)) [0..<unat reserved_frames] s
      in s\<lparr>used_frames := reserved_frames\<rparr>)"

function alloc_frame_from :: "u32 \<Rightarrow> paging \<Rightarrow> u32 \<times> paging" where
  "alloc_frame_from i s =
     (if i < total_frames s
      then if mem s (bitmap_cell s i) AND bit_mask i = 0
           then (i, (set_frame_bit i s)\<lparr>used_frames := used_frames s + 1\<rparr>)
           else alloc_frame_from (i + 1) s
      else (0, s))"
  by pat_completeness auto
termination
  by (relation "measure (\<lambda>(i, s). unat (total_frames s) - unat i)")
    (auto simp: unat_inc word_less_nat_alt)

declare alloc_frame_from.simps [simp del]

definition alloc_frame :: "paging \<Rightarrow> u32 \<times> paging" where
  "alloc_frame s = alloc_frame_from 0 s"

definition free_frame :: "u32 \<Rightarrow> paging \<Rightarrow> paging" where
  "free_frame frame s =
     (if frame \<ge> total_frames s then s
      else if mem s (bitmap_cell s frame) AND bit_mask frame = 0 then s
      else (clear_frame_bit frame s)\<lparr>used_frames := used_frames s - 1\<rparr>)"

subsection \<open>Page tables\<close>

definition create_page_table :: "paging \<Rightarrow> addr \<times> paging" where
  "create_page_table s =
     (let (frame, s) = alloc_frame s
      in if frame = 0 then (NULL, s)
         else let phys_addr = frame * PAGE_SIZE
              in (phys_addr, memzero phys_addr PAGE_SIZE s))"

definition identity_entries :: "u32 \<Rightarrow> addr \<Rightarrow> paging \<Rightarrow> paging" where
  "identity_entries i page_table s =
     fold (\<lambda>j. let phys_addr = (i * 1024 + of_nat j) * PAGE_SIZE
               in store (page_table + 4 * of_nat j) (phys_addr OR PAGE_PRESENT OR PAGE_WRITABLE))
       [0..<1024] s"

fun identity_tables :: "u32 list \<Rightarrow> paging \<Rightarrow> bool \<times> paging" where
  "identity_tables [] s = (True, s)"
| "identity_tables (i # is) s =
     (let (page_table, s) = create_page_table s
      in if page_table = NULL then (False, s)
         else let table_phys = page_table AND 0xFFFFF000;
                  s = store (kernel_page_dir s + 4 * i)
                        (table_phys OR PAGE_PRESENT OR PAGE_WRITABLE) s;
                  s = identity_entries i page_table s
              in identity_tables is s)"

definition init_paging :: "paging \<Rightarrow> paging" where
  "init_paging s =
     (let s = init_frame_allocator s;
          (frame, s) = alloc_frame s;
          s = s\<lparr>kernel_page_dir := frame * PAGE_SIZE\<rparr>;
          s = memzero (kernel_page_dir s) PAGE_SIZE s;
          (done, s) = identity_tables (map of_nat [0..<1024]) s
      in if done then s\<lparr>cr0 := cr0 s OR 0x80000000\<rparr> else s)"

definition dir_cell :: "paging \<Rightarrow> addr \<Rightarrow> addr" where
  "dir_cell s v = kernel_page_dir s + 4 * drop_bit 22 v"

definition table_cell :: "u32 \<Rightarrow> addr \<Rightarrow> addr" where
  "table_cell pde v = (pde AND 0xFFFFF000) + 4 * (drop_bit 12 v AND 0x3FF)"

definition map_page :: "addr \<Rightarrow> u32 \<Rightarrow> u32 \<Rightarrow> paging \<Rightarrow> paging" where
  "map_page virtual_addr physical_addr flags s =
     (let write = (\<lambda>s. store (table_cell (mem s (dir_cell s virtual_addr)) virtual_addr)
            ((physical_addr AND 0xFFFFF000) OR flags OR PAGE_PRESENT) s)
      in if mem s (dir_cell s virtual_addr) AND PAGE_PRESENT = 0
         then let (page_table, s) = create_page_table s
              in if page_table = NULL then s
                 else let table_phys = page_table AND 0xFFFFF000
                      in write (store (dir_cell s virtual_addr)
                           (table_phys OR PAGE_PRESENT OR flags) s)
         else write s)"

definition unmap_page :: "addr \<Rightarrow> paging \<Rightarrow> paging" where
  "unmap_page virtual_addr s =
     (if mem s (dir_cell s virtual_addr) AND PAGE_PRESENT = 0 then s
      else let cell = table_cell (mem s (dir_cell s virtual_addr)) virtual_addr
           in if mem s cell AND PAGE_PRESENT \<noteq> 0
              then let frame = (mem s cell AND 0xFFFFF000) div PAGE_SIZE
                   in store cell 0 (free_frame frame s)
              else s)"

definition get_physical_addr :: "addr \<Rightarrow> paging \<Rightarrow> u32" where
  "get_physical_addr virtual_addr s =
     (if mem s (dir_cell s virtual_addr) AND PAGE_PRESENT = 0 then 0
      else let pte = mem s (table_cell (mem s (dir_cell s virtual_addr)) virtual_addr)
           in if pte AND PAGE_PRESENT = 0 then 0
              else (pte AND 0xFFFFF000) + (virtual_addr AND 0xFFF))"

definition get_total_memory :: "paging \<Rightarrow> u32" where
  "get_total_memory s = total_frames s * PAGE_SIZE"

definition get_used_memory :: "paging \<Rightarrow> u32" where
  "get_used_memory s = used_frames s * PAGE_SIZE"

definition get_free_memory :: "paging \<Rightarrow> u32" where
  "get_free_memory s = (total_frames s - used_frames s) * PAGE_SIZE"

subsection \<open>The bitmap as a set of frames\<close>

text \<open>
  \<open>frames_used s\<close> is the set of frames whose bit is set. The bitmap has one 32-bit cell for every
  32 frames; for a machine of at most 4 GB (\<open>0x100000\<close> frames) the cells of different groups of
  frames are different addresses.
\<close>

definition frame_used :: "paging \<Rightarrow> u32 \<Rightarrow> bool" where
  "frame_used s f \<longleftrightarrow> mem s (bitmap_cell s f) AND bit_mask f \<noteq> 0"

definition frames_used :: "paging \<Rightarrow> u32 set" where
  "frames_used s = {f. f < total_frames s \<and> frame_used s f}"

lemma frame_used_bit: "frame_used s f \<longleftrightarrow> bit (mem s (bitmap_cell s f)) (unat (f mod 32))"
  by (simp add: frame_used_def bit_mask_def bit_iff_and_push_bit_not_eq_0)

lemma mod_32_less: "unat (f mod 32 :: u32) < 32"
  by (simp add: unat_mod_distrib)

lemma frame_split:
  assumes "(f :: u32) div 32 = g div 32" "unat (f mod 32) = unat (g mod 32)"
  shows "f = g"
  using assms by (metis div_mult_mod_eq word_unat_eq_iff)

lemma bitmap_cell_inj:
  assumes "f < 0x100000" "g < 0x100000" "bitmap_cell s f = bitmap_cell s g"
  shows "f div 32 = (g :: u32) div 32"
proof -
  have b: "4 * (unat x div 32) < 2 ^ 32" if "x < 0x100000" for x :: u32
    using that by (simp add: word_less_nat_alt)
  have "unat (4 * (f div 32)) = unat (4 * (g div 32))"
    using assms(3) by (simp add: bitmap_cell_def)
  then have "4 * (unat f div 32) = 4 * (unat g div 32)"
    using b [OF assms(1)] b [OF assms(2)] by (simp add: unat_word_ariths unat_div_distrib)
  then show ?thesis by (simp add: word_unat_eq_iff unat_div_distrib)
qed

lemma bit_of_mask: "bit (bit_mask f) n \<longleftrightarrow> n = unat (f mod 32)"
  using mod_32_less [of f] by (auto simp: bit_mask_def bit_simps)

lemma store_simps [simp]:
  "total_frames (store a w s) = total_frames s" "used_frames (store a w s) = used_frames s"
  "frame_bitmap (store a w s) = frame_bitmap s" "kernel_page_dir (store a w s) = kernel_page_dir s"
  "cr0 (store a w s) = cr0 s" "mem (store a w s) = (mem s)(a := w)"
  by (simp_all add: store_def)

lemma memzero_simps [simp]:
  "total_frames (memzero p n s) = total_frames s" "used_frames (memzero p n s) = used_frames s"
  "frame_bitmap (memzero p n s) = frame_bitmap s"
  "kernel_page_dir (memzero p n s) = kernel_page_dir s"
  "cr0 (memzero p n s) = cr0 s" "mem (memzero p n s) a = (if a - p < n then 0 else mem s a)"
  by (simp_all add: memzero_def)

lemma bit_op_simps [simp]:
  "total_frames (set_frame_bit i s) = total_frames s"
  "used_frames (set_frame_bit i s) = used_frames s"
  "frame_bitmap (set_frame_bit i s) = frame_bitmap s"
  "kernel_page_dir (set_frame_bit i s) = kernel_page_dir s" "cr0 (set_frame_bit i s) = cr0 s"
  "total_frames (clear_frame_bit i s) = total_frames s"
  "used_frames (clear_frame_bit i s) = used_frames s"
  "frame_bitmap (clear_frame_bit i s) = frame_bitmap s"
  "kernel_page_dir (clear_frame_bit i s) = kernel_page_dir s" "cr0 (clear_frame_bit i s) = cr0 s"
  by (simp_all add: set_frame_bit_def clear_frame_bit_def)

lemma bitmap_cell_simps [simp]:
  "bitmap_cell (store a w s) = bitmap_cell s" "bitmap_cell (memzero p n s) = bitmap_cell s"
  "bitmap_cell (set_frame_bit i s) = bitmap_cell s" "bitmap_cell (clear_frame_bit i s) = bitmap_cell s"
  "bitmap_cell (s\<lparr>used_frames := n\<rparr>) = bitmap_cell s"
  "bitmap_cell (s\<lparr>kernel_page_dir := n\<rparr>) = bitmap_cell s"
  "bitmap_cell (s\<lparr>cr0 := n\<rparr>) = bitmap_cell s" "bitmap_cell (s\<lparr>mem := m\<rparr>) = bitmap_cell s"
  by (simp_all add: bitmap_cell_def fun_eq_iff)

lemma frame_used_set:
  assumes "f < 0x100000" "g < 0x100000"
  shows "frame_used (set_frame_bit f s) g \<longleftrightarrow> g = f \<or> frame_used s g"
proof (cases "bitmap_cell s g = bitmap_cell s f")
  case True
  then have "g = f \<longleftrightarrow> unat (g mod 32) = unat (f mod 32)"
    using bitmap_cell_inj [OF assms(2,1)] frame_split by blast
  then show ?thesis using True mod_32_less [of g]
    by (simp add: frame_used_bit set_frame_bit_def bit_simps bit_of_mask disj_commute)
next
  case False
  then have "g \<noteq> f" by auto
  with False show ?thesis by (simp add: frame_used_bit set_frame_bit_def)
qed

lemma frame_used_clear:
  assumes "f < 0x100000" "g < 0x100000"
  shows "frame_used (clear_frame_bit f s) g \<longleftrightarrow> g \<noteq> f \<and> frame_used s g"
proof (cases "bitmap_cell s g = bitmap_cell s f")
  case True
  then have "g = f \<longleftrightarrow> unat (g mod 32) = unat (f mod 32)"
    using bitmap_cell_inj [OF assms(2,1)] frame_split by blast
  then show ?thesis using True mod_32_less [of g]
    by (simp add: frame_used_bit clear_frame_bit_def bit_simps bit_of_mask conj_commute)
next
  case False
  then have "g \<noteq> f" by auto
  with False show ?thesis by (simp add: frame_used_bit clear_frame_bit_def)
qed

lemma frames_used_set:
  assumes "total_frames s \<le> 0x100000" "f < total_frames s"
  shows "frames_used (set_frame_bit f s) = insert f (frames_used s)"
  using assms frame_used_set [of f] by (auto simp: frames_used_def)

lemma frames_used_clear:
  assumes "total_frames s \<le> 0x100000" "f < total_frames s"
  shows "frames_used (clear_frame_bit f s) = frames_used s - {f}"
  using assms frame_used_clear [of f] by (auto simp: frames_used_def)

lemma frames_used_update [simp]: "frames_used (s\<lparr>used_frames := n\<rparr>) = frames_used s"
  by (simp add: frames_used_def frame_used_def bitmap_cell_def)

subsection \<open>Allocation takes the least free frame\<close>

lemma alloc_frame_from_least:
  assumes "\<forall>j. i \<le> j \<and> j < f \<longrightarrow> frame_used s j" "i \<le> f" "f < total_frames s" "\<not> frame_used s f"
  shows "alloc_frame_from i s = (f, (set_frame_bit f s)\<lparr>used_frames := used_frames s + 1\<rparr>)"
  using assms
proof (induction i s rule: alloc_frame_from.induct)
  case (1 i s)
  show ?case
  proof (cases "i = f")
    case True
    then show ?thesis using "1.prems"(3,4) by (simp add: alloc_frame_from.simps [of f] frame_used_def)
  next
    case False
    then have lt: "i < f" using "1.prems" by simp
    have "i + 1 \<le> f" using lt by (simp add: inc_le)
    moreover have "\<forall>j. i + 1 \<le> j \<and> j < f \<longrightarrow> frame_used s j"
      using "1.prems"(1) lt unat_inc [OF lt] by (auto simp: word_le_nat_alt)
    moreover have "frame_used s i" "i < total_frames s" using "1.prems" lt by auto
    ultimately show ?thesis
      using "1.IH" "1.prems" by (simp add: alloc_frame_from.simps [of i] frame_used_def)
  qed
qed

lemma alloc_frame_from_none:
  assumes "\<forall>j. i \<le> j \<and> j < total_frames s \<longrightarrow> frame_used s j"
  shows "alloc_frame_from i s = (0, s)"
  using assms
proof (induction i s rule: alloc_frame_from.induct)
  case (1 i s)
  show ?case
  proof (cases "i < total_frames s")
    case True
    then have "\<forall>j. i + 1 \<le> j \<and> j < total_frames s \<longrightarrow> frame_used s j"
      using "1.prems" unat_inc [OF True] by (auto simp: word_le_nat_alt)
    moreover have "frame_used s i" using "1.prems" True by auto
    ultimately show ?thesis
      using "1.IH" True by (simp add: alloc_frame_from.simps [of i] frame_used_def)
  qed (simp add: alloc_frame_from.simps)
qed

lemma least_free_frame:
  assumes "f < total_frames s" "\<not> frame_used s f"
  obtains g where "g < total_frames s" "\<not> frame_used s g" "\<forall>j. j < g \<longrightarrow> frame_used s j"
proof -
  let ?P = "\<lambda>n. \<exists>g. unat g = n \<and> g < total_frames s \<and> \<not> frame_used s g"
  have "\<exists>n. ?P n" using assms by blast
  then have "?P (LEAST n. ?P n)" by (rule LeastI_ex)
  then obtain g where g: "unat g = (LEAST n. ?P n)" "g < total_frames s" "\<not> frame_used s g"
    by blast
  have "frame_used s j" if "j < g" for j
  proof (rule ccontr)
    assume "\<not> frame_used s j"
    then have "?P (unat j)" using that g(2) less_trans by blast
    then have "(LEAST n. ?P n) \<le> unat j" by (rule Least_le)
    then show False using that g(1) by (simp add: word_less_nat_alt)
  qed
  with g show thesis using that by blast
qed

lemma alloc_frame_cases:
  obtains (full) "\<forall>f < total_frames s. frame_used s f" "alloc_frame s = (0, s)"
  | (got) f where "f < total_frames s" "\<not> frame_used s f" "\<forall>j. j < f \<longrightarrow> frame_used s j"
      "alloc_frame s = (f, (set_frame_bit f s)\<lparr>used_frames := used_frames s + 1\<rparr>)"
proof (cases "\<forall>f < total_frames s. frame_used s f")
  case True
  then show thesis using full alloc_frame_from_none [of 0 s] by (simp add: alloc_frame_def)
next
  case False
  then obtain f where "f < total_frames s" "\<not> frame_used s f" by auto
  then obtain g where "g < total_frames s" "\<not> frame_used s g" "\<forall>j. j < g \<longrightarrow> frame_used s j"
    by (rule least_free_frame)
  then show thesis using got alloc_frame_from_least [of 0 g s] by (simp add: alloc_frame_def)
qed

definition frame_pool_ok :: "paging \<Rightarrow> bool" where
  "frame_pool_ok s \<longleftrightarrow> total_frames s \<le> 0x100000 \<and> 0 \<in> frames_used s \<and>
     used_frames s = of_nat (card (frames_used s))"

lemma frames_used_less: "f \<in> frames_used s \<Longrightarrow> f < total_frames s"
  by (simp add: frames_used_def)

lemma finite_frames_used [simp]: "finite (frames_used s)"
  by (rule finite_subset [OF subset_UNIV]) simp

lemma clear_set_frame_bit:
  assumes "\<not> frame_used s f"
  shows "clear_frame_bit f (set_frame_bit f s) = s"
proof -
  have "(w OR m) AND NOT m = w" if "w AND m = 0" for w m :: u32
    using that by (auto simp: bit_eq_iff bit_simps)
  from this [of "mem s (bitmap_cell s f)" "bit_mask f"] show ?thesis
    using assms by (simp add: frame_used_def clear_frame_bit_def set_frame_bit_def store_def)
qed

lemma frame_used_cong:
  "frame_bitmap s = frame_bitmap t \<Longrightarrow> mem s (bitmap_cell t f) = mem t (bitmap_cell t f) \<Longrightarrow>
   frame_used s f = frame_used t f"
  by (simp add: frame_used_def bitmap_cell_def)

lemma frame_used_update [simp]: "frame_used (s\<lparr>used_frames := n\<rparr>) = frame_used s"
  by (simp add: frame_used_def fun_eq_iff)

lemma alloc_frame_got:
  assumes "frame_pool_ok s" "alloc_frame s = (f, s')" "f \<noteq> 0"
  shows "f \<notin> frames_used s" "f < total_frames s"
    and "s' = (set_frame_bit f s)\<lparr>used_frames := used_frames s + 1\<rparr>"
    and "frames_used s' = insert f (frames_used s)" "frame_pool_ok s'"
proof -
  obtain "f < total_frames s" "\<not> frame_used s f"
    "s' = (set_frame_bit f s)\<lparr>used_frames := used_frames s + 1\<rparr>"
    using assms(2,3) by (cases s rule: alloc_frame_cases) auto
  then show "f \<notin> frames_used s" "f < total_frames s"
    "s' = (set_frame_bit f s)\<lparr>used_frames := used_frames s + 1\<rparr>"
    "frames_used s' = insert f (frames_used s)" "frame_pool_ok s'"
    using assms(1) frames_used_set [of s f] by (auto simp: frame_pool_ok_def frames_used_def)
qed

lemma free_frame_used:
  assumes "frame_pool_ok s" "f \<in> frames_used s"
  shows "free_frame f s = (clear_frame_bit f s)\<lparr>used_frames := used_frames s - 1\<rparr>"
    and "frames_used (free_frame f s) = frames_used s - {f}"
    and "f \<noteq> 0 \<Longrightarrow> frame_pool_ok (free_frame f s)"
proof -
  show e: "free_frame f s = (clear_frame_bit f s)\<lparr>used_frames := used_frames s - 1\<rparr>"
    using assms(2) by (auto simp: free_frame_def frames_used_def frame_used_def)
  show u: "frames_used (free_frame f s) = frames_used s - {f}"
    using assms frames_used_clear [of s f] by (simp add: e frame_pool_ok_def frames_used_less)
  have "of_nat (card (frames_used s)) - 1 = (of_nat (card (frames_used s - {f})) :: u32)"
    using card.remove [OF finite_frames_used assms(2)] by simp
  then show "frame_pool_ok (free_frame f s)" if "f \<noteq> 0"
    using assms(1) that u unfolding frame_pool_ok_def e by simp
qed

lemma free_frame_unused:
  assumes "f \<notin> frames_used s"
  shows "free_frame f s = s"
  using assms by (auto simp: free_frame_def frames_used_def frame_used_def not_le)

subsection \<open>The frame allocator as an interface\<close>

text \<open>
  What a client of the allocator (page tables, \<open>mmap\<close>) relies on: \<open>alloc\<close> returns \<open>0\<close> and changes
  nothing when every frame is taken, otherwise it returns a fresh frame and only that frame becomes
  taken; releasing a frame gives it back and releasing a frame that is not taken does nothing.
\<close>

locale frame_pool =
  fixes alloc :: "'s \<Rightarrow> u32 \<times> 's"
    and release :: "u32 \<Rightarrow> 's \<Rightarrow> 's"
    and ok :: "'s \<Rightarrow> bool"
    and taken :: "'s \<Rightarrow> u32 set"
    and frames :: "'s \<Rightarrow> u32 set"
  assumes alloc_zero: "ok s \<Longrightarrow> alloc s = (0, s') \<Longrightarrow> s' = s \<and> taken s = frames s"
    and alloc_got: "ok s \<Longrightarrow> alloc s = (f, s') \<Longrightarrow> f \<noteq> 0 \<Longrightarrow>
          ok s' \<and> f \<in> frames s - taken s \<and> taken s' = insert f (taken s) \<and> frames s' = frames s"
    and release_taken: "ok s \<Longrightarrow> f \<in> taken s \<Longrightarrow> f \<noteq> 0 \<Longrightarrow>
          ok (release f s) \<and> taken (release f s) = taken s - {f} \<and> frames (release f s) = frames s"
    and release_other: "f \<notin> taken s \<Longrightarrow> release f s = s"
begin

text \<open>A released frame can be released again without harm.\<close>

lemma release_twice:
  assumes "ok s" "f \<noteq> 0"
  shows "release f (release f s) = release f s"
  using assms release_taken [of s f] release_other [of f] by (cases "f \<in> taken s") auto

lemma alloc_release:
  assumes "ok s" "alloc s = (f, s')" "f \<noteq> 0"
  shows "ok (release f s') \<and> taken (release f s') = taken s"
  using alloc_got [OF assms] release_taken [of s' f] assms(3) by auto

lemma alloc_two:
  assumes "ok s" "alloc s = (f, s')" "f \<noteq> 0" "alloc s' = (g, s'')" "g \<noteq> 0"
  shows "f \<noteq> g" "taken s'' = {f, g} \<union> taken s"
  using alloc_got [OF assms(1-3)] alloc_got [of s' g s''] assms(4,5) by auto

end

interpretation fp: frame_pool alloc_frame free_frame frame_pool_ok frames_used
  "\<lambda>s. {f. f < total_frames s}"
proof unfold_locales
  fix s s' :: paging and f :: u32
  show "s' = s \<and> frames_used s = {f. f < total_frames s}"
    if "frame_pool_ok s" "alloc_frame s = (0, s')"
    using that by (cases s rule: alloc_frame_cases) (auto simp: frame_pool_ok_def frames_used_def)
  show "frame_pool_ok s' \<and> f \<in> {f. f < total_frames s} - frames_used s \<and>
      frames_used s' = insert f (frames_used s) \<and>
      {f. f < total_frames s'} = {f. f < total_frames s}"
    if "frame_pool_ok s" "alloc_frame s = (f, s')" "f \<noteq> 0"
    using alloc_frame_got [OF that] by simp
  show "frame_pool_ok (free_frame f s) \<and> frames_used (free_frame f s) = frames_used s - {f} \<and>
      {f'. f' < total_frames (free_frame f s)} = {f'. f' < total_frames s}"
    if "frame_pool_ok s" "f \<in> frames_used s" "f \<noteq> 0"
    using free_frame_used [OF that(1,2)] that(3) by simp
  show "free_frame f s = s" if "f \<notin> frames_used s"
    using that by (rule free_frame_unused)
qed

subsection \<open>Pages\<close>

definition page_of :: "addr \<Rightarrow> u32" where
  "page_of a = drop_bit 12 a"

lemma unat_page_of: "unat (page_of a) = unat a div 4096"
  by (simp add: page_of_def unat_drop_bit_eq drop_bit_nat_def)

lemma page_of_less: "page_of a < 0x100000"
  using unat_u32_less [of a] by (simp add: word_less_nat_alt unat_page_of)

lemma frame_addr_page: "f < 0x100000 \<Longrightarrow> page_of (f * PAGE_SIZE) = f"
  by (simp add: word_unat_eq_iff unat_page_of PAGE_SIZE_def unat_word_ariths word_less_nat_alt)

definition page_aligned :: "addr \<Rightarrow> bool" where
  "page_aligned a \<longleftrightarrow> 4096 dvd unat a"

lemma frame_addr_aligned: "page_aligned (f * PAGE_SIZE)"
proof -
  have "unat (f * 4096) = unat f * 4096 mod (4096 * 1048576)" by (simp add: unat_word_ariths)
  then show ?thesis by (simp add: page_aligned_def PAGE_SIZE_def dvd_mod_iff)
qed

lemma page_base: "unat ((a :: addr) AND 0xFFFFF000) = unat a div 4096 * 4096"
proof -
  have "(0xFFFFF000 :: u32) = NOT (mask 12)" by (simp add: mask_eq_exp_minus_1)
  then show ?thesis using unat_and_not_mask_u32 [of a 12] by simp
qed

lemma page_base_aligned: "page_aligned (a AND 0xFFFFF000)"
  by (simp add: page_aligned_def page_base)

lemma page_of_base: "page_of (a AND 0xFFFFF000) = page_of a"
  by (simp add: word_unat_eq_iff unat_page_of page_base)

lemma page_base_eq_iff: "a AND 0xFFFFF000 = b AND 0xFFFFF000 \<longleftrightarrow> page_of a = page_of b"
  by (auto simp: word_unat_eq_iff unat_page_of page_base)

lemma unat_entry:
  assumes "page_aligned p" "i < 1024"
  shows "unat (p + 4 * i) = unat p + 4 * unat i"
proof -
  obtain k where k: "unat p = 4096 * k" using assms(1) by (auto simp: page_aligned_def)
  have i: "unat i < 1024" using assms(2) by (simp add: word_less_nat_alt)
  then have "unat (4 * i) = 4 * unat i" by (simp add: unat_word_ariths)
  moreover have "4096 * k + 4 * unat i < 2 ^ 32"
    using k i unat_u32_less [of p] by simp
  ultimately show ?thesis using k unat_plus_small [of p "4 * i"] by simp
qed

lemma entry_page:
  assumes "page_aligned p" "i < 1024"
  shows "page_of (p + 4 * i) = page_of p"
proof -
  obtain k where k: "unat p = 4096 * k" using assms(1) by (auto simp: page_aligned_def)
  have "4 * unat i < 4096" using assms(2) by (simp add: word_less_nat_alt)
  then show ?thesis by (simp add: word_unat_eq_iff unat_page_of unat_entry [OF assms] k)
qed

lemma entry_inj:
  assumes "page_aligned p" "i < 1024" "j < 1024" "p + 4 * i = p + 4 * j"
  shows "i = j"
  using unat_entry [OF assms(1,2)] unat_entry [OF assms(1,3)] assms(4)
  by (simp add: word_unat_eq_iff)

lemma in_page_iff:
  assumes "page_aligned p"
  shows "a - p < PAGE_SIZE \<longleftrightarrow> page_of a = page_of p"
proof
  obtain k where k: "unat p = 4096 * k" using assms by (auto simp: page_aligned_def)
  {
    assume "a - p < PAGE_SIZE"
    then have lt: "unat (a - p) < 4096" by (simp add: PAGE_SIZE_def word_less_nat_alt)
    moreover have "4096 * k + unat (a - p) < 2 ^ 32" using lt k unat_u32_less [of p] by simp
    ultimately have "unat a = 4096 * k + unat (a - p)"
      using unat_plus_small [of p "a - p"] k by simp
    then show "page_of a = page_of p" using lt by (simp add: word_unat_eq_iff unat_page_of k)
  next
    assume "page_of a = page_of p"
    then have "unat a div 4096 = k" by (simp add: word_unat_eq_iff unat_page_of k)
    then have "unat p \<le> unat a" "unat a - unat p < 4096" using k by auto
    then show "a - p < PAGE_SIZE"
      by (simp add: PAGE_SIZE_def word_less_nat_alt unat_minus_le word_le_nat_alt)
  }
qed

subsection \<open>What the page tables mean\<close>

text \<open>
  \<open>translate s v\<close> is the physical page the tables give for the virtual address \<open>v\<close>. The paging
  structures are well formed when the directory, the tables and the bitmap lie in different frames
  and the allocator has all of them marked as taken.
\<close>

definition pde :: "paging \<Rightarrow> u32 \<Rightarrow> u32" where
  "pde s i = mem s (kernel_page_dir s + 4 * i)"

definition present :: "u32 \<Rightarrow> bool" where
  "present w \<longleftrightarrow> w AND PAGE_PRESENT \<noteq> 0"

definition dir_idx :: "addr \<Rightarrow> u32" where "dir_idx v = drop_bit 22 v"
definition table_idx :: "addr \<Rightarrow> u32" where "table_idx v = drop_bit 12 v AND 0x3FF"

definition pte :: "paging \<Rightarrow> addr \<Rightarrow> u32" where
  "pte s v = mem s (table_cell (pde s (dir_idx v)) v)"

definition translate :: "paging \<Rightarrow> addr \<Rightarrow> u32 option" where
  "translate s v = (if present (pde s (dir_idx v)) \<and> present (pte s v)
     then Some (pte s v AND 0xFFFFF000) else None)"

definition bitmap_pages :: "paging \<Rightarrow> u32 set" where
  "bitmap_pages s = {page_of (bitmap_cell s f) | f. f < total_frames s}"

definition table_pages :: "paging \<Rightarrow> u32 set" where
  "table_pages s = {page_of (pde s i) | i. i < 1024 \<and> present (pde s i)}"

definition paging_ok :: "paging \<Rightarrow> bool" where
  "paging_ok s \<longleftrightarrow> frame_pool_ok s \<and> page_aligned (kernel_page_dir s) \<and>
     insert (page_of (kernel_page_dir s)) (bitmap_pages s \<union> table_pages s) \<subseteq> frames_used s \<and>
     page_of (kernel_page_dir s) \<notin> bitmap_pages s \<union> table_pages s \<and>
     bitmap_pages s \<inter> table_pages s = {} \<and>
     (\<forall>i j. i < 1024 \<longrightarrow> j < 1024 \<longrightarrow> present (pde s i) \<longrightarrow> present (pde s j) \<longrightarrow>
        page_of (pde s i) = page_of (pde s j) \<longrightarrow> i = j)"

lemma dir_idx_less: "dir_idx v < 1024"
  using unat_u32_less [of v]
  by (simp add: dir_idx_def word_less_nat_alt unat_drop_bit_eq drop_bit_nat_def)

lemma unat_table_idx: "unat (table_idx v) = unat v div 4096 mod 1024"
proof -
  have "(0x3FF :: u32) = mask 10" by (simp add: mask_eq_exp_minus_1)
  then have "table_idx v = take_bit 10 (drop_bit 12 v)" by (simp add: table_idx_def take_bit_eq_mask)
  then show ?thesis
    by (simp add: unsigned_take_bit_eq unat_drop_bit_eq drop_bit_nat_def take_bit_nat_def)
qed

lemma table_idx_less: "table_idx v < 1024"
  by (simp add: word_less_nat_alt unat_table_idx)

lemma idx_page:
  "dir_idx v = dir_idx w \<and> table_idx v = table_idx w \<longleftrightarrow> page_of v = page_of w"
proof -
  have d: "unat (dir_idx x) = unat x div 4096 div 1024" for x
    by (simp add: dir_idx_def unat_drop_bit_eq drop_bit_nat_def div_mult2_eq flip: div_mult2_eq)
  show ?thesis
    unfolding word_unat_eq_iff d unat_table_idx unat_page_of
    by (metis div_mult_mod_eq)
qed

lemma table_cell_page: "page_of (table_cell e v) = page_of e"
  using entry_page [OF page_base_aligned table_idx_less, of e v]
  by (simp add: table_cell_def table_idx_def page_of_base)

lemma table_cell_eq_iff:
  assumes "page_of e = page_of e'"
  shows "table_cell e v = table_cell e' w \<longleftrightarrow> table_idx v = table_idx w"
  using entry_inj [OF page_base_aligned table_idx_less table_idx_less, of e v w] assms
  by (auto simp: table_cell_def table_idx_def simp flip: page_base_eq_iff)

lemma dir_cell_page: "page_aligned (kernel_page_dir s) \<Longrightarrow> i < 1024 \<Longrightarrow>
    page_of (kernel_page_dir s + 4 * i) = page_of (kernel_page_dir s)"
  by (rule entry_page)

lemma get_physical_addr_translate:
  "get_physical_addr v s = (case translate s v of None \<Rightarrow> 0 | Some p \<Rightarrow> p + (v AND 0xFFF))"
  by (simp add: get_physical_addr_def translate_def present_def pte_def pde_def dir_cell_def
      dir_idx_def Let_def)

lemma frames_used_cong:
  assumes "total_frames s' = total_frames s" "frame_bitmap s' = frame_bitmap s"
    and "\<forall>a. page_of a \<in> bitmap_pages s \<longrightarrow> mem s' a = mem s a"
  shows "frames_used s' = frames_used s"
proof -
  have "frame_used s' f = frame_used s f" if "f < total_frames s" for f
    using that assms by (intro frame_used_cong) (auto simp: bitmap_pages_def)
  then show ?thesis using assms(1) by (auto simp: frames_used_def)
qed

lemma pde_cong:
  assumes "kernel_page_dir s' = kernel_page_dir s" "page_aligned (kernel_page_dir s)"
    and "\<forall>a. page_of a = page_of (kernel_page_dir s) \<longrightarrow> mem s' a = mem s a" "i < 1024"
  shows "pde s' i = pde s i"
  using assms dir_cell_page [of s i] by (simp add: pde_def)

lemma table_pages_cong:
  "(\<And>i. i < 1024 \<Longrightarrow> pde s' i = pde s i) \<Longrightarrow> table_pages s' = table_pages s"
  by (auto simp: table_pages_def) metis+

text \<open>Writes outside the directory and the bitmap keep the structures.\<close>

lemma same_structure:
  assumes ok: "paging_ok s"
    and eqs: "total_frames s' = total_frames s" "used_frames s' = used_frames s"
      "frame_bitmap s' = frame_bitmap s" "kernel_page_dir s' = kernel_page_dir s"
    and mem: "\<forall>a. page_of a = page_of (kernel_page_dir s) \<or> page_of a \<in> bitmap_pages s \<longrightarrow>
      mem s' a = mem s a"
  shows "paging_ok s'" "frames_used s' = frames_used s" "i < 1024 \<Longrightarrow> pde s' i = pde s i"
    and "table_pages s' = table_pages s" "bitmap_pages s' = bitmap_pages s"
proof -
  show u: "frames_used s' = frames_used s" using eqs mem by (intro frames_used_cong) auto
  have p: "pde s' i = pde s i" if "i < 1024" for i
    using eqs mem ok that by (intro pde_cong) (auto simp: paging_ok_def)
  then show t: "table_pages s' = table_pages s" by (rule table_pages_cong)
  show "pde s' i = pde s i" if "i < 1024" by (rule p [OF that])
  show b: "bitmap_pages s' = bitmap_pages s" by (simp add: bitmap_pages_def bitmap_cell_def eqs)
  show "paging_ok s'" using ok p by (simp add: paging_ok_def frame_pool_ok_def u t b eqs)
qed

lemma table_page_in: "i < 1024 \<Longrightarrow> present (pde s i) \<Longrightarrow> page_of (pde s i) \<in> table_pages s"
  by (auto simp: table_pages_def)

text \<open>Writing one page table entry changes the translation of exactly its page.\<close>

lemma write_pte:
  assumes ok: "paging_ok s" and pr: "present (pde s (dir_idx v))"
    and s'_def: "s' = store (table_cell (pde s (dir_idx v)) v) w s"
  shows "paging_ok s'" "frames_used s' = frames_used s" "table_pages s' = table_pages s"
    and "translate s' = (\<lambda>x. if page_of x = page_of v
            then if present w then Some (w AND 0xFFFFF000) else None else translate s x)"
proof -
  let ?t = "page_of (pde s (dir_idx v))"
  have t: "?t \<in> table_pages s" using table_page_in [OF dir_idx_less pr] .
  have mem: "\<forall>a. page_of a = page_of (kernel_page_dir s) \<or> page_of a \<in> bitmap_pages s \<longrightarrow>
      mem s' a = mem s a"
    using ok t by (auto simp: s'_def table_cell_page paging_ok_def)
  note same = same_structure [OF ok _ _ _ _ mem, unfolded s'_def, simplified, folded s'_def]
  show "paging_ok s'" "frames_used s' = frames_used s" "table_pages s' = table_pages s"
    by (fact same)+
  have p: "pde s' (dir_idx x) = pde s (dir_idx x)" for x by (rule same(3) [OF dir_idx_less])
  have inj: "dir_idx x = dir_idx v" if "present (pde s (dir_idx x))" "page_of (pde s (dir_idx x)) = ?t" for x
    using ok that pr dir_idx_less unfolding paging_ok_def by blast
  have "pte s' x = (if page_of x = page_of v then w else pte s x)" if "present (pde s (dir_idx x))" for x
  proof (cases "dir_idx x = dir_idx v")
    case True
    then show ?thesis
      using idx_page [of x v] by (auto simp: pte_def p) (auto simp: s'_def table_cell_eq_iff)
  next
    case False
    then have "table_cell (pde s (dir_idx x)) x \<noteq> table_cell (pde s (dir_idx v)) v"
      using inj [OF that] table_cell_page by metis
    with False show ?thesis using idx_page [of x v] by (auto simp: pte_def p) (simp add: s'_def)
  qed
  moreover have "present (pde s (dir_idx x))" if "page_of x = page_of v" for x
    using pr that idx_page [of x v] by auto
  ultimately show "translate s' = (\<lambda>x. if page_of x = page_of v
            then if present w then Some (w AND 0xFFFFF000) else None else translate s x)"
    by (auto simp: translate_def p fun_eq_iff split: if_splits)
qed

lemma present_entry: "present (a OR PAGE_PRESENT OR b)" "present (a OR b OR PAGE_PRESENT)"
  by (auto simp: present_def PAGE_PRESENT_def bit_eq_iff bit_simps intro!: exI [of _ 0])

lemma entry_base:
  assumes "fl < 0x1000"
  shows "((a AND 0xFFFFF000) OR fl OR PAGE_PRESENT) AND 0xFFFFF000 = (a :: u32) AND 0xFFFFF000"
proof -
  have f: "fl = take_bit 12 fl"
    using assms by (simp add: word_unat_eq_iff unsigned_take_bit_eq word_less_nat_alt
        take_bit_nat_eq_self)
  have c: "(0xFFFFF000 :: u32) = NOT (mask 12)" by (simp add: mask_eq_exp_minus_1)
  show ?thesis
    unfolding c PAGE_PRESENT_def by (subst f) (rule bit_word_eqI, auto simp: bit_simps)
qed

text \<open>Linking a fresh, zeroed page table keeps the translation.\<close>

lemma new_table:
  assumes ok: "paging_ok s" and al: "alloc_frame s = (f, s1)" "f \<noteq> 0"
    and np: "\<not> present (pde s d)" and d: "d < 1024"
    and w: "present w" "page_of w = f"
    and s'_def: "s' = store (kernel_page_dir s + 4 * d) w (memzero (f * PAGE_SIZE) PAGE_SIZE s1)"
  shows "paging_ok s'" "pde s' d = w" "translate s' = translate s"
    and "frames_used s' = insert f (frames_used s)" "table_pages s' = insert f (table_pages s)"
proof -
  have pool: "frame_pool_ok s" and da: "page_aligned (kernel_page_dir s)"
    using ok by (auto simp: paging_ok_def)
  note got = alloc_frame_got [OF pool al]
  let ?D = "page_of (kernel_page_dir s)"
  have f: "page_of (f * PAGE_SIZE) = f"
    using got(2) pool by (intro frame_addr_page) (auto simp: frame_pool_ok_def)
  have fresh: "f \<noteq> ?D" "f \<notin> bitmap_pages s" "f \<notin> table_pages s" and dd: "?D \<notin> bitmap_pages s"
    and tb: "bitmap_pages s \<inter> table_pages s = {}" and td: "?D \<notin> table_pages s"
    using ok got(1) by (auto simp: paging_ok_def)
  have cell: "page_of (bitmap_cell s f) \<in> bitmap_pages s" using got(2) by (auto simp: bitmap_pages_def)
  have m: "mem s' a = (if a = kernel_page_dir s + 4 * d then w else if page_of a = f then 0
      else if a = bitmap_cell s f then mem s a OR bit_mask f else mem s a)" for a
    by (simp add: s'_def got(3) set_frame_bit_def in_page_iff [OF frame_addr_aligned] f)
  have eqs: "total_frames s' = total_frames s" "frame_bitmap s' = frame_bitmap s"
      "kernel_page_dir s' = kernel_page_dir s" "used_frames s' = used_frames s1"
    by (simp_all add: s'_def got(3))
  have cd: "page_of (kernel_page_dir s + 4 * d) = ?D" using dir_cell_page [OF da d] .
  have p: "pde s' i = (if i = d then w else pde s i)" if "i < 1024" for i
    using that entry_inj [OF da that d] dir_cell_page [OF da that] fresh(1) cell dd
    by (auto simp: pde_def eqs m)
  then show "pde s' d = w" using d by simp
  show u: "frames_used s' = insert f (frames_used s)"
    unfolding got(4) [symmetric]
    by (rule frames_used_cong)
      (use cd dd fresh(2) in \<open>auto simp: eqs got(3) m bitmap_pages_def set_frame_bit_def\<close>)
  have b: "bitmap_pages s' = bitmap_pages s" by (simp add: bitmap_pages_def bitmap_cell_def eqs)
  show t: "table_pages s' = insert f (table_pages s)"
  proof -
    have "{i. i < 1024 \<and> present (pde s' i)} = insert d {i. i < 1024 \<and> present (pde s i)}"
      using d w(1) by (auto simp: p)
    then show ?thesis
      using d w(2) np by (auto simp: table_pages_def setcompr_eq_image p image_iff)
  qed
  have pool': "frame_pool_ok s'" using got(5) u got(4) by (simp add: frame_pool_ok_def eqs got(3))
  have inj: "i = j" if "i < 1024" "j < 1024" "present (pde s' i)" "present (pde s' j)"
      "page_of (pde s' i) = page_of (pde s' j)" for i j
  proof -
    have inj0: "i = j" if "i \<noteq> d" "j \<noteq> d"
      using that \<open>i < 1024\<close> \<open>j < 1024\<close> \<open>present (pde s' i)\<close> \<open>present (pde s' j)\<close>
        \<open>page_of (pde s' i) = page_of (pde s' j)\<close> ok unfolding paging_ok_def by (simp add: p)
    have "page_of (pde s' k) \<noteq> f" if "k < 1024" "present (pde s' k)" "k \<noteq> d" for k
      using that fresh(3) table_page_in [of k s] by (auto simp: p)
    then show ?thesis using inj0 that w(2) d p by metis
  qed
  show "paging_ok s'"
    unfolding paging_ok_def b t u eqs using ok pool' fresh inj by (auto simp: paging_ok_def)
  show "translate s' = translate s"
  proof
    fix v
    show "translate s' v = translate s v"
    proof (cases "dir_idx v = d")
      case True
      have "page_of (table_cell w v) = f" by (simp add: table_cell_page w)
      then have "pte s' v = 0"
        using True d fresh(1) cd by (auto simp: pte_def p m)
      then show ?thesis using True np by (simp add: translate_def present_def)
    next
      case False
      have "pte s' v = pte s v" if "present (pde s (dir_idx v))"
        using that False table_page_in [OF dir_idx_less that] fresh td cd cell tb
          table_cell_page [of "pde s (dir_idx v)" v]
        by (auto simp: pte_def p [OF dir_idx_less] m)
      then show ?thesis using False by (auto simp: translate_def p [OF dir_idx_less])
    qed
  qed
qed

subsection \<open>Mapping and unmapping a page\<close>

lemma map_page_present:
  assumes "present (pde s (dir_idx v))"
  shows "map_page v p fl s = store (table_cell (pde s (dir_idx v)) v)
    ((p AND 0xFFFFF000) OR fl OR PAGE_PRESENT) s"
  using assms by (simp add: map_page_def present_def pde_def dir_cell_def dir_idx_def Let_def)

lemma map_page_full:
  assumes "frame_pool_ok s" "\<not> present (pde s (dir_idx v))" "frames_used s = {f. f < total_frames s}"
  shows "map_page v p fl s = s"
proof -
  have "alloc_frame s = (0, s)"
    using assms(3) by (cases s rule: alloc_frame_cases) (auto simp: frames_used_def)
  then show ?thesis
    using assms(2)
    by (simp add: map_page_def create_page_table_def present_def pde_def dir_cell_def dir_idx_def)
qed

lemma map_page_new:
  assumes "paging_ok s" "\<not> present (pde s (dir_idx v))" "frames_used s \<noteq> {f. f < total_frames s}"
    and fl: "fl < 0x1000"
  obtains f t where "paging_ok t" "translate t = translate s" "present (pde t (dir_idx v))"
    "f \<in> {f. f < total_frames s} - frames_used s" "frames_used t = insert f (frames_used s)"
    "table_pages t = insert f (table_pages s)" "map_page v p fl s = map_page v p fl t"
proof -
  have pool: "frame_pool_ok s" using assms(1) by (simp add: paging_ok_def)
  obtain f s1 where al: "alloc_frame s = (f, s1)" by (cases "alloc_frame s")
  have f0: "f \<noteq> 0" using fp.alloc_zero [OF pool] al assms(3) by auto
  note got = alloc_frame_got [OF pool al f0]
  let ?a = "f * PAGE_SIZE"
  define w where "w = (?a AND 0xFFFFF000) OR PAGE_PRESENT OR fl"
  define t where "t = store (kernel_page_dir s + 4 * dir_idx v) w (memzero ?a PAGE_SIZE s1)"
  have fl20: "f < 0x100000" using got(2) pool by (auto simp: frame_pool_ok_def)
  have w: "present w" by (simp add: w_def present_entry)
  have "w AND 0xFFFFF000 = ?a AND 0xFFFFF000"
    using entry_base [OF fl, of ?a] by (simp add: w_def or.commute or.left_commute)
  then have wp: "page_of w = f" using frame_addr_page [OF fl20] by (simp add: page_base_eq_iff)
  note nt = new_table [OF assms(1) al f0 assms(2) dir_idx_less w wp t_def]
  have "?a \<noteq> NULL" using frame_addr_page [OF fl20] f0 by (auto simp: page_of_def)
  then have "map_page v p fl s = map_page v p fl t"
    using assms(2) w nt(2) al got(3) f0
    by (simp add: map_page_present [of t])
      (simp add: map_page_def create_page_table_def present_def pde_def dir_cell_def dir_idx_def
        Let_def t_def w_def)
  then show thesis using that [of t f] nt w got(1,2) by simp
qed

lemma map_page_translate:
  assumes ok: "paging_ok s" and fl: "fl < 0x1000"
    and room: "present (pde s (dir_idx v)) \<or> frames_used s \<noteq> {f. f < total_frames s}"
  shows "paging_ok (map_page v p fl s)"
    and "translate (map_page v p fl s) =
      (\<lambda>x. if page_of x = page_of v then Some (p AND 0xFFFFF000) else translate s x)"
    and "frames_used s \<subseteq> frames_used (map_page v p fl s)"
    and "table_pages (map_page v p fl s) - table_pages s \<subseteq> - frames_used s"
proof -
  obtain t where t: "paging_ok t" "translate t = translate s" "present (pde t (dir_idx v))"
    "frames_used s \<subseteq> frames_used t" "table_pages t - table_pages s \<subseteq> - frames_used s"
    "map_page v p fl s = map_page v p fl t"
  proof (cases "present (pde s (dir_idx v))")
    case True
    then show thesis using that [of s] ok by simp
  next
    case False
    with room have "frames_used s \<noteq> {f. f < total_frames s}" by simp
    from ok False this fl show thesis
      by (rule map_page_new [where p = p]) (rule that, auto)
  qed
  note wr = write_pte [OF t(1,3) map_page_present [OF t(3), of p fl]]
  show "paging_ok (map_page v p fl s)" "frames_used s \<subseteq> frames_used (map_page v p fl s)"
    "table_pages (map_page v p fl s) - table_pages s \<subseteq> - frames_used s"
    using wr(1-3) t by simp_all
  show "translate (map_page v p fl s) =
      (\<lambda>x. if page_of x = page_of v then Some (p AND 0xFFFFF000) else translate s x)"
    using wr(4) t(2,6) by (auto simp: present_entry entry_base [OF fl])
qed

lemma unmap_page_none: "translate s v = None \<Longrightarrow> unmap_page v s = s"
  by (auto simp: unmap_page_def translate_def present_def pde_def pte_def dir_cell_def dir_idx_def
      Let_def split: if_splits)

lemma page_base_div: "(a AND 0xFFFFF000) div PAGE_SIZE = page_of a"
  by (simp add: word_unat_eq_iff unat_div_distrib PAGE_SIZE_def page_base unat_page_of)

lemma free_frame_fields [simp]:
  "total_frames (free_frame f s) = total_frames s" "frame_bitmap (free_frame f s) = frame_bitmap s"
  "kernel_page_dir (free_frame f s) = kernel_page_dir s" "cr0 (free_frame f s) = cr0 s"
  by (simp_all add: free_frame_def)

lemma free_frame_mem:
  assumes "page_of a \<notin> bitmap_pages s"
  shows "mem (free_frame f s) a = mem s a"
  using assms by (auto simp: free_frame_def clear_frame_bit_def bitmap_pages_def not_le)

text \<open>Taking a frame, or releasing one that holds no paging structure, keeps the structures.\<close>

lemma pool_change:
  assumes ok: "paging_ok s" and pool: "frame_pool_ok s'"
    and eqs: "total_frames s' = total_frames s" "frame_bitmap s' = frame_bitmap s"
      "kernel_page_dir s' = kernel_page_dir s"
    and mem: "\<And>a. page_of a \<notin> bitmap_pages s \<Longrightarrow> mem s' a = mem s a"
    and kept: "insert (page_of (kernel_page_dir s)) (bitmap_pages s \<union> table_pages s) \<subseteq> frames_used s'"
  shows "paging_ok s'" "translate s' = translate s" "\<And>i. i < 1024 \<Longrightarrow> pde s' i = pde s i"
    and "table_pages s' = table_pages s" "bitmap_pages s' = bitmap_pages s"
proof -
  have p: "pde s' i = pde s i" if "i < 1024" for i
    using ok that eqs by (intro pde_cong) (auto simp: paging_ok_def intro!: mem)
  then show "\<And>i. i < 1024 \<Longrightarrow> pde s' i = pde s i" .
  show t: "table_pages s' = table_pages s" using p by (rule table_pages_cong)
  show b: "bitmap_pages s' = bitmap_pages s" by (simp add: bitmap_pages_def bitmap_cell_def eqs)
  show "paging_ok s'"
    using ok pool p kept unfolding paging_ok_def t b eqs by auto
  have "pte s' v = pte s v" if "present (pde s (dir_idx v))" for v
    using table_page_in [OF dir_idx_less that] ok
    by (auto simp: pte_def p [OF dir_idx_less] paging_ok_def table_cell_page intro!: mem)
  then show "translate s' = translate s"
    by (auto simp: translate_def p [OF dir_idx_less] fun_eq_iff)
qed

lemma free_frame_structure:
  assumes ok: "paging_ok s" and f: "f \<noteq> 0" "f \<notin> insert (page_of (kernel_page_dir s)) (bitmap_pages s \<union> table_pages s)"
  defines "s' \<equiv> free_frame f s"
  shows "paging_ok s'" "translate s' = translate s" "\<And>i. i < 1024 \<Longrightarrow> pde s' i = pde s i"
    and "table_pages s' = table_pages s" "frames_used s' = frames_used s - {f}"
proof -
  have pool: "frame_pool_ok s" using ok by (simp add: paging_ok_def)
  show u: "frames_used s' = frames_used s - {f}"
    using free_frame_used [OF pool] free_frame_unused [of f s]
    by (cases "f \<in> frames_used s") (simp_all add: s'_def)
  have pool': "frame_pool_ok s'"
    using free_frame_used [OF pool] free_frame_unused [of f s] f(1) pool
    by (cases "f \<in> frames_used s") (simp_all add: s'_def)
  have kept: "insert (page_of (kernel_page_dir s)) (bitmap_pages s \<union> table_pages s) \<subseteq> frames_used s'"
    using ok f(2) u by (auto simp: paging_ok_def)
  note pc = pool_change [OF ok pool' _ _ _ _ kept, unfolded s'_def, simplified free_frame_fields, folded s'_def]
  show "paging_ok s'" "translate s' = translate s" "\<And>i. i < 1024 \<Longrightarrow> pde s' i = pde s i"
    "table_pages s' = table_pages s"
    using pc free_frame_mem [of _ s f] unfolding s'_def by blast+
qed

lemma alloc_frame_structure:
  assumes ok: "paging_ok s" and al: "alloc_frame s = (f, s')" "f \<noteq> 0"
  shows "paging_ok s'" "translate s' = translate s" "table_pages s' = table_pages s"
    and "bitmap_pages s' = bitmap_pages s"
proof -
  have pool: "frame_pool_ok s" using ok by (simp add: paging_ok_def)
  note got = alloc_frame_got [OF pool al]
  have m: "mem s' a = mem s a" if "page_of a \<notin> bitmap_pages s" for a
    using that got(2) by (auto simp: got(3) set_frame_bit_def bitmap_pages_def)
  have kept: "insert (page_of (kernel_page_dir s)) (bitmap_pages s \<union> table_pages s) \<subseteq> frames_used s'"
    using ok got(4) by (auto simp: paging_ok_def)
  have eqs: "total_frames s' = total_frames s" "frame_bitmap s' = frame_bitmap s"
    "kernel_page_dir s' = kernel_page_dir s" by (simp_all add: got(3))
  show "paging_ok s'" "translate s' = translate s" "table_pages s' = table_pages s"
    "bitmap_pages s' = bitmap_pages s"
    using pool_change [OF ok got(5) eqs m kept] by blast+
qed

lemma map_page_fields [simp]:
  "total_frames (map_page v p fl s) = total_frames s" "frame_bitmap (map_page v p fl s) = frame_bitmap s"
  "kernel_page_dir (map_page v p fl s) = kernel_page_dir s"
  by (cases s rule: alloc_frame_cases; simp add: map_page_def create_page_table_def Let_def)+

lemma map_page_bitmap [simp]: "bitmap_pages (map_page v p fl s) = bitmap_pages s"
  by (simp add: bitmap_pages_def bitmap_cell_def)

lemma unmap_page_translate:
  assumes ok: "paging_ok s" and tr: "translate s v = Some p" and p0: "page_of p \<noteq> 0"
    and np: "page_of p \<notin> insert (page_of (kernel_page_dir s)) (bitmap_pages s \<union> table_pages s)"
  shows "paging_ok (unmap_page v s)" "frames_used (unmap_page v s) = frames_used s - {page_of p}"
    and "translate (unmap_page v s) = (\<lambda>x. if page_of x = page_of v then None else translate s x)"
    and "table_pages (unmap_page v s) = table_pages s"
proof -
  have pr: "present (pde s (dir_idx v))" "present (pte s v)" and p: "p = pte s v AND 0xFFFFF000"
    using tr by (auto simp: translate_def split: if_splits)
  note fr = free_frame_structure [OF ok p0 np]
  have e: "unmap_page v s = store (table_cell (pde (free_frame (page_of p) s) (dir_idx v)) v) 0
      (free_frame (page_of p) s)"
    using pr fr(3) [OF dir_idx_less, of v]
    by (simp add: unmap_page_def present_def pte_def pde_def dir_cell_def dir_idx_def Let_def p
        page_base_div page_of_base)
  have pr': "present (pde (free_frame (page_of p) s) (dir_idx v))"
    using pr(1) fr(3) [OF dir_idx_less] by simp
  note wr = write_pte [OF fr(1) pr' e]
  show "paging_ok (unmap_page v s)" "frames_used (unmap_page v s) = frames_used s - {page_of p}"
    "table_pages (unmap_page v s) = table_pages s"
    "translate (unmap_page v s) = (\<lambda>x. if page_of x = page_of v then None else translate s x)"
    using wr fr by (simp_all add: present_def fun_eq_iff)
qed

subsection \<open>Booting the allocator\<close>

lemma set_bits_fields [simp]:
  "total_frames (fold (\<lambda>i. set_frame_bit (of_nat i)) is s) = total_frames s"
  "used_frames (fold (\<lambda>i. set_frame_bit (of_nat i)) is s) = used_frames s"
  "frame_bitmap (fold (\<lambda>i. set_frame_bit (of_nat i)) is s) = frame_bitmap s"
  "kernel_page_dir (fold (\<lambda>i. set_frame_bit (of_nat i)) is s) = kernel_page_dir s"
  "cr0 (fold (\<lambda>i. set_frame_bit (of_nat i)) is s) = cr0 s"
  by (induction "is" arbitrary: s) simp_all

lemma frames_used_set_bits:
  assumes "total_frames s \<le> 0x100000" "n \<le> unat (total_frames s)"
  shows "frames_used (fold (\<lambda>i. set_frame_bit (of_nat i)) [0..<n] s) =
    frames_used s \<union> of_nat ` {0..<n}"
  using assms(2)
proof (induction n)
  case (Suc n)
  have n: "n < 2 ^ 32" using Suc.prems unat_u32_less [of "total_frames s"] by linarith
  have "of_nat n < total_frames s"
    using Suc.prems n by (simp add: word_less_nat_alt unat_of_nat_small)
  then show ?case using Suc assms(1) by (simp add: frames_used_set atLeast0_lessThan_Suc)
qed simp

lemma memzero_frames_used:
  assumes "\<forall>f. f < total_frames s \<longrightarrow> bitmap_cell s f - p < n"
  shows "frames_used (memzero p n s) = {}"
  using assms by (auto simp: frames_used_def frame_used_def)

lemma bitmap_cell_offset:
  assumes "f < 32768"
  shows "bitmap_cell s f - frame_bitmap s < 4096"
proof -
  have "unat (4 * (f div 32)) = 4 * (unat f div 32)"
    using assms by (simp add: unat_word_ariths word_less_nat_alt)
  then show ?thesis using assms by (simp add: bitmap_cell_def word_less_nat_alt)
qed

lemma init_frame_allocator_simps:
  "total_frames (init_frame_allocator s) = 32768" "used_frames (init_frame_allocator s) = 256"
  "frame_bitmap (init_frame_allocator s) = 0x100000"
  "cr0 (init_frame_allocator s) = cr0 s"
  by (simp_all add: init_frame_allocator_def Let_def PAGE_SIZE_def)

lemma frames_used_init: "frames_used (init_frame_allocator s) = {f. f < 256}"
proof -
  let ?z = "memzero 0x100000 4096 (s\<lparr>total_frames := 32768, used_frames := 0, frame_bitmap := 0x100000\<rparr>)"
  have "frames_used ?z = {}"
    using bitmap_cell_offset [of _ "s\<lparr>total_frames := 32768, used_frames := 0, frame_bitmap := 0x100000\<rparr>"]
    by (intro memzero_frames_used) simp
  then have "frames_used (init_frame_allocator s) = of_nat ` {0..<256}"
    using frames_used_set_bits [of ?z 256] by (simp add: init_frame_allocator_def Let_def PAGE_SIZE_def)
  also have "\<dots> = {f. f < 256}"
    by (simp add: words_below)
  finally show ?thesis .
qed

lemma init_frame_allocator_ok: "frame_pool_ok (init_frame_allocator s)"
  by (simp add: frame_pool_ok_def init_frame_allocator_simps frames_used_init card_words_below)

text \<open>A small machine with 32 frames: the bitmap in frame 1, the page directory in frame 2.\<close>

definition small_machine :: paging where
  "small_machine = \<lparr>total_frames = 32, used_frames = 3, frame_bitmap = 0x1000,
     kernel_page_dir = 0x2000, cr0 = 0, mem = (\<lambda>_. 0)(0x1000 := 7)\<rparr>"

lemma bit_7: "bit (7 :: u32) n \<longleftrightarrow> n < 3"
proof -
  have m: "(7 :: u32) = mask 3" by (simp add: mask_eq_exp_minus_1)
  show ?thesis unfolding m bit_mask_iff by auto
qed

lemma div_mod_below_32: "(f :: u32) < 32 \<Longrightarrow> f div 32 = 0" "(f :: u32) < 32 \<Longrightarrow> f mod 32 = f"
  by (simp_all add: word_unat_eq_iff unat_div_distrib unat_mod_distrib word_less_nat_alt)

lemma small_machine_total: "total_frames small_machine = 32"
  by (simp add: small_machine_def)

lemma small_machine_used: "frames_used small_machine = {f. f < 3}"
proof -
  have "frame_used small_machine f \<longleftrightarrow> f < 3" if "f < 32" for f
  proof -
    have "mem small_machine (bitmap_cell small_machine f) = 7"
      using that by (simp add: small_machine_def bitmap_cell_def div_mod_below_32)
    then show ?thesis
      using that by (simp only: frame_used_bit bit_7 div_mod_below_32) (simp add: word_less_nat_alt)
  qed
  moreover have "f < 32" if "f < 3" for f :: u32 using less_trans [OF that, of 32] by simp
  ultimately show ?thesis unfolding frames_used_def by (auto simp: small_machine_total)
qed

lemma small_machine_room: "frames_used small_machine \<noteq> {f. f < total_frames small_machine}"
proof -
  have "card {f :: u32. f < 3} \<noteq> card {f :: u32. f < 32}" by (simp add: card_words_below)
  then show ?thesis by (metis small_machine_used small_machine_total)
qed

lemma small_machine_pde: "i < 1024 \<Longrightarrow> pde small_machine i = 0"
proof -
  assume "i < 1024"
  then have "page_of (0x2000 + 4 * i) = page_of 0x2000" by (intro entry_page) (simp_all add: page_aligned_def)
  moreover have "page_of 0x2000 \<noteq> page_of 0x1000" by (simp add: page_of_def)
  ultimately have "0x2000 + 4 * i \<noteq> 0x1000" by metis
  then show ?thesis by (simp add: pde_def small_machine_def)
qed

lemma small_machine_ok: "paging_ok small_machine"
proof -
  have "bitmap_cell small_machine f = 0x1000" if "f < 32" for f
    using that by (simp add: bitmap_cell_def small_machine_def div_mod_below_32)
  then have "bitmap_pages small_machine \<subseteq> {1}"
    by (auto simp: bitmap_pages_def) (auto simp: small_machine_def page_of_def)
  moreover have "table_pages small_machine = {}"
    by (auto simp: table_pages_def small_machine_pde present_def)
  moreover have "frame_pool_ok small_machine"
    by (simp add: frame_pool_ok_def small_machine_used card_words_below) (simp add: small_machine_def)
  moreover have "kernel_page_dir small_machine = 0x2000" by (simp add: small_machine_def)
  ultimately show ?thesis
    by (auto simp: paging_ok_def small_machine_used small_machine_pde present_def page_aligned_def page_of_def)
qed

subsection \<open>Properties\<close>

text \<open>\<open>alloc_frame\<close> returns 0 and changes nothing exactly when all frames are taken. Otherwise it
  returns the least free frame, which is not 0, marks that frame and no other, and keeps the
  count of taken frames right.\<close>

theorem alloc_frame_least:
  assumes "frame_pool_ok s"
  shows "(frames_used s = {f. f < total_frames s} \<and> alloc_frame s = (0, s)) \<or>
    (\<exists>f s'. alloc_frame s = (f, s') \<and> f \<noteq> 0 \<and> f < total_frames s \<and> f \<notin> frames_used s \<and>
       {j. j < f} \<subseteq> frames_used s \<and> frames_used s' = insert f (frames_used s) \<and>
       used_frames s' = of_nat (card (frames_used s')) \<and> frame_pool_ok s')"
proof (cases s rule: alloc_frame_cases)
  case full
  then show ?thesis by (auto simp: frames_used_def)
next
  case (got f)
  have "f \<noteq> 0" using got(2) assms by (auto simp: frame_pool_ok_def frames_used_def)
  moreover have "{j. j < f} \<subseteq> frames_used s" using got(1,3) by (auto simp: frames_used_def)
  moreover note g = alloc_frame_got [OF assms got(4) \<open>f \<noteq> 0\<close>]
  ultimately show ?thesis using got(4) g(5) [unfolded frame_pool_ok_def] by blast
qed

theorem alloc_frame_least_witness:
  "frame_pool_ok small_machine \<and> fst (alloc_frame small_machine) = 3"
proof -
  have ok: "frame_pool_ok small_machine" using small_machine_ok by (simp add: paging_ok_def)
  obtain f s' where f: "alloc_frame small_machine = (f, s')" "f \<notin> {f. f < 3}" "{j. j < f} \<subseteq> {f. f < 3}"
    using alloc_frame_least [OF ok] small_machine_room small_machine_used by metis
  have "\<not> 3 < f" using f(3) by blast
  moreover have "\<not> f < 3" using f(2) by blast
  ultimately have "f = 3" by (simp add: order_antisym_conv not_less)
  with f(1) ok show ?thesis by simp
qed

text \<open>Taking a frame and releasing it again restores the allocator exactly, bitmap and counter
  included; releasing it once more, or releasing any frame that is not taken, changes nothing.\<close>

theorem alloc_free_frame:
  assumes "frame_pool_ok s" "alloc_frame s = (f, s')" "f \<noteq> 0"
  shows "free_frame f s' = s \<and> free_frame f (free_frame f s') = s"
proof -
  note got = alloc_frame_got [OF assms]
  have "free_frame f s' = clear_frame_bit f s'\<lparr>used_frames := used_frames s\<rparr>"
    using free_frame_used(1) [OF got(5)] got(3,4) by simp
  also have "\<dots> = clear_frame_bit f (set_frame_bit f s)"
    using got(3) by (simp add: clear_frame_bit_def set_frame_bit_def store_def)
  also have "\<dots> = s" using got(1,2) by (intro clear_set_frame_bit) (simp add: frames_used_def)
  finally show ?thesis using free_frame_unused [OF got(1)] by simp
qed

theorem alloc_free_frame_witness:
  "fst (alloc_frame small_machine) \<noteq> 0 \<and>
   free_frame (fst (alloc_frame small_machine)) (snd (alloc_frame small_machine)) = small_machine"
proof -
  have ok: "frame_pool_ok small_machine" using small_machine_ok by (simp add: paging_ok_def)
  have "fst (alloc_frame small_machine) \<noteq> 0"
    using fp.alloc_zero [OF ok] small_machine_room by (metis prod.collapse)
  then show ?thesis
    using alloc_free_frame [OF ok, of "fst (alloc_frame small_machine)" "snd (alloc_frame small_machine)"] by simp
qed

text \<open>C30: \<open>map_page\<close> updates the address space at exactly one page. With flags that fit the low 12
  bits, it makes the page of \<open>virtual_addr\<close> translate to the page of \<open>physical_addr\<close>, leaves every
  other page as it was (a new page table included), and keeps the paging structures well formed;
  \<open>get_physical_addr\<close> then gives the physical page plus the offset. It does nothing only
  when the page table is missing and no frame is left for it.\<close>

theorem map_page_refines:
  assumes "paging_ok s" "fl < 0x1000"
  shows "(\<not> present (pde s (dir_idx v)) \<and> frames_used s = {f. f < total_frames s} \<and>
           map_page v p fl s = s) \<or>
    (paging_ok (map_page v p fl s) \<and>
     translate (map_page v p fl s) =
       (\<lambda>x. if page_of x = page_of v then Some (p AND 0xFFFFF000) else translate s x) \<and>
     get_physical_addr v (map_page v p fl s) = (p AND 0xFFFFF000) + (v AND 0xFFF))"
proof (cases "present (pde s (dir_idx v)) \<or> frames_used s \<noteq> {f. f < total_frames s}")
  case True
  note mp = map_page_translate [OF assms True, of p]
  then show ?thesis by (simp add: get_physical_addr_translate mp(2))
next
  case False
  then show ?thesis using map_page_full [of s v p fl] assms(1) by (simp add: paging_ok_def)
qed

theorem map_page_refines_witness:
  "paging_ok small_machine \<and>
   get_physical_addr 0x400123 (map_page 0x400000 0x7000 2 small_machine) = 0x7123"
proof -
  have "translate (map_page 0x400000 0x7000 2 small_machine) 0x400123 = Some 0x7000"
    using map_page_refines [OF small_machine_ok, of 2 "0x400000" "0x7000"] small_machine_room
    by (simp add: page_of_def)
  then show ?thesis using small_machine_ok by (simp add: get_physical_addr_translate)
qed

text \<open>C31: \<open>unmap_page\<close> undoes \<open>map_page\<close>. For a page whose frame was taken for it (not frame 0 and not
  a frame of the paging structures), unmapping removes exactly that page from the address space
  and releases exactly its frame; unmapping it again changes nothing.\<close>

theorem unmap_page_refines:
  assumes "paging_ok s" "translate s v = Some p"
    and "page_of p \<notin> {0, page_of (kernel_page_dir s)} \<union> bitmap_pages s \<union> table_pages s"
  shows "paging_ok (unmap_page v s) \<and>
    translate (unmap_page v s) = (\<lambda>x. if page_of x = page_of v then None else translate s x) \<and>
    frames_used (unmap_page v s) = frames_used s - {page_of p} \<and>
    get_physical_addr v (unmap_page v s) = 0 \<and>
    unmap_page v (unmap_page v s) = unmap_page v s"
proof -
  have n: "page_of p \<noteq> 0" "page_of p \<notin> insert (page_of (kernel_page_dir s)) (bitmap_pages s \<union> table_pages s)"
    using assms(3) by auto
  note un = unmap_page_translate [OF assms(1,2) n]
  have "translate (unmap_page v s) v = None" by (simp add: un(3))
  then show ?thesis
    using un unmap_page_none [of "unmap_page v s" v] by (simp add: get_physical_addr_translate)
qed

theorem unmap_page_refines_witness:
  "\<exists>f s. alloc_frame small_machine = (f, s) \<and>
     get_physical_addr 0x400000 (map_page 0x400000 (f * PAGE_SIZE) 2 s) = f * PAGE_SIZE \<and>
     get_physical_addr 0x400000 (unmap_page 0x400000 (map_page 0x400000 (f * PAGE_SIZE) 2 s)) = 0"
proof -
  obtain f s where al: "alloc_frame small_machine = (f, s)" by fastforce
  have pool: "frame_pool_ok small_machine" using small_machine_ok by (simp add: paging_ok_def)
  have f0: "f \<noteq> 0" using fp.alloc_zero [OF pool] al small_machine_room by metis
  note got = alloc_frame_got [OF pool al f0] and st = alloc_frame_structure [OF small_machine_ok al f0]
  let ?p = "f * PAGE_SIZE" and ?s = "map_page 0x400000 (f * PAGE_SIZE) 2 s"
  have "card (frames_used s) = 4" using got(1,4) card_words_below [of 3] by (simp add: small_machine_used)
  then have room: "frames_used s \<noteq> {f. f < total_frames s}"
    using card_words_below [of 32] got(3) small_machine_total by force
  note mp = map_page_translate [OF st(1), of 2 "0x400000" ?p, OF _ disjI2 [OF room]]
  have pf: "page_of ?p = f" using got(2) less_trans by (intro frame_addr_page) (fastforce simp: small_machine_total)
  have base: "?p AND 0xFFFFF000 = ?p"
    using frame_addr_aligned [of f] by (simp add: word_unat_eq_iff page_base page_aligned_def)
  have tr: "translate ?s 0x400000 = Some ?p" using mp(2) base by simp
  have "f \<notin> table_pages s" using st(3) got(1) small_machine_ok by (auto simp: paging_ok_def)
  then have "f \<notin> table_pages ?s" using mp(4) got(4) by auto
  moreover have "f \<noteq> page_of (kernel_page_dir small_machine)" "f \<notin> bitmap_pages small_machine"
    using got(1) small_machine_ok by (auto simp: paging_ok_def)
  moreover have "kernel_page_dir s = kernel_page_dir small_machine" using got(3) by simp
  ultimately have "get_physical_addr 0x400000 (unmap_page 0x400000 ?s) = 0"
    using unmap_page_refines [of ?s "0x400000" ?p] mp(1) tr f0 by (simp add: pf st(4))
  with tr al show ?thesis by (auto simp: get_physical_addr_translate)
qed

text \<open>C10: \<open>init_paging\<close> never enables paging, whatever the state it is called in. \<open>init_frame_allocator\<close> marks the frames below 1 MB
  as taken, but the bitmap itself is the first frame after them and stays free, so \<open>init_paging\<close>
  gets that frame for the page directory and clears the bitmap with it. The next \<open>alloc_frame\<close>
  returns frame 0, which \<open>create_page_table\<close> takes for a failure, and \<open>init_paging\<close> returns:
  CR0 is unchanged, only frame 0 is marked as taken, 258 frames are counted as taken.\<close>

theorem init_paging_gives_up:
  "cr0 (init_paging s) = cr0 s \<and> kernel_page_dir (init_paging s) = frame_bitmap (init_paging s) \<and>
   frames_used (init_paging s) = {0} \<and> used_frames (init_paging s) = 258"
proof -
  let ?i = "init_frame_allocator s"
  let ?a = "(set_frame_bit 256 ?i)\<lparr>used_frames := 257\<rparr>"
  let ?b = "memzero 0x100000 PAGE_SIZE (?a\<lparr>kernel_page_dir := 0x100000\<rparr>)"
  have iu: "frame_used ?i j \<longleftrightarrow> j < 256" if "j < 32768" for j
    using that frames_used_init [of s]
    by (simp add: set_eq_iff frames_used_def init_frame_allocator_simps) metis
  have al: "alloc_frame ?i = (256, ?a)"
    using alloc_frame_from_least [of 0 256 ?i] iu [of 256] iu less_trans [of _ 256 "32768 :: u32"]
    by (simp add: alloc_frame_def init_frame_allocator_simps)
  have fields: "total_frames ?b = 32768" "used_frames ?b = 257" "frame_bitmap ?b = 0x100000"
    "kernel_page_dir ?b = 0x100000" "cr0 ?b = cr0 s"
    by (simp_all add: init_frame_allocator_simps)
  have u: "frames_used ?b = {}"
    using bitmap_cell_offset
    by (intro memzero_frames_used) (auto simp: bitmap_cell_def init_frame_allocator_simps PAGE_SIZE_def)
  then have "alloc_frame ?b = (0, (set_frame_bit 0 ?b)\<lparr>used_frames := 258\<rparr>)"
    using alloc_frame_from_least [of 0 0 ?b]
    by (simp add: alloc_frame_def fields frames_used_def init_frame_allocator_simps)
  then have "create_page_table ?b = (NULL, (set_frame_bit 0 ?b)\<lparr>used_frames := 258\<rparr>)"
    by (simp add: create_page_table_def)
  then have "identity_tables js ?b = (False, (set_frame_bit 0 ?b)\<lparr>used_frames := 258\<rparr>)"
    if "js \<noteq> []" for js using that by (cases js) simp_all
  moreover have "map of_nat [0..<1024] \<noteq> ([] :: u32 list)" by (metis length_map length_upt list.size(3) diff_zero zero_neq_numeral)
  moreover have "256 * PAGE_SIZE = 0x100000" by (simp add: PAGE_SIZE_def)
  ultimately have "init_paging s = (set_frame_bit 0 ?b)\<lparr>used_frames := 258\<rparr>"
    using al unfolding init_paging_def Let_def by simp
  then show ?thesis using frames_used_set [of ?b 0] u fields by simp
qed

end
