(* ===== verification/Sched.thy ===== *)
theory Sched
  imports Kheap
begin

text \<open>
  The scheduler, \<^verbatim>\<open>kernel/proc/sched.c\<close> and \<^verbatim>\<open>include/proc/task.h\<close>.

  Tasks are records in a store indexed by their address; the ready queues are linked through
  \<open>sibling_next\<close>, their heads are the array \<open>ready_queue\<close>. Memory comes from the kernel heap, which
  is part of the state. \<open>dirs\<close> gives the contents of the page directories that tasks point to,
  \<open>kernel_dir\<close> the value of \<^verbatim>\<open>get_kernel_page_dir()\<close>. The two anonymous functions of the source (the
  idle loop and init) are the entry addresses \<open>idle_entry\<close> and \<open>init_entry\<close>. \<^verbatim>\<open>switch_to\<close> is
  assembly; its calls are recorded in \<open>switches\<close>, latest first.
\<close>

unbundle bit_operations_syntax

subsection \<open>Data\<close>

datatype task_state = TASK_RUNNING | TASK_READY | TASK_BLOCKED | TASK_ZOMBIE

record regs_context =
  edi :: u32
  esi :: u32
  ebp :: u32
  esp :: u32
  ebx :: u32
  edx :: u32
  ecx :: u32
  eax :: u32
  eip :: u32
  eflags :: u32
  cs :: u32
  ds :: u32
  es :: u32
  fs :: u32
  gs :: u32
  ss :: u32

record task =
  pid :: u32
  state :: task_state
  priority :: u32
  page_dir :: addr
  kernel_stack_top :: u32
  user_stack_top :: u32
  heap_start :: u32
  heap_end :: u32
  regs :: regs_context
  time_slice :: u32
  total_runtime :: u32
  last_scheduled :: u32
  parent :: addr
  children :: addr
  sibling_next :: addr
  memory_usage_kb :: u32
  name :: string

text \<open>\<open>registers_t\<close>, what the interrupt stub pushes.\<close>

record registers =
  r_edi :: u32
  r_esi :: u32
  r_ebp :: u32
  r_esp :: u32
  r_ebx :: u32
  r_edx :: u32
  r_ecx :: u32
  r_eax :: u32
  r_eip :: u32
  r_cs :: u32
  r_eflags :: u32

definition MAX_PRIORITY :: u32 where "MAX_PRIORITY = 16"
definition TIME_SLICE :: u32 where "TIME_SLICE = 10"
definition sizeof_task :: u32 where "sizeof_task = 156"
definition sizeof_page_directory :: u32 where "sizeof_page_directory = 4096"

record sched =
  ready_queue :: "addr list"
  current_task :: addr
  next_pid :: u32
  system_ticks :: u32
  tasks :: "addr \<rightharpoonup> task"
  heap :: kheap
  kernel_dir :: addr
  dirs :: "addr \<Rightarrow> u32 list"
  idle_entry :: addr
  init_entry :: addr
  switches :: "(addr \<times> addr) list"

text \<open>\<open>memset(task, 0, sizeof(task_t))\<close>; state 0 is \<open>TASK_RUNNING\<close>.\<close>

definition regs_zero :: regs_context where
  "regs_zero = \<lparr>edi = 0, esi = 0, ebp = 0, esp = 0, ebx = 0, edx = 0, ecx = 0, eax = 0, eip = 0,
     eflags = 0, cs = 0, ds = 0, es = 0, fs = 0, gs = 0, ss = 0\<rparr>"

definition task_zero :: task where
  "task_zero = \<lparr>pid = 0, state = TASK_RUNNING, priority = 0, page_dir = NULL, kernel_stack_top = 0,
     user_stack_top = 0, heap_start = 0, heap_end = 0, regs = regs_zero, time_slice = 0,
     total_runtime = 0, last_scheduled = 0, parent = NULL, children = NULL, sibling_next = NULL,
     memory_usage_kb = 0, name = []\<rparr>"

definition mod_task :: "addr \<Rightarrow> (task \<Rightarrow> task) \<Rightarrow> sched \<Rightarrow> sched option" where
  "mod_task p f s = do { t \<leftarrow> tasks s p; Some (s\<lparr>tasks := (tasks s)(p \<mapsto> f t)\<rparr>) }"

text \<open>\<open>kfree(task)\<close>: the object ceases to exist with its memory.\<close>

definition free_task :: "addr \<Rightarrow> sched \<Rightarrow> sched option" where
  "free_task p s = do {
     h \<leftarrow> kfree p (heap s);
     Some (s\<lparr>heap := h, tasks := (tasks s)(p := None)\<rparr>) }"

text \<open>\<open>strcpy\<close> into \<open>char name[32]\<close>, the last field of the structure: a longer name would be
  written over the next heap block, which is not a defined result.\<close>

definition copy_name :: "string \<Rightarrow> task \<Rightarrow> task option" where
  "copy_name n t = (if length n < 32 then Some (t\<lparr>name := n\<rparr>) else None)"

definition kernel_context :: "addr \<Rightarrow> addr \<Rightarrow> regs_context" where
  "kernel_context entry stack_top = regs_zero\<lparr>eip := entry, eflags := 0x202, cs := 0x08, ds := 0x10,
     es := 0x10, fs := 0x10, gs := 0x10, ss := 0x10, esp := stack_top\<rparr>"

subsection \<open>Operations\<close>

definition get_system_ticks :: "sched \<Rightarrow> u32" where
  "get_system_ticks s = system_ticks s"

definition align_address :: "addr \<Rightarrow> u32 \<Rightarrow> addr" where
  "align_address a align = a AND NOT (align - 1)"

definition create_idle_task :: "sched \<Rightarrow> (addr \<times> sched) option" where
  "create_idle_task s = do {
     (idle_task, h) \<leftarrow> kmalloc sizeof_task (heap s);
     if idle_task = NULL then Some (NULL, s\<lparr>heap := h\<rparr>)
     else do {
       t \<leftarrow> copy_name ''idle'' (task_zero\<lparr>pid := 0, state := TASK_READY, priority := 0,
              page_dir := kernel_dir s, time_slice := TIME_SLICE, total_runtime := 0,
              last_scheduled := 0, memory_usage_kb := 4\<rparr>);
       let s = s\<lparr>heap := h, tasks := (tasks s)(idle_task \<mapsto> t)\<rparr>;
       (kernel_stack, h) \<leftarrow> kmalloc 4096 (heap s);
       let s = s\<lparr>heap := h\<rparr>;
       if kernel_stack = NULL then do { s \<leftarrow> free_task idle_task s; Some (NULL, s) }
       else do {
         let top = kernel_stack + 4096;
         s \<leftarrow> mod_task idle_task (\<lambda>t. t\<lparr>kernel_stack_top := top,
                regs := kernel_context (idle_entry s) top\<rparr>) s;
         Some (idle_task, s) } } }"

definition create_task :: "addr \<Rightarrow> string \<Rightarrow> u32 \<Rightarrow> sched \<Rightarrow> (addr \<times> sched) option" where
  "create_task entry task_name prio s =
     (if prio \<ge> MAX_PRIORITY then Some (NULL, s)
      else do {
        (task, h) \<leftarrow> kmalloc sizeof_task (heap s);
        if task = NULL then Some (NULL, s\<lparr>heap := h\<rparr>)
        else do {
          t \<leftarrow> copy_name task_name (task_zero\<lparr>pid := next_pid s, state := TASK_READY, priority := prio,
                 time_slice := TIME_SLICE, total_runtime := 0, last_scheduled := 0,
                 memory_usage_kb := 8\<rparr>);
          let s = s\<lparr>heap := h, next_pid := next_pid s + 1, tasks := (tasks s)(task \<mapsto> t)\<rparr>;
          (dir, h) \<leftarrow> kmalloc sizeof_page_directory (heap s);
          let s = s\<lparr>heap := h\<rparr>;
          s \<leftarrow> mod_task task (\<lambda>t. t\<lparr>page_dir := dir\<rparr>) s;
          if dir = NULL then do { s \<leftarrow> free_task task s; Some (NULL, s) }
          else do {
            let s = s\<lparr>dirs := (dirs s)(dir := dirs s (kernel_dir s))\<rparr>;
            (kernel_stack, h) \<leftarrow> kmalloc 4096 (heap s);
            let s = s\<lparr>heap := h\<rparr>;
            if kernel_stack = NULL then do {
              h \<leftarrow> kfree dir (heap s);
              s \<leftarrow> free_task task (s\<lparr>heap := h\<rparr>);
              Some (NULL, s) }
            else do {
              let top = kernel_stack + 4096;
              s \<leftarrow> mod_task task (\<lambda>t. t\<lparr>kernel_stack_top := top, regs := kernel_context entry top,
                     parent := current_task s,
                     sibling_next := ready_queue s ! unat prio\<rparr>) s;
              Some (task, s\<lparr>ready_queue := (ready_queue s)[unat prio := task]\<rparr>) } } } })"

definition sched_init :: "sched \<Rightarrow> sched option" where
  "sched_init s = do {
     let s = s\<lparr>ready_queue := replicate (unat MAX_PRIORITY) NULL\<rparr>;
     (idle_task, s) \<leftarrow> create_idle_task s;
     if idle_task = NULL then Some s
     else do {
       let s = s\<lparr>ready_queue := (ready_queue s)[0 := idle_task]\<rparr>;
       (init_task, s) \<leftarrow> create_task (init_entry s) ''init'' 5 s;
       if init_task = NULL then Some s
       else Some (s\<lparr>ready_queue := (ready_queue s)[5 := init_task], current_task := idle_task\<rparr>) } }"

text \<open>The end of the time slice: the current task goes back to the head of its queue.\<close>

definition charge_current :: "sched \<Rightarrow> sched option" where
  "charge_current s = do {
     t \<leftarrow> tasks s (current_task s);
     let t = t\<lparr>total_runtime := total_runtime t + 1, time_slice := time_slice t - 1\<rparr>;
     if time_slice t \<le> 0
     then if priority t < MAX_PRIORITY
          then Some (s\<lparr>tasks := (tasks s)(current_task s \<mapsto> t\<lparr>state := TASK_READY,
                         time_slice := TIME_SLICE, sibling_next := ready_queue s ! unat (priority t)\<rparr>),
                       ready_queue := (ready_queue s)[unat (priority t) := current_task s],
                       current_task := NULL\<rparr>)
          else None
     else Some (s\<lparr>tasks := (tasks s)(current_task s \<mapsto> t)\<rparr>) }"

text \<open>The scan \<open>for (i = MAX_PRIORITY - 1; i >= 0; i--)\<close>; \<open>i\<close> queues are left to look at.\<close>

fun take_next :: "nat \<Rightarrow> sched \<Rightarrow> (addr \<times> sched) option" where
  "take_next 0 s = Some (NULL, s)"
| "take_next (Suc i) s =
     (if ready_queue s ! i \<noteq> NULL
      then do {
        let next_task = ready_queue s ! i;
        t \<leftarrow> tasks s next_task;
        let s = s\<lparr>ready_queue := (ready_queue s)[i := sibling_next t]\<rparr>;
        s \<leftarrow> mod_task next_task (\<lambda>t. t\<lparr>sibling_next := NULL\<rparr>) s;
        Some (next_task, s) }
      else take_next i s)"

definition dispatch :: "addr \<Rightarrow> sched \<Rightarrow> sched option" where
  "dispatch next_task s = do {
     s \<leftarrow> mod_task next_task (\<lambda>t. t\<lparr>state := TASK_RUNNING, last_scheduled := 0\<rparr>) s;
     if current_task s \<noteq> next_task
     then Some (s\<lparr>current_task := next_task, switches := (current_task s, next_task) # switches s\<rparr>)
     else Some s }"

definition schedule :: "sched \<Rightarrow> sched option" where
  "schedule s =
     (if current_task s = NULL then Some s
      else do {
        s \<leftarrow> charge_current s;
        (next_task, s) \<leftarrow> take_next (unat MAX_PRIORITY) s;
        (next_task, s) \<leftarrow> (if next_task = NULL then create_idle_task s else Some (next_task, s));
        if next_task = NULL then Some s else dispatch next_task s })"

definition get_current_task :: "sched \<Rightarrow> addr" where
  "get_current_task s = current_task s"

definition task_exit :: "sched \<Rightarrow> sched option" where
  "task_exit s = do {
     s \<leftarrow> mod_task (current_task s) (\<lambda>t. t\<lparr>state := TASK_ZOMBIE\<rparr>) s;
     t \<leftarrow> tasks s (current_task s);
     s \<leftarrow> (if page_dir t \<noteq> NULL \<and> page_dir t \<noteq> kernel_dir s
           then do { h \<leftarrow> kfree (page_dir t) (heap s); Some (s\<lparr>heap := h\<rparr>) }
           else Some s);
     schedule s }"

definition save_context :: "registers \<Rightarrow> regs_context \<Rightarrow> regs_context" where
  "save_context r c = c\<lparr>eax := r_eax r, ebx := r_ebx r, ecx := r_ecx r, edx := r_edx r,
     edi := r_edi r, esi := r_esi r, ebp := r_ebp r, esp := r_esp r, eip := r_eip r,
     eflags := r_eflags r\<rparr>"

definition timer_interrupt_handler :: "registers \<Rightarrow> sched \<Rightarrow> sched option" where
  "timer_interrupt_handler r s = do {
     let s = s\<lparr>system_ticks := system_ticks s + 1\<rparr>;
     s \<leftarrow> (if current_task s \<noteq> NULL
           then do {
             t \<leftarrow> tasks s (current_task s);
             if state t = TASK_RUNNING
             then mod_task (current_task s) (\<lambda>t. t\<lparr>regs := save_context r (regs t)\<rparr>) s
             else Some s }
           else Some s);
     schedule s }"

subsection \<open>The ready queues as lists\<close>

text \<open>
  \<open>queues s qs\<close>: \<open>qs ! i\<close> lists the tasks of queue \<open>i\<close> in order. Every queued task has the priority of
  its queue, so the queues are disjoint. The state is well formed when in addition the heap is,
  every task lies in memory of the heap, and the current task is either in no queue or not about
  to be put into one (after \<open>sched_init\<close> the idle task is both current and queued).
\<close>

definition next_of :: "sched \<Rightarrow> addr \<rightharpoonup> addr" where
  "next_of s = (\<lambda>p. map_option sibling_next (tasks s p))"

definition queues :: "sched \<Rightarrow> addr list list \<Rightarrow> bool" where
  "queues s qs \<longleftrightarrow> length qs = 16 \<and> length (ready_queue s) = 16 \<and>
     (\<forall>i < 16. linked (next_of s) (ready_queue s ! i) (qs ! i) \<and> distinct (qs ! i) \<and>
        (\<forall>p \<in> set (qs ! i). \<exists>t. tasks s p = Some t \<and> unat (priority t) = i))"

definition queued :: "addr list list \<Rightarrow> addr set" where
  "queued qs = (\<Union>i < 16. set (qs ! i))"

definition sched_wf :: "sched \<Rightarrow> addr list list \<Rightarrow> bool" where
  "sched_wf s qs \<longleftrightarrow> queues s qs \<and> kheap_ok (heap s) \<and> dom (tasks s) \<subseteq> kheap_live (heap s) \<and>
     (\<forall>t \<in> ran (tasks s). priority t < MAX_PRIORITY)"

definition sched_ok :: "sched \<Rightarrow> addr list list \<Rightarrow> bool" where
  "sched_ok s qs \<longleftrightarrow> sched_wf s qs \<and> (current_task s = NULL \<or>
     (\<exists>t. tasks s (current_task s) = Some t \<and> (current_task s \<in> queued qs \<longrightarrow> time_slice t \<noteq> 1)))"

lemma queuesD:
  assumes "queues s qs"
  shows "length qs = 16" "length (ready_queue s) = 16"
    and "i < 16 \<Longrightarrow> linked (next_of s) (ready_queue s ! i) (qs ! i)"
    and "i < 16 \<Longrightarrow> distinct (qs ! i)"
    and "i < 16 \<Longrightarrow> p \<in> set (qs ! i) \<Longrightarrow> \<exists>t. tasks s p = Some t \<and> unat (priority t) = i"
  using assms unfolding queues_def by blast+

lemma queues_queued:
  assumes "queues s qs" "p \<in> queued qs"
  obtains i t where "i < 16" "p \<in> set (qs ! i)" "tasks s p = Some t" "unat (priority t) = i"
  using assms queuesD(5) [OF assms(1)] unfolding queued_def by blast

lemma queues_index:
  assumes "queues s qs" "i < 16" "p \<in> set (qs ! i)" "tasks s p = Some t"
  shows "unat (priority t) = i"
  using queuesD(5) [OF assms(1-3)] assms(4) by auto

text \<open>Changes to tasks that keep their links and priorities keep the queues.\<close>

lemma queues_cong:
  assumes "queues s qs" "ready_queue s' = ready_queue s"
    and "\<And>p t. p \<in> queued qs \<Longrightarrow> tasks s p = Some t \<Longrightarrow>
      \<exists>t'. tasks s' p = Some t' \<and> priority t' = priority t \<and> sibling_next t' = sibling_next t"
  shows "queues s' qs"
proof -
  have "linked (next_of s') (ready_queue s ! i) (qs ! i)" if "i < 16" for i
  proof -
    have "next_of s' p = next_of s p" if pi: "p \<in> set (qs ! i)" for p
    proof -
      obtain t where t: "tasks s p = Some t" using queuesD(5) [OF assms(1) \<open>i < 16\<close> pi] by blast
      have "p \<in> queued qs" using pi \<open>i < 16\<close> by (auto simp: queued_def)
      from assms(3) [OF this t] show ?thesis using t by (auto simp: next_of_def)
    qed
    then show ?thesis using queuesD(3) [OF assms(1) that] linked_cong by blast
  qed
  moreover have "\<exists>t'. tasks s' p = Some t' \<and> unat (priority t') = i" if ip: "i < 16" "p \<in> set (qs ! i)" for i p
  proof -
    obtain t where t: "tasks s p = Some t" "unat (priority t) = i" using queuesD(5) [OF assms(1) ip] by blast
    have "p \<in> queued qs" using ip by (auto simp: queued_def)
    from assms(3) [OF this t(1)] show ?thesis using t(2) by auto
  qed
  ultimately show ?thesis using assms(1,2) by (simp add: queues_def)
qed

lemma queues_push:
  assumes q: "queues s qs" and p: "p \<notin> queued qs" "p \<noteq> NULL" "unat (priority t) = k" "k < 16"
    and t: "sibling_next t = ready_queue s ! k"
  shows "queues (s\<lparr>tasks := (tasks s)(p \<mapsto> t), ready_queue := (ready_queue s)[k := p]\<rparr>)
    (qs[k := p # qs ! k])"
proof -
  have n: "next_of (s\<lparr>tasks := (tasks s)(p \<mapsto> t), ready_queue := rq\<rparr>) = (next_of s)(p \<mapsto> ready_queue s ! k)" for rq
    by (auto simp: next_of_def t fun_eq_iff)
  have "p \<notin> set (qs ! i)" if "i < 16" for i using p(1) that by (auto simp: queued_def)
  then show ?thesis
    using q p unfolding queues_def n by (auto simp: nth_list_update)
qed

lemma queues_pop:
  assumes q: "queues s qs" and k: "k < 16" "qs ! k = p # ps" and t: "tasks s p = Some t"
  shows "queues (s\<lparr>ready_queue := (ready_queue s)[k := sibling_next t],
      tasks := (tasks s)(p \<mapsto> t\<lparr>sibling_next := v\<rparr>)\<rparr>) (qs[k := ps])"
    and "p \<notin> queued (qs[k := ps])"
proof -
  have n: "next_of (s\<lparr>ready_queue := rq, tasks := (tasks s)(p \<mapsto> t\<lparr>sibling_next := v\<rparr>)\<rparr>) = (next_of s)(p \<mapsto> v)" for rq
    by (auto simp: next_of_def fun_eq_iff)
  have pk: "p \<in> set (qs ! k)" and d: "distinct (p # ps)"
    and l: "linked (next_of s) (sibling_next t) ps"
    using queuesD(3,4) [OF q k(1)] k(2) t by (auto simp: next_of_def)
  have np: "p \<notin> set (qs ! i)" if "i < 16" "i \<noteq> k" for i
    using queues_index [OF q that(1) _ t] queues_index [OF q k(1) pk t] that(2) by blast
  have len: "length qs = 16" using q by (simp add: queues_def)
  show "p \<notin> queued (qs[k := ps])"
    using np d k(1) len by (auto simp: queued_def nth_list_update split: if_splits)
  show "queues (s\<lparr>ready_queue := (ready_queue s)[k := sibling_next t],
      tasks := (tasks s)(p \<mapsto> t\<lparr>sibling_next := v\<rparr>)\<rparr>) (qs[k := ps])"
    using q k d l np unfolding queues_def n by (auto simp: nth_list_update)
qed

subsection \<open>Creating tasks\<close>

lemma sizes_small [simp]:
  "sizeof_task \<le> 0xFFFFFFE8" "sizeof_page_directory \<le> 0xFFFFFFE8" "(4096 :: u32) \<le> 0xFFFFFFE8"
  by (simp_all add: sizeof_task_def sizeof_page_directory_def)

lemma sched_update_same [simp]: "s\<lparr>heap := heap s\<rparr> = (s :: sched)" "s\<lparr>tasks := tasks s\<rparr> = (s :: sched)"
  by simp_all

lemma drop_fresh: "p \<notin> dom m \<Longrightarrow> m(p := None) = m"
  by auto

text \<open>The idle task, when memory allows it, is a fresh task; otherwise nothing is left behind.\<close>

lemma create_idle_taskE:
  assumes ok: "kheap_ok (heap s)" and dom: "dom (tasks s) \<subseteq> kheap_live (heap s)"
  obtains (fail) h where "create_idle_task s = Some (NULL, s\<lparr>heap := h\<rparr>)"
      "kheap_ok h" "kheap_live h = kheap_live (heap s)"
  | (got) p t h where "create_idle_task s = Some (p, s\<lparr>heap := h, tasks := (tasks s)(p \<mapsto> t)\<rparr>)"
      "p \<noteq> NULL" "p \<notin> kheap_live (heap s)" "kheap_ok h" "insert p (kheap_live (heap s)) \<subseteq> kheap_live h"
      "pid t = 0" "priority t = 0" "state t = TASK_READY" "time_slice t = TIME_SLICE"
      "sibling_next t = NULL" "page_dir t = kernel_dir s" "eip (regs t) = idle_entry s"
  using ok sizes_small(1)
proof (cases rule: kh.allocE)
  case null
  then show thesis using fail [of "heap s"] ok by (simp add: create_idle_task_def)
next
  case (fresh p h1)
  have nd: "p \<notin> dom (tasks s)" using fresh(4) dom by auto
  from fresh(3) sizes_small(3) show thesis
  proof (cases rule: kh.allocE)
    case null
    obtain h2 where h2: "kfree p h1 = Some h2" "kheap_ok h2" "kheap_live h2 = kheap_live (heap s)"
      using kh.undo_one [OF ok sizes_small(1) fresh(1,2)] by auto
    show thesis
      using fail [of h2] fresh(1,2) null h2 drop_fresh [OF nd]
      by (simp add: create_idle_task_def copy_name_def free_task_def)
  next
    case (fresh q h2)
    note f2 = fresh
    let ?t = "task_zero\<lparr>pid := 0, state := TASK_READY, priority := 0, page_dir := kernel_dir s,
      time_slice := TIME_SLICE, total_runtime := 0, last_scheduled := 0, memory_usage_kb := 4,
      name := ''idle'', kernel_stack_top := q + 4096, regs := kernel_context (idle_entry s) (q + 4096)\<rparr>"
    show thesis
      using got [where p = p and h = h2 and t = ?t] \<open>kmalloc sizeof_task (heap s) = Some (p, h1)\<close> \<open>p \<noteq> NULL\<close> f2
        \<open>p \<notin> kheap_live (heap s)\<close> \<open>kheap_live h1 = insert p (kheap_live (heap s))\<close>
      by (auto simp: create_idle_task_def copy_name_def mod_task_def task_zero_def kernel_context_def Let_def)
  qed
qed

lemma create_taskE:
  assumes ok: "kheap_ok (heap s)" and dom: "dom (tasks s) \<subseteq> kheap_live (heap s)"
    and n: "length nm < 32" and prio: "prio < MAX_PRIORITY"
  obtains (fail) h n' ds where
      "create_task e nm prio s = Some (NULL, s\<lparr>heap := h, next_pid := n', dirs := ds\<rparr>)"
      "kheap_ok h" "kheap_live h = kheap_live (heap s)" "n' = next_pid s \<or> n' = next_pid s + 1"
      "\<And>a. a \<in> kheap_live (heap s) \<Longrightarrow> ds a = dirs s a"
  | (got) p d k t h where "create_task e nm prio s = Some (p, s\<lparr>heap := h, next_pid := next_pid s + 1,
        tasks := (tasks s)(p \<mapsto> t), dirs := (dirs s)(d := dirs s (kernel_dir s)),
        ready_queue := (ready_queue s)[unat prio := p]\<rparr>)"
      "p \<noteq> NULL" "d \<noteq> NULL" "kheap_ok h" "distinct [p, d, k]"
      "{p, d, k} \<inter> kheap_live (heap s) = {}" "kheap_live h = {p, d, k} \<union> kheap_live (heap s)"
      "t = task_zero\<lparr>pid := next_pid s, state := TASK_READY, priority := prio, page_dir := d,
         kernel_stack_top := k + 4096, regs := kernel_context e (k + 4096), time_slice := TIME_SLICE,
         parent := current_task s, sibling_next := ready_queue s ! unat prio, memory_usage_kb := 8,
         name := nm\<rparr>"
proof -
  have np: "\<not> prio \<ge> MAX_PRIORITY" using prio by simp
  show thesis using ok sizes_small(1)
  proof (cases rule: kh.allocE)
    case null
    then show thesis using fail [where h = "heap s" and n' = "next_pid s" and ds = "dirs s"] ok np by (simp add: create_task_def)
  next
    case (fresh p h1)
    note a = fresh
    have nd: "p \<notin> dom (tasks s)" using a(4) dom by auto
    from a(3) sizes_small(2) show thesis
    proof (cases rule: kh.allocE)
      case null
      obtain h2 where h2: "kfree p h1 = Some h2" "kheap_ok h2" "kheap_live h2 = kheap_live (heap s)"
        using kh.undo_one [OF ok sizes_small(1) a(1,2)] by auto
      show thesis
        using fail [where h = h2 and n' = "next_pid s + 1" and ds = "dirs s"] a(1,2) null h2 drop_fresh [OF nd] np n
        by (simp add: create_task_def copy_name_def free_task_def mod_task_def)
    next
      case (fresh d h2)
      note b = fresh
      from b(3) sizes_small(3) show thesis
      proof (cases rule: kh.allocE)
        case null
        obtain h3 h4 where h: "kfree d h2 = Some h3" "kfree p h3 = Some h4" "kheap_ok h4"
          "kheap_live h4 = kheap_live (heap s)"
          using kh.undo_two [OF ok sizes_small(1) a(1,2) sizes_small(2) b(1,2)] by auto
        have dl: "d \<notin> kheap_live (heap s)" using a(5) b(4) by simp
        show thesis
        proof (rule fail [where h = h4 and n' = "next_pid s + 1"
              and ds = "(dirs s)(d := dirs s (kernel_dir s))"])
          show "create_task e nm prio s = Some (NULL, s\<lparr>heap := h4, next_pid := next_pid s + 1,
              dirs := (dirs s)(d := dirs s (kernel_dir s))\<rparr>)"
            using a(1,2) b(1,2) null h(1,2) drop_fresh [OF nd] np n
            by (simp add: create_task_def copy_name_def free_task_def mod_task_def)
        qed (use h dl in auto)
      next
        case (fresh k h3)
        note c = fresh
        show thesis
        proof (rule got [where p = p and h = h3 and d = d and k = k])
          show "distinct [p, d, k]" "{p, d, k} \<inter> kheap_live (heap s) = {}"
            "kheap_live h3 = {p, d, k} \<union> kheap_live (heap s)" "kheap_ok h3"
            using a b c by auto
        qed (use a(1,2) b(1,2) c(1,2) np n in
          \<open>simp_all add: create_task_def copy_name_def mod_task_def task_zero_def Let_def\<close>)
      qed
    qed
  qed
qed

subsection \<open>Steps keep the queues well formed\<close>

lemma unat_prio: "p < MAX_PRIORITY \<longleftrightarrow> unat p < 16"
  by (simp add: MAX_PRIORITY_def word_less_nat_alt)

lemma sched_wf_null: "sched_wf s qs \<Longrightarrow> tasks s NULL = None"
  using kh.null_not_live by (auto simp: sched_wf_def)

lemma sched_wf_queued: "sched_wf s qs \<Longrightarrow> p \<in> queued qs \<Longrightarrow> \<exists>t. tasks s p = Some t"
  by (metis queues_queued sched_wf_def)

lemma sched_wf_mod:
  assumes "sched_wf s qs" "tasks s p = Some t" "priority t' = priority t" "sibling_next t' = sibling_next t"
  shows "sched_wf (s\<lparr>tasks := (tasks s)(p \<mapsto> t')\<rparr>) qs"
proof -
  have "queues s qs" using assms(1) by (simp add: sched_wf_def)
  then have "queues (s\<lparr>tasks := (tasks s)(p \<mapsto> t')\<rparr>) qs"
    by (rule queues_cong) (use assms(2-4) in auto)
  then show ?thesis using assms by (auto simp: sched_wf_def ran_def)
qed

lemma sched_wf_fields [simp]:
  "sched_wf (s\<lparr>current_task := c\<rparr>) qs = sched_wf s qs" "sched_wf (s\<lparr>switches := w\<rparr>) qs = sched_wf s qs"
  "sched_wf (s\<lparr>next_pid := n\<rparr>) qs = sched_wf s qs" "sched_wf (s\<lparr>dirs := d\<rparr>) qs = sched_wf s qs"
  "sched_wf (s\<lparr>system_ticks := n\<rparr>) qs = sched_wf s qs"
  by (simp_all add: sched_wf_def queues_def next_of_def)

lemma sched_wf_cong:
  "sched_wf s qs \<Longrightarrow> ready_queue s' = ready_queue s \<Longrightarrow> tasks s' = tasks s \<Longrightarrow> heap s' = heap s \<Longrightarrow>
   sched_wf s' qs"
  by (simp add: sched_wf_def queues_def next_of_def)

lemma sched_wf_push:
  assumes wf: "sched_wf s qs" and p: "p \<notin> queued qs" "p \<noteq> NULL" "p \<in> kheap_live h"
    and h: "kheap_ok h" "kheap_live (heap s) \<subseteq> kheap_live h"
    and t: "unat (priority t) = k" "k < 16" "sibling_next t = ready_queue s ! k"
  shows "sched_wf (s\<lparr>heap := h, tasks := (tasks s)(p \<mapsto> t), ready_queue := (ready_queue s)[k := p]\<rparr>)
    (qs[k := p # qs ! k])"
proof -
  have "queues (s\<lparr>tasks := (tasks s)(p \<mapsto> t), ready_queue := (ready_queue s)[k := p]\<rparr>) (qs[k := p # qs ! k])"
    using wf p(1,2) t by (intro queues_push) (auto simp: sched_wf_def)
  then have "queues (s\<lparr>heap := h, tasks := (tasks s)(p \<mapsto> t), ready_queue := (ready_queue s)[k := p]\<rparr>) (qs[k := p # qs ! k])"
    by (simp add: queues_def next_of_def)
  then show ?thesis using wf p h t by (auto simp: sched_wf_def ran_def unat_prio)
qed

lemma queued_push: "length qs = 16 \<Longrightarrow> k < 16 \<Longrightarrow> queued (qs[k := p # qs ! k]) = insert p (queued qs)"
  by (auto simp: queued_def nth_list_update split: if_splits)

lemma queued_pop_subset: "length qs = 16 \<Longrightarrow> k < 16 \<Longrightarrow> qs ! k = p # ps \<Longrightarrow>
    insert p (queued (qs[k := ps])) = queued qs"
  using queued_push [of "qs[k := ps]" k p] by (metis length_list_update list_update_id
      list_update_overwrite nth_list_update_eq)

lemma take_nextE:
  assumes "sched_wf s qs" "i \<le> 16"
  obtains (none) "\<And>j. j < i \<Longrightarrow> qs ! j = []" "take_next i s = Some (NULL, s)"
  | (some) k p ps t where "k < i" "qs ! k = p # ps" "\<And>j. k < j \<Longrightarrow> j < i \<Longrightarrow> qs ! j = []"
      "tasks s p = Some t"
      "take_next i s = Some (p, s\<lparr>ready_queue := (ready_queue s)[k := sibling_next t],
         tasks := (tasks s)(p \<mapsto> t\<lparr>sibling_next := NULL\<rparr>)\<rparr>)"
  using assms(2)
proof (induction i arbitrary: thesis)
  case 0
  then show ?case by simp
next
  case (Suc i)
  have l: "linked (next_of s) (ready_queue s ! i) (qs ! i)"
    using assms(1) Suc.prems by (auto simp: sched_wf_def dest: queuesD(3) [of _ _ i])
  show ?case
  proof (cases "qs ! i")
    case Nil
    then have z: "ready_queue s ! i = NULL" using l by simp
    show ?thesis
    proof (rule Suc.IH)
      assume "\<And>j. j < i \<Longrightarrow> qs ! j = []" "take_next i s = Some (NULL, s)"
      then show ?thesis using Nil z by (intro Suc.prems(1)) (auto simp: less_Suc_eq)
    next
      fix k p ps t
      assume a: "k < i" "qs ! k = p # ps" "\<And>j. k < j \<Longrightarrow> j < i \<Longrightarrow> qs ! j = []" "tasks s p = Some t"
        and tn: "take_next i s = Some (p, s\<lparr>ready_queue := (ready_queue s)[k := sibling_next t],
         tasks := (tasks s)(p \<mapsto> t\<lparr>sibling_next := NULL\<rparr>)\<rparr>)"
      have "qs ! j = []" if "k < j" "j < Suc i" for j using a(3) Nil that by (auto simp: less_Suc_eq)
      moreover have "take_next (Suc i) s = take_next i s" using z by simp
      ultimately show ?thesis using a tn by (intro Suc.prems(2) [of k p ps t]) (simp_all add: less_SucI fun_upd_def)
    qed (use Suc.prems(3) in simp)
  next
    case (Cons p ps)
    then have "ready_queue s ! i = p" "p \<noteq> NULL" using l by auto
    moreover obtain t where "tasks s p = Some t" using l Cons by (auto simp: next_of_def)
    ultimately have "take_next (Suc i) s = Some (p, s\<lparr>ready_queue := (ready_queue s)[i := sibling_next t],
        tasks := (tasks s)(p \<mapsto> t\<lparr>sibling_next := NULL\<rparr>)\<rparr>)"
      by (simp add: mod_task_def Let_def)
    with Cons \<open>tasks s p = Some t\<close> show ?thesis
      by (intro Suc.prems(2) [of i p ps t]) (simp_all add: fun_upd_def)
  qed
qed

lemma take_next_wf:
  assumes "sched_wf s qs" "k < 16" "qs ! k = p # ps" "tasks s p = Some t"
  shows "sched_wf (s\<lparr>ready_queue := (ready_queue s)[k := sibling_next t],
     tasks := (tasks s)(p \<mapsto> t\<lparr>sibling_next := NULL\<rparr>)\<rparr>) (qs[k := ps])"
    and "p \<notin> queued (qs[k := ps])"
  using queues_pop [of s qs k p ps t] assms by (auto simp: sched_wf_def ran_def)

subsection \<open>One run of the scheduler\<close>

text \<open>The queues after the current task has been charged: it is pushed when its slice has ended.\<close>

definition charged :: "addr \<Rightarrow> task \<Rightarrow> addr list list \<Rightarrow> addr list list" where
  "charged c t qs = (let k = unat (priority t) in if time_slice t = 1 then qs[k := c # qs ! k] else qs)"

lemma charge_current_ok:
  assumes ok: "sched_ok s qs" and c: "current_task s \<noteq> NULL" "tasks s (current_task s) = Some t"
  obtains s1 t1 where "charge_current s = Some s1" "sched_wf s1 (charged (current_task s) t qs)"
    "s1 = s\<lparr>tasks := (tasks s)(current_task s \<mapsto> t1), ready_queue := ready_queue s1,
            current_task := (if time_slice t = 1 then NULL else current_task s)\<rparr>"
    "priority t1 = priority t" "page_dir t1 = page_dir t"
    "time_slice t1 = (if time_slice t = 1 then TIME_SLICE else time_slice t - 1)"
    "state t1 = (if time_slice t = 1 then TASK_READY else state t)"
    "total_runtime t1 = total_runtime t + 1"
proof -
  let ?c = "current_task s"
  have wf: "sched_wf s qs" using ok by (simp add: sched_ok_def)
  have pr: "priority t < MAX_PRIORITY" using wf c(2) by (auto simp: sched_wf_def ran_def)
  have e: "time_slice t - 1 \<le> 0 \<longleftrightarrow> time_slice t = 1" by (simp add: word_le_0_iff)
  show thesis
  proof (cases "time_slice t = 1")
    case True
    then have "?c \<notin> queued qs" using ok c by (auto simp: sched_ok_def)
    moreover have "?c \<in> kheap_live (heap s)" using wf c(2) by (auto simp: sched_wf_def)
    ultimately have "sched_wf (s\<lparr>heap := heap s, tasks := (tasks s)(?c \<mapsto> t\<lparr>total_runtime := total_runtime t + 1,
        state := TASK_READY, time_slice := TIME_SLICE, sibling_next := ready_queue s ! unat (priority t)\<rparr>),
        ready_queue := (ready_queue s)[unat (priority t) := ?c]\<rparr>) (charged ?c t qs)"
      unfolding charged_def Let_def using True wf c(1) pr
      by (subst if_P, simp, intro sched_wf_push) (auto simp: sched_wf_def unat_prio)
    then show thesis using True c pr
      by (intro that [where ?s1.0 = "s\<lparr>tasks := (tasks s)(?c \<mapsto> t\<lparr>total_runtime := total_runtime t + 1,
        state := TASK_READY, time_slice := TIME_SLICE, sibling_next := ready_queue s ! unat (priority t)\<rparr>),
        ready_queue := (ready_queue s)[unat (priority t) := ?c], current_task := NULL\<rparr>"
        and ?t1.0 = "t\<lparr>total_runtime := total_runtime t + 1,
        state := TASK_READY, time_slice := TIME_SLICE, sibling_next := ready_queue s ! unat (priority t)\<rparr>"])
        (simp_all add: charge_current_def Let_def)
  next
    case False
    have "sched_wf (s\<lparr>tasks := (tasks s)(?c \<mapsto> t\<lparr>total_runtime := total_runtime t + 1,
        time_slice := time_slice t - 1\<rparr>)\<rparr>) qs"
      using wf c(2) by (rule sched_wf_mod) simp_all
    then show thesis using False c e
      by (intro that [where ?s1.0 = "s\<lparr>tasks := (tasks s)(?c \<mapsto> t\<lparr>total_runtime := total_runtime t + 1,
        time_slice := time_slice t - 1\<rparr>)\<rparr>" and ?t1.0 = "t\<lparr>total_runtime := total_runtime t + 1,
        time_slice := time_slice t - 1\<rparr>"]) (simp_all add: charge_current_def charged_def Let_def)
  qed
qed

lemma dispatch_ok:
  assumes "sched_wf s qs" "p \<notin> queued qs" "tasks s p = Some t"
  obtains s' where "dispatch p s = Some s'" "sched_ok s' qs" "current_task s' = p"
    "tasks s' = (tasks s)(p \<mapsto> t\<lparr>state := TASK_RUNNING, last_scheduled := 0\<rparr>)" "heap s' = heap s"
proof -
  let ?t = "t\<lparr>state := TASK_RUNNING, last_scheduled := 0\<rparr>"
  have "sched_wf (s\<lparr>tasks := (tasks s)(p \<mapsto> ?t)\<rparr>) qs"
    using assms(1,3) by (rule sched_wf_mod) simp_all
  then have "sched_ok (s\<lparr>tasks := (tasks s)(p \<mapsto> ?t), current_task := p, switches := w\<rparr>) qs"
    "current_task s = p \<Longrightarrow> sched_ok (s\<lparr>tasks := (tasks s)(p \<mapsto> ?t)\<rparr>) qs" for w
    using assms(2) by (auto simp: sched_ok_def)
  moreover have "dispatch p s = Some (if current_task s = p then s\<lparr>tasks := (tasks s)(p \<mapsto> ?t)\<rparr>
      else s\<lparr>tasks := (tasks s)(p \<mapsto> ?t), current_task := p, switches := (current_task s, p) # switches s\<rparr>)"
    using assms(3) by (simp add: dispatch_def mod_task_def)
  ultimately show thesis using that by (cases "current_task s = p") simp_all
qed

text \<open>
  \<open>schedule\<close> always returns. With \<open>qs'\<close> the queues after charging the current task: if some queue of
  \<open>qs'\<close> is not empty, the head of the highest of them becomes the current task; otherwise a new idle
  task does, or, when there is no memory for one, the current task stays.
\<close>

lemma scheduleE:
  assumes ok: "sched_ok s qs" and c: "current_task s \<noteq> NULL" "tasks s (current_task s) = Some t"
  obtains (queue) k p ps s' u where "k < 16" "charged (current_task s) t qs ! k = p # ps"
      "\<And>j. k < j \<Longrightarrow> j < 16 \<Longrightarrow> charged (current_task s) t qs ! j = []"
      "schedule s = Some s'" "sched_ok s' ((charged (current_task s) t qs)[k := ps])"
      "current_task s' = p" "p \<notin> queued ((charged (current_task s) t qs)[k := ps])"
      "tasks s' p = Some u" "state u = TASK_RUNNING" "dom (tasks s') = dom (tasks s)"
      "heap s' = heap s" "\<And>q. map_option page_dir (tasks s' q) = map_option page_dir (tasks s q)"
      "\<And>q. q \<noteq> current_task s \<Longrightarrow> map_option time_slice (tasks s' q) = map_option time_slice (tasks s q)"
  | (idle) p s' u where "\<And>j. j < 16 \<Longrightarrow> charged (current_task s) t qs ! j = []"
      "schedule s = Some s'" "sched_ok s' (charged (current_task s) t qs)"
      "current_task s' = p" "p \<noteq> NULL" "p \<notin> kheap_live (heap s)" "tasks s' p = Some u" "pid u = 0"
      "state u = TASK_RUNNING" "dom (tasks s') = insert p (dom (tasks s))"
      "kheap_live (heap s) \<subseteq> kheap_live (heap s')"
  | (stay) s' where "\<And>j. j < 16 \<Longrightarrow> charged (current_task s) t qs ! j = []"
      "schedule s = Some s'" "sched_ok s' (charged (current_task s) t qs)"
      "current_task s' = current_task s" "dom (tasks s') = dom (tasks s)"
      "kheap_live (heap s') = kheap_live (heap s)"
proof -
  let ?qs = "charged (current_task s) t qs"
  obtain s1 t1 where s1: "charge_current s = Some s1" "sched_wf s1 ?qs"
    "s1 = s\<lparr>tasks := (tasks s)(current_task s \<mapsto> t1), ready_queue := ready_queue s1,
            current_task := (if time_slice t = 1 then NULL else current_task s)\<rparr>"
    "page_dir t1 = page_dir t"
    using charge_current_ok [OF assms] by metis
  have t1: "tasks s1 = (tasks s)(current_task s \<mapsto> t1)" "heap s1 = heap s" by (subst s1(3), simp)+
  have h1: "heap s1 = heap s" "dom (tasks s1) = dom (tasks s)"
    "\<And>q. map_option page_dir (tasks s1 q) = map_option page_dir (tasks s q)"
    "\<And>q. q \<noteq> current_task s \<Longrightarrow> map_option time_slice (tasks s1 q) = map_option time_slice (tasks s q)"
    using c(2) s1(4) by (auto simp: t1)
  have n16: "unat MAX_PRIORITY = 16" by (simp add: MAX_PRIORITY_def)
  from s1(2) order_refl [of 16] show thesis
  proof (cases rule: take_nextE)
    case (some k p ps v)
    note wf2 = take_next_wf [OF s1(2) some(1,2,4)]
    have p0: "p \<noteq> NULL" using sched_wf_null [OF s1(2)] some(4) by auto
    obtain s' where s': "dispatch p (s1\<lparr>ready_queue := (ready_queue s1)[k := sibling_next v],
        tasks := (tasks s1)(p \<mapsto> v\<lparr>sibling_next := NULL\<rparr>)\<rparr>) = Some s'" "sched_ok s' (?qs[k := ps])"
      "current_task s' = p" "tasks s' = (tasks s1)(p \<mapsto> v\<lparr>sibling_next := NULL, state := TASK_RUNNING, last_scheduled := 0\<rparr>)"
      "heap s' = heap s1"
      by (rule dispatch_ok [OF wf2, of "v\<lparr>sibling_next := NULL\<rparr>"]) auto
    have "schedule s = Some s'" using c(1) s1(1) some(5) s'(1) p0 n16 by (simp add: schedule_def)
    then show thesis
      by (intro queue [OF some(1,2,3) _ s'(2,3) wf2(2)])
        (use s'(4,5) h1 some(4) in \<open>auto simp flip: h1(3,4)\<close>)
  next
    case none
    have q0: "queued ?qs = {}" using none(1) by (auto simp: queued_def)
    have "kheap_ok (heap s1)" "dom (tasks s1) \<subseteq> kheap_live (heap s1)"
      using s1(2) by (auto simp: sched_wf_def)
    then show thesis
    proof (cases rule: create_idle_taskE)
      case (fail h)
      have sch: "schedule s = Some (s1\<lparr>heap := h\<rparr>)"
        using c(1) s1(1) none(2) fail(1) n16 by (simp add: schedule_def)
      have ts: "time_slice t \<noteq> 1"
      proof
        assume "time_slice t = 1"
        then have "current_task s \<in> queued ?qs"
          using ok c(2) by (auto simp: charged_def Let_def queued_push sched_ok_def sched_wf_def
              queuesD(1) unat_prio ran_def)
        then show False using q0 by simp
      qed
      then have cur: "current_task s1 = current_task s" by (subst s1(3)) simp
      have wf: "sched_wf (s1\<lparr>heap := h\<rparr>) ?qs"
        using s1(2) fail(2,3) by (simp add: sched_wf_def queues_def next_of_def)
      moreover have "tasks s1 (current_task s) = Some t1" by (subst s1(3)) simp
      ultimately have "sched_ok (s1\<lparr>heap := h\<rparr>) ?qs" using q0 cur by (simp add: sched_ok_def)
      then show thesis using none(1) sch cur h1 fail(3) by (intro stay [OF none(1) sch]) simp_all
    next
      case (got p u h)
      let ?s = "s1\<lparr>heap := h, tasks := (tasks s1)(p \<mapsto> u)\<rparr>"
      have "queues ?s ?qs" using s1(2) none(1) by (auto simp: sched_wf_def queues_def next_of_def)
      then have "sched_wf ?s ?qs"
        using s1(2) got(4,5,7) by (auto simp: sched_wf_def ran_def unat_prio)
      then obtain s' where s': "dispatch p ?s = Some s'" "sched_ok s' ?qs" "current_task s' = p"
        "tasks s' = (tasks s1)(p \<mapsto> u\<lparr>state := TASK_RUNNING, last_scheduled := 0\<rparr>)" "heap s' = h"
        by (rule dispatch_ok [of _ _ p u]) (use q0 in auto)
      have "schedule s = Some s'"
        using c(1) s1(1) none(2) got(1,2) s'(1) n16 by (simp add: schedule_def)
      then show thesis
        by (intro idle [OF none(1) _ s'(2,3) got(2), where u = "u\<lparr>state := TASK_RUNNING, last_scheduled := 0\<rparr>"])
          (use got s'(4,5) h1 in auto)
    qed
  qed
qed

subsection \<open>Booting and running\<close>

lemma sched_ok_create:
  assumes ok: "sched_ok s qs" and n: "length nm < 32"
  shows "\<exists>p s'. create_task e nm prio s = Some (p, s') \<and> current_task s' = current_task s \<and>
    (p = NULL \<and> sched_ok s' qs \<and> tasks s' = tasks s \<and> kheap_live (heap s') = kheap_live (heap s) \<or>
     p \<noteq> NULL \<and> prio < MAX_PRIORITY \<and> p \<notin> dom (tasks s) \<and>
     sched_ok s' (qs[unat prio := p # qs ! unat prio]) \<and>
     (\<exists>t. tasks s' = (tasks s)(p \<mapsto> t) \<and> pid t = next_pid s \<and> state t = TASK_READY \<and>
        priority t = prio \<and> time_slice t = TIME_SLICE \<and> name t = nm \<and> parent t = current_task s \<and>
        regs t = kernel_context e (kernel_stack_top t) \<and>
        page_dir t \<in> kheap_live (heap s') - kheap_live (heap s) \<and>
        kernel_stack_top t - 4096 \<in> kheap_live (heap s') - kheap_live (heap s) \<and>
        dirs s' (page_dir t) = dirs s (kernel_dir s)))"
proof (cases "prio < MAX_PRIORITY")
  case False
  then show ?thesis using ok by (auto simp: create_task_def)
next
  case True
  have wf: "sched_wf s qs" using ok by (simp add: sched_ok_def)
  then have "kheap_ok (heap s)" "dom (tasks s) \<subseteq> kheap_live (heap s)" by (auto simp: sched_wf_def)
  then show ?thesis using n True
  proof (cases rule: create_taskE [where e = e])
    case (fail h n' ds)
    then have "sched_ok (s\<lparr>heap := h, next_pid := n', dirs := ds\<rparr>) qs"
      using ok by (simp add: sched_ok_def sched_wf_def queues_def next_of_def)
    then show ?thesis using fail(1,3) by auto
  next
    case (got p d k t h)
    have nd: "p \<notin> dom (tasks s)" and nq: "p \<notin> queued qs"
      using got(6) wf sched_wf_queued [OF wf, of p] by (auto simp: sched_wf_def)
    have k: "unat prio < 16" using True by (simp add: unat_prio)
    have "sched_wf (s\<lparr>heap := h, tasks := (tasks s)(p \<mapsto> t), ready_queue := (ready_queue s)[unat prio := p]\<rparr>)
        (qs[unat prio := p # qs ! unat prio])"
      using wf nq got(2,4,7,8) k by (intro sched_wf_push) (auto simp: task_zero_def)
    then have wf': "sched_wf (s\<lparr>heap := h, next_pid := next_pid s + 1, tasks := (tasks s)(p \<mapsto> t),
        dirs := (dirs s)(d := dirs s (kernel_dir s)), ready_queue := (ready_queue s)[unat prio := p]\<rparr>)
        (qs[unat prio := p # qs ! unat prio])" (is "sched_wf ?s _")
      by (rule sched_wf_cong) simp_all
    have len: "length qs = 16" using wf queuesD(1) by (auto simp: sched_wf_def)
    have "current_task s = NULL \<or> current_task s \<noteq> p \<and> (\<exists>t. tasks s (current_task s) = Some t \<and>
        (current_task s \<in> queued qs \<longrightarrow> time_slice t \<noteq> 1))"
      using ok nd by (auto simp: sched_ok_def)
    then have "sched_ok ?s (qs[unat prio := p # qs ! unat prio])"
      using wf' unfolding sched_ok_def by (auto simp: queued_push [OF len k])
    moreover have "pid t = next_pid s" "state t = TASK_READY" "priority t = prio" "time_slice t = TIME_SLICE"
      "name t = nm" "parent t = current_task s" "page_dir t = d" "kernel_stack_top t = k + 4096"
      "regs t = kernel_context e (k + 4096)"
      by (simp_all add: got(8) task_zero_def)
    ultimately show ?thesis
      by (intro exI [of _ p] exI [of _ ?s] conjI disjI2 exI [of _ t])
        (use got(1-3,5-7) True nd in auto)
  qed
qed

text \<open>\<open>sched_init\<close> in a machine without tasks.\<close>

definition unbooted :: "sched \<Rightarrow> bool" where
  "unbooted s \<longleftrightarrow> kheap_ok (heap s) \<and> tasks s = Map.empty \<and> current_task s = NULL"

lemma nth_replicate_update: "i < 16 \<Longrightarrow> (replicate 16 x)[k := y] ! i = (if i = k then y else x)"
  by (simp add: nth_list_update)

lemma sched_initE:
  assumes "unbooted s"
  obtains (fail) s' qs where "sched_init s = Some s'" "sched_ok s' qs" "current_task s' = NULL"
  | (boot) s' a b t where "sched_init s = Some s'" "a \<noteq> b"
      "sched_ok s' ((replicate 16 [])[0 := [a], 5 := [b]])" "current_task s' = a" "tasks s' a = Some t"
      "time_slice t = TIME_SLICE" "priority t = 0" "map_option time_slice (tasks s' b) = Some TIME_SLICE"
      "a \<noteq> NULL" "b \<noteq> NULL"
proof -
  have u: "kheap_ok (heap s)" "tasks s = Map.empty" "current_task s = NULL"
    using assms by (auto simp: unbooted_def)
  define s0 where "s0 = s\<lparr>ready_queue := replicate 16 NULL\<rparr>"
  have m: "replicate (unat MAX_PRIORITY) NULL = replicate 16 NULL" by (simp add: MAX_PRIORITY_def)
  have "queues s0 (replicate 16 [])" by (simp add: s0_def queues_def)
  then have wf0: "sched_wf s0 (replicate 16 [])" using u by (simp add: sched_wf_def s0_def)
  have h0: "kheap_ok (heap s0)" "dom (tasks s0) \<subseteq> kheap_live (heap s0)" using u by (auto simp: s0_def)
  then show thesis
  proof (cases rule: create_idle_taskE)
    case (fail h)
    have "sched_init s = Some (s0\<lparr>heap := h\<rparr>)"
      using fail(1) by (simp add: sched_init_def m flip: s0_def)
    moreover have "sched_ok (s0\<lparr>heap := h\<rparr>) (replicate 16 [])"
      using fail(2,3) wf0 u(3) by (simp add: sched_ok_def sched_wf_def queues_def next_of_def s0_def)
    ultimately show thesis using that(1) u(3) by (simp add: s0_def)
  next
    case (got a t h)
    define s1 where "s1 = s0\<lparr>heap := h, tasks := (tasks s0)(a \<mapsto> t), ready_queue := (ready_queue s0)[0 := a]\<rparr>"
    have "sched_wf s1 ((replicate 16 [])[0 := a # replicate 16 [] ! 0])"
      unfolding s1_def using got wf0 by (intro sched_wf_push) (auto simp: queued_def s0_def)
    then have ok1: "sched_ok s1 ((replicate 16 [])[0 := [a]])"
      using u(3) by (simp add: sched_ok_def s1_def s0_def)
    obtain b s2 where b: "create_task (init_entry s1) ''init'' 5 s1 = Some (b, s2)"
      "current_task s2 = current_task s1"
      "b = NULL \<and> sched_ok s2 ((replicate 16 [])[0 := [a]]) \<and> tasks s2 = tasks s1 \<or>
       b \<noteq> NULL \<and> b \<notin> dom (tasks s1) \<and> sched_ok s2 ((replicate 16 [])[0 := [a], 5 := [b]]) \<and>
       (\<exists>t. tasks s2 = (tasks s1)(b \<mapsto> t) \<and> time_slice t = TIME_SLICE)"
      using sched_ok_create [OF ok1, of "''init''" "init_entry s1" 5] by (auto simp: nth_replicate_update)
    have e: "sched_init s = Some (if b = NULL then s2
        else s2\<lparr>ready_queue := (ready_queue s2)[5 := b], current_task := a\<rparr>)"
      using got(1,2) b(1) by (simp add: sched_init_def m s1_def flip: s0_def)
    show thesis
    proof (cases "b = NULL")
      case True
      then show thesis using that(1) [OF e] b(2,3) u(3) by (auto simp: s1_def s0_def)
    next
      case False
      then obtain tb where tb: "tasks s2 = (tasks s1)(b \<mapsto> tb)" "time_slice tb = TIME_SLICE" "a \<noteq> b" "sched_wf s2 ((replicate 16 [])[0 := [a], 5 := [b]])"
        using b(3) by (auto simp: s1_def sched_ok_def)
      have q5: "linked (next_of s2) (ready_queue s2 ! 5) [b]"
        using tb(4) queuesD(3) [of s2 "(replicate 16 [])[0 := [a], 5 := [b]]" 5] by (auto simp: sched_wf_def)
      have "(ready_queue s2)[5 := b] = ready_queue s2" using q5 by (auto intro!: list_update_id)
      then have wf: "sched_wf (s2\<lparr>ready_queue := (ready_queue s2)[5 := b], current_task := a\<rparr>)
          ((replicate 16 [])[0 := [a], 5 := [b]])" using tb(4) by simp
      have ta: "tasks s2 a = Some t" using tb by (simp add: s1_def)
      then have ok: "sched_ok (s2\<lparr>ready_queue := (ready_queue s2)[5 := b], current_task := a\<rparr>)
          ((replicate 16 [])[0 := [a], 5 := [b]])"
        using wf got(9) by (simp add: sched_ok_def TIME_SLICE_def)
      show thesis by (rule that(2) [OF e, where a = a and b = b and t = t]) (use False ok got ta tb in auto)
    qed
  qed
qed

lemma timer_prepares:
  assumes ok: "sched_ok s qs"
  obtains s1 where "timer_interrupt_handler r s = schedule s1" "sched_ok s1 qs"
    "current_task s1 = current_task s" "dom (tasks s1) = dom (tasks s)" "heap s1 = heap s"
    "\<And>t. tasks s (current_task s) = Some t \<Longrightarrow> \<exists>t1. tasks s1 (current_task s) = Some t1 \<and>
       time_slice t1 = time_slice t \<and> priority t1 = priority t"
proof -
  let ?s = "s\<lparr>system_ticks := system_ticks s + 1\<rparr>"
  have ok': "sched_ok ?s qs" using ok by (simp add: sched_ok_def)
  show thesis
  proof (cases "current_task s = NULL")
    case True
    then have "timer_interrupt_handler r s = schedule ?s" by (simp add: timer_interrupt_handler_def)
    then show thesis using ok' by (rule that) auto
  next
    case False
    then obtain t where t: "tasks s (current_task s) = Some t" using ok by (auto simp: sched_ok_def)
    show thesis
    proof (cases "state t = TASK_RUNNING")
      case True
      let ?t = "t\<lparr>regs := save_context r (regs t)\<rparr>"
      let ?s1 = "?s\<lparr>tasks := (tasks s)(current_task s \<mapsto> ?t)\<rparr>"
      have e: "timer_interrupt_handler r s = schedule ?s1"
        using False t True by (simp add: timer_interrupt_handler_def mod_task_def)
      have wf: "sched_wf s qs" using ok by (simp add: sched_ok_def)
      then have "sched_wf (s\<lparr>tasks := (tasks s)(current_task s \<mapsto> ?t)\<rparr>) qs"
        using t by (rule sched_wf_mod) simp_all
      then have "sched_wf ?s1 qs" by (rule sched_wf_cong) simp_all
      then have "sched_ok ?s1 qs" using ok t by (auto simp: sched_ok_def)
      then show thesis using t by (intro that [OF e]) auto
    next
      case False
      then have "timer_interrupt_handler r s = schedule ?s"
        using \<open>current_task s \<noteq> NULL\<close> t by (simp add: timer_interrupt_handler_def)
      then show thesis using ok' by (rule that) auto
    qed
  qed
qed

text \<open>What happens to the scheduler while the machine runs: timer interrupts and new tasks.\<close>

inductive sched_step :: "sched \<Rightarrow> sched \<Rightarrow> bool" where
  tick: "timer_interrupt_handler r s = Some s' \<Longrightarrow> sched_step s s'"
| create: "create_task e nm prio s = Some (p, s') \<Longrightarrow> length nm < 32 \<Longrightarrow> sched_step s s'"

text \<open>A task is lost when it is neither running nor queued.\<close>

definition lost :: "addr \<Rightarrow> sched \<Rightarrow> bool" where
  "lost c s \<longleftrightarrow> c \<in> dom (tasks s) \<and> current_task s \<noteq> c \<and> (\<exists>qs. sched_ok s qs \<and> c \<notin> queued qs)"

lemma queued_update_subset:
  "length qs = 16 \<Longrightarrow> k < 16 \<Longrightarrow> qs ! k = p # ps \<Longrightarrow> queued (qs[k := ps]) \<subseteq> queued qs"
  using queued_pop_subset by blast

lemma sched_ok_length: "sched_ok s qs \<Longrightarrow> length qs = 16"
  using queuesD(1) by (auto simp: sched_ok_def sched_wf_def)

lemma charged_queued:
  assumes "sched_ok s qs" "tasks s c = Some t"
  shows "length (charged c t qs) = 16" "queued (charged c t qs) \<subseteq> insert c (queued qs)"
    and "time_slice t \<noteq> 1 \<Longrightarrow> charged c t qs = qs"
proof -
  have k: "unat (priority t) < 16" using assms by (auto simp: sched_ok_def sched_wf_def ran_def unat_prio)
  then show "queued (charged c t qs) \<subseteq> insert c (queued qs)"
    using queued_push [OF sched_ok_length [OF assms(1)] k] by (auto simp: charged_def Let_def)
qed (use sched_ok_length [OF assms(1)] in \<open>simp_all add: charged_def Let_def\<close>)

lemma schedule_null: "current_task s = NULL \<Longrightarrow> schedule s = Some s"
  by (simp add: schedule_def)

lemma schedule_step:
  assumes ok: "sched_ok s qs"
  shows "\<exists>s' qs'. schedule s = Some s' \<and> sched_ok s' qs' \<and> dom (tasks s) \<subseteq> dom (tasks s') \<and>
    insert (current_task s') (queued qs') \<inter> dom (tasks s) \<subseteq> insert (current_task s) (queued qs)"
proof (cases "current_task s = NULL")
  case True
  then show ?thesis using ok by (auto simp: schedule_null)
next
  case False
  then obtain t where t: "tasks s (current_task s) = Some t" using ok by (auto simp: sched_ok_def)
  note cq = charged_queued [OF ok t]
  from ok False t show ?thesis
  proof (cases rule: scheduleE)
    case (queue k p ps s' u)
    have "insert p (queued ((charged (current_task s) t qs)[k := ps])) \<subseteq> insert (current_task s) (queued qs)"
      using cq(2) queued_pop_subset [OF cq(1) queue(1,2)] by simp
    then show ?thesis using queue(4,5,6,10) by (intro exI conjI) auto
  next
    case (idle p s' u)
    have "p \<notin> dom (tasks s)" using idle(6) ok by (auto simp: sched_ok_def sched_wf_def)
    then show ?thesis using idle(2,3,4,10) cq(2) by (intro exI conjI) auto
  next
    case (stay s')
    then show ?thesis using cq(2) by (intro exI conjI) auto
  qed
qed

lemma timer_step:
  assumes ok: "sched_ok s qs"
  shows "\<exists>s' qs'. timer_interrupt_handler r s = Some s' \<and> sched_ok s' qs' \<and> dom (tasks s) \<subseteq> dom (tasks s') \<and>
    insert (current_task s') (queued qs') \<inter> dom (tasks s) \<subseteq> insert (current_task s) (queued qs)"
  using ok
proof (rule timer_prepares [where r = r])
  fix s1
  assume s1: "timer_interrupt_handler r s = schedule s1" "sched_ok s1 qs"
    "current_task s1 = current_task s" "dom (tasks s1) = dom (tasks s)"
  from schedule_step [OF s1(2)] show ?thesis unfolding s1(1,3,4) .
qed

lemma sched_ok_null: "sched_ok s qs \<Longrightarrow> tasks s NULL = None"
  using kh.null_not_live by (auto simp: sched_ok_def sched_wf_def)

lemma schedule_current:
  assumes ok: "sched_ok s qs" and c: "current_task s \<noteq> NULL"
  shows "\<exists>s' qs'. schedule s = Some s' \<and> sched_ok s' qs' \<and> current_task s' \<noteq> NULL"
proof -
  obtain t where t: "tasks s (current_task s) = Some t" using ok c by (auto simp: sched_ok_def)
  from ok c t show ?thesis
  proof (cases rule: scheduleE)
    case (queue k p ps s' u)
    then have "p \<noteq> NULL" using sched_ok_null by force
    then show ?thesis using queue(4-6) by blast
  next
    case (idle p s' u)
    then show ?thesis by blast
  next
    case (stay s')
    then show ?thesis using c by auto
  qed
qed

lemma take_next_ticks: "take_next n s = Some (p, s') \<Longrightarrow> system_ticks s' = system_ticks s"
  by (induction n) (auto simp: mod_task_def Let_def bind_eq_Some_conv split: if_splits)

lemma create_idle_task_ticks: "create_idle_task s = Some (p, s') \<Longrightarrow> system_ticks s' = system_ticks s"
  by (auto simp: create_idle_task_def mod_task_def free_task_def Let_def bind_eq_Some_conv split: if_splits)

lemma charge_current_ticks: "charge_current s = Some s' \<Longrightarrow> system_ticks s' = system_ticks s"
  by (auto simp: charge_current_def Let_def bind_eq_Some_conv split: if_splits)

lemma dispatch_ticks: "dispatch p s = Some s' \<Longrightarrow> system_ticks s' = system_ticks s"
  by (auto simp: dispatch_def mod_task_def bind_eq_Some_conv split: if_splits)

lemma schedule_ticks:
  assumes "schedule s = Some s'"
  shows "system_ticks s' = system_ticks s"
proof (cases "current_task s = NULL")
  case False
  then obtain s1 p s2 q s3 where "charge_current s = Some s1" "take_next (unat MAX_PRIORITY) s1 = Some (p, s2)"
    "(if p = NULL then create_idle_task s2 else Some (p, s2)) = Some (q, s3)" "(if q = NULL then Some s3 else dispatch q s3) = Some s'"
    using assms unfolding schedule_def by (simp add: bind_eq_Some_conv split: if_split) blast
  then show ?thesis
    by (metis charge_current_ticks take_next_ticks create_idle_task_ticks dispatch_ticks option.inject prod.inject)
qed (use assms in \<open>simp add: schedule_null\<close>)

text \<open>\<open>task_exit\<close> marks the current task, gives its page directory back and schedules.\<close>

lemma task_exit_prepares:
  assumes ok: "sched_ok s qs" and t: "tasks s (current_task s) = Some t"
    and d: "page_dir t = NULL \<or> page_dir t = kernel_dir s \<or> page_dir t \<in> kheap_live (heap s) - dom (tasks s)"
  obtains h where "task_exit s = schedule (s\<lparr>tasks := (tasks s)(current_task s \<mapsto> t\<lparr>state := TASK_ZOMBIE\<rparr>), heap := h\<rparr>)"
    "sched_ok (s\<lparr>tasks := (tasks s)(current_task s \<mapsto> t\<lparr>state := TASK_ZOMBIE\<rparr>), heap := h\<rparr>) qs"
    "page_dir t \<noteq> NULL \<Longrightarrow> page_dir t \<noteq> kernel_dir s \<Longrightarrow> kheap_live h = kheap_live (heap s) - {page_dir t}"
proof -
  have wf: "sched_wf s qs" using ok by (simp add: sched_ok_def)
  then have h0: "kheap_ok (heap s)" by (simp add: sched_wf_def)
  obtain h where h: "(if page_dir t \<noteq> NULL \<and> page_dir t \<noteq> kernel_dir s then kfree (page_dir t) (heap s) else Some (heap s)) = Some h"
    "kheap_ok h" "dom (tasks s) \<subseteq> kheap_live (heap s) \<longrightarrow> dom (tasks s) \<subseteq> kheap_live h"
    "page_dir t \<noteq> NULL \<Longrightarrow> page_dir t \<noteq> kernel_dir s \<Longrightarrow> kheap_live h = kheap_live (heap s) - {page_dir t}"
  proof (cases "page_dir t = NULL \<or> page_dir t = kernel_dir s")
    case True
    then show ?thesis using h0 by (intro that [of "heap s"]) auto
  next
    case False
    then have l: "page_dir t \<in> kheap_live (heap s)" "page_dir t \<notin> dom (tasks s)" using d by auto
    from kh.dealloc_live [OF h0 l(1)] show ?thesis using False l(2) by (auto intro!: that)
  qed
  let ?t = "t\<lparr>state := TASK_ZOMBIE\<rparr>" and ?c = "current_task s"
  let ?s = "s\<lparr>tasks := (tasks s)(?c \<mapsto> ?t), heap := h\<rparr>"
  have "sched_wf (s\<lparr>tasks := (tasks s)(?c \<mapsto> ?t)\<rparr>) qs"
    using wf t by (rule sched_wf_mod) simp_all
  then have "sched_wf ?s qs" using h(2,3) t by (auto simp: sched_wf_def queues_def next_of_def ran_def)
  then have "sched_ok ?s qs" using ok t by (auto simp: sched_ok_def)
  moreover have "task_exit s = schedule ?s"
    using t h(1) by (auto simp: task_exit_def mod_task_def split: if_splits)
  ultimately show thesis using that h(4) by blast
qed

lemma sched_step_ok:
  assumes "sched_step s s'" "sched_ok s qs"
  shows "\<exists>qs'. sched_ok s' qs' \<and> dom (tasks s) \<subseteq> dom (tasks s') \<and>
    insert (current_task s') (queued qs') \<inter> dom (tasks s) \<subseteq> insert (current_task s) (queued qs)"
  using assms(1)
proof (cases rule: sched_step.cases)
  case (tick r)
  then show ?thesis using timer_step [OF assms(2), of r] by auto
next
  case (create e nm prio p)
  from sched_ok_create [OF assms(2) create(2), of e prio] create(1)
  consider "current_task s' = current_task s" "sched_ok s' qs" "tasks s' = tasks s"
    | t where "current_task s' = current_task s" "prio < MAX_PRIORITY" "p \<notin> dom (tasks s)" "tasks s' = (tasks s)(p \<mapsto> t)"
      "sched_ok s' (qs[unat prio := p # qs ! unat prio])"
    by auto
  then show ?thesis
  proof cases
    case (2 t)
    have "queued (qs[unat prio := p # qs ! unat prio]) = insert p (queued qs)"
      using 2(2) sched_ok_length [OF assms(2)] by (intro queued_push) (auto simp: unat_prio)
    then show ?thesis using 2 by (intro exI [of _ "qs[unat prio := p # qs ! unat prio]"]) auto
  qed auto
qed

lemma lost_step: "sched_step s s' \<Longrightarrow> lost c s \<Longrightarrow> lost c s'"
proof -
  assume st: "sched_step s s'" and "lost c s"
  then obtain qs where qs: "c \<in> dom (tasks s)" "current_task s \<noteq> c" "sched_ok s qs" "c \<notin> queued qs"
    by (auto simp: lost_def)
  obtain qs' where q': "sched_ok s' qs'" "dom (tasks s) \<subseteq> dom (tasks s')"
    "insert (current_task s') (queued qs') \<inter> dom (tasks s) \<subseteq> insert (current_task s) (queued qs)"
    by (rule exE [OF sched_step_ok [OF st qs(3)]]) (elim conjE, rule that)
  have "c \<notin> insert (current_task s') (queued qs')"
    using subsetD [OF q'(3), of c] qs(1,2,4) by auto
  then show ?thesis unfolding lost_def using q'(1,2) qs(1) by blast
qed

inductive sched_reachable :: "sched \<Rightarrow> bool" where
  boot: "unbooted s \<Longrightarrow> sched_init s = Some s' \<Longrightarrow> sched_reachable s'"
| step: "sched_reachable s \<Longrightarrow> sched_step s s' \<Longrightarrow> sched_reachable s'"

lemma sched_init_ok:
  assumes "unbooted s" "sched_init s = Some s'"
  shows "\<exists>qs. sched_ok s' qs"
  using assms(1) by (cases rule: sched_initE) (use assms(2) in auto)

lemma sched_reachable_ok: "sched_reachable s \<Longrightarrow> \<exists>qs. sched_ok s qs"
proof (induction rule: sched_reachable.induct)
  case (boot s s')
  then show ?case by (rule sched_init_ok)
next
  case (step s s')
  then show ?case using sched_step_ok by blast
qed

subsection \<open>A machine to boot\<close>

definition machine0 :: sched where
  "machine0 = \<lparr>ready_queue = replicate 16 NULL, current_task = NULL, next_pid = 1, system_ticks = 0,
     tasks = Map.empty, heap = init_kheap kheap_boot, kernel_dir = 0x100000, dirs = (\<lambda>_. []),
     idle_entry = 0x101000, init_entry = 0x102000, switches = []\<rparr>"

lemma machine0_unbooted: "unbooted machine0"
  by (simp add: unbooted_def machine0_def kheap_ok_init)

lemma create_idle_task_room:
  assumes "heap_room (heap s) r" "5000 \<le> r" "create_idle_task s = Some (p, s')"
  shows "p \<noteq> NULL \<and> heap_room (heap s') (r - 4288)"
proof -
  have n: "unat (align_size sizeof_task + 16) = 176" "unat (align_size 4096 + 16) = 4112" "sizeof_task \<noteq> 0"
    by (simp_all add: align_size_def sizeof_task_def)
  obtain a h1 where a: "kmalloc sizeof_task (heap s) = Some (a, h1)" "a \<noteq> NULL" "heap_room h1 (r - 176)"
    using kmalloc_room [OF assms(1) n(3) sizes_small(1)] n(1) assms(2) by auto
  have le: "4136 \<le> r - 176" using assms(2) by arith
  obtain b h2 where b: "kmalloc 4096 h1 = Some (b, h2)" "b \<noteq> NULL" "heap_room h2 (r - 176 - 4112)"
    using kmalloc_room [OF a(3) _ sizes_small(3)] n(2) le by auto
  show ?thesis using assms(3) a b
    by (auto simp: create_idle_task_def copy_name_def mod_task_def Let_def diff_diff_left)
qed

lemma create_task_room:
  assumes "heap_room (heap s) r" "9000 \<le> r" "prio < MAX_PRIORITY"
    and "create_task e nm prio s = Some (p, s')" "length nm < 32"
  shows "p \<noteq> NULL \<and> heap_room (heap s') (r - 8400)"
proof -
  have n: "unat (align_size sizeof_task + 16) = 176" "unat (align_size 4096 + 16) = 4112"
    "unat (align_size sizeof_page_directory + 16) = 4112" "sizeof_task \<noteq> 0" "sizeof_page_directory \<noteq> 0"
    by (simp_all add: align_size_def sizeof_task_def sizeof_page_directory_def)
  obtain a h1 where a: "kmalloc sizeof_task (heap s) = Some (a, h1)" "a \<noteq> NULL" "heap_room h1 (r - 176)"
    using kmalloc_room [OF assms(1) n(4) sizes_small(1)] n(1) assms(2) by auto
  have le: "4136 \<le> r - 176" "4136 \<le> r - 176 - 4112" using assms(2) by arith+
  obtain b h2 where b: "kmalloc sizeof_page_directory h1 = Some (b, h2)" "b \<noteq> NULL" "heap_room h2 (r - 176 - 4112)"
    using kmalloc_room [OF a(3) n(5) sizes_small(2)] n(3) le(1) by auto
  obtain c h3 where c: "kmalloc 4096 h2 = Some (c, h3)" "c \<noteq> NULL" "heap_room h3 (r - 176 - 4112 - 4112)"
    using kmalloc_room [OF b(3) _ sizes_small(3)] n(2) le(2) by auto
  have np: "\<not> prio \<ge> MAX_PRIORITY" using assms(3) by simp
  show ?thesis using assms(4,5) a b c np
    by (auto simp: create_task_def copy_name_def mod_task_def Let_def diff_diff_left)
qed

lemma machine0_boots:
  obtains s a b t where "sched_init machine0 = Some s" "a \<noteq> b"
      "sched_ok s ((replicate 16 [])[0 := [a], 5 := [b]])" "current_task s = a" "tasks s a = Some t"
      "time_slice t = TIME_SLICE" "priority t = 0" "map_option time_slice (tasks s b) = Some TIME_SLICE"
      "a \<noteq> NULL" "b \<noteq> NULL"
  using machine0_unbooted
proof (cases rule: sched_initE)
  case (fail s qs)
  have r: "heap_room (heap (machine0\<lparr>ready_queue := q\<rparr>)) 0x1000000" for q
    using heap_room_init [of kheap_boot] by (simp add: machine0_def)
  have "current_task s \<noteq> NULL"
  proof -
    let ?m = "machine0\<lparr>ready_queue := replicate (unat MAX_PRIORITY) NULL\<rparr>"
    obtain p s1 where p: "create_idle_task ?m = Some (p, s1)"
      using fail(1) by (auto simp: sched_init_def bind_eq_Some_conv)
    have p0: "p \<noteq> NULL" "heap_room (heap s1) (0x1000000 - 4288)" using create_idle_task_room [OF r _ p] by auto
    let ?s1 = "s1\<lparr>ready_queue := (ready_queue s1)[0 := p]\<rparr>"
    obtain q s2 where q: "create_task (init_entry s1) ''init'' 5 ?s1 = Some (q, s2)"
      using fail(1) p p0(1) by (auto simp: sched_init_def bind_eq_Some_conv)
    have "heap_room (heap ?s1) (0x1000000 - 4288)" using p0(2) by simp
    then have "q \<noteq> NULL" using create_task_room [OF _ _ _ q] by (simp add: MAX_PRIORITY_def)
    then show ?thesis using fail(1) p p0(1) q by (auto simp: sched_init_def)
  qed
  then show thesis using fail(3) by simp
next
  case (boot s a b t)
  then show thesis by (rule that)
qed

text \<open>A single running task of priority 5 at the end of its time slice.\<close>

lemma lone_task:
  obtains s c t where "sched_ok s (replicate 16 [])" "current_task s = c" "c \<noteq> NULL" "tasks s = [c \<mapsto> t]"
    "time_slice t = 1" "priority t = 5" "page_dir t \<in> kheap_live (heap s)" "page_dir t \<noteq> c"
    "page_dir t \<noteq> NULL" "page_dir t \<noteq> kernel_dir s"
proof -
  have h: "kheap_ok (heap machine0)" "dom (tasks machine0) \<subseteq> kheap_live (heap machine0)"
    "length ''task'' < 32" "5 < MAX_PRIORITY" "heap_room (heap machine0) 0x1000000"
    using heap_room_init by (auto simp: machine0_def kheap_ok_init MAX_PRIORITY_def)
  from h(1-4) show thesis
  proof (cases rule: create_taskE [where e = 0])
    case (fail h' n' ds)
    then show thesis using create_task_room [OF h(5) _ h(4) fail(1)] by simp
  next
    case (got p d k t h')
    let ?t = "t\<lparr>time_slice := 1\<rparr>"
    let ?s = "machine0\<lparr>heap := h', tasks := [p \<mapsto> ?t], current_task := p\<rparr>"
    have pr: "priority t = 5" "page_dir t = d" using got(8) by (simp_all add: task_zero_def)
    have "sched_ok ?s (replicate 16 [])"
      using got(4,7) pr by (auto simp: sched_ok_def sched_wf_def queues_def queued_def machine0_def MAX_PRIORITY_def)
    moreover have "d \<noteq> 0x100000"
      using got(4,7) kheap_live_range [of d h'] by auto
    ultimately show thesis using got(2,3,5,7) pr
      by (intro that [of ?s p ?t]) (auto simp: machine0_def)
  qed
qed

lemma charged_expired:
  assumes "sched_ok s qs" "tasks s c = Some t" "time_slice t = 1"
  shows "charged c t qs ! unat (priority t) = c # qs ! unat (priority t)"
    and "j \<noteq> unat (priority t) \<Longrightarrow> charged c t qs ! j = qs ! j" "unat (priority t) < 16"
    and "(charged c t qs)[unat (priority t) := qs ! unat (priority t)] = qs"
proof -
  show k: "unat (priority t) < 16" using assms by (auto simp: sched_ok_def sched_wf_def ran_def unat_prio)
  show "charged c t qs ! unat (priority t) = c # qs ! unat (priority t)"
    "j \<noteq> unat (priority t) \<Longrightarrow> charged c t qs ! j = qs ! j"
    "(charged c t qs)[unat (priority t) := qs ! unat (priority t)] = qs"
    using k sched_ok_length [OF assms(1)] assms(3) by (auto simp: charged_def Let_def)
qed

lemma schedule_takes:
  assumes ok: "sched_ok s qs" and c: "current_task s \<noteq> NULL" "tasks s (current_task s) = Some t"
    and k: "k < 16" "charged (current_task s) t qs ! k = p # ps"
      "\<And>j. k < j \<Longrightarrow> j < 16 \<Longrightarrow> charged (current_task s) t qs ! j = []"
  obtains s' u where "schedule s = Some s'" "current_task s' = p" "tasks s' p = Some u"
    "state u = TASK_RUNNING" "sched_ok s' ((charged (current_task s) t qs)[k := ps])" "heap s' = heap s"
    "p \<notin> queued ((charged (current_task s) t qs)[k := ps])" "dom (tasks s') = dom (tasks s)"
    "map_option page_dir (tasks s p) = Some (page_dir u)"
    "p \<noteq> current_task s \<Longrightarrow> map_option time_slice (tasks s p) = Some (time_slice u)"
  using ok c
proof (cases rule: scheduleE)
  case (queue k' p' ps' s' u)
  have "\<not> k' < k" "\<not> k < k'" using queue(1-3) k by fastforce+
  then have "k' = k" by simp
  then have "p' = p" "ps' = ps" using queue(2) k(2) by auto
  then show thesis using queue \<open>k' = k\<close> queue(12,13) [of p] by (intro that [of s' u]) auto
next
  case (idle p' s' u)
  then show thesis using k(1,2) by fastforce
next
  case (stay s')
  then show thesis using k(1,2) by fastforce
qed

subsection \<open>Properties\<close>

text \<open>C1: \<open>schedule\<close> obeys priorities. From a well-formed state it returns, and when a task is ready
  (the current one included if its time slice has just ended) the new current task is the first
  task of the highest non-empty queue: it is marked running and taken from that queue, and all
  queues stay well formed.\<close>

theorem schedule_highest_priority:
  assumes "sched_ok s qs" "current_task s \<noteq> NULL" "tasks s (current_task s) = Some t"
    and "k < 16" "charged (current_task s) t qs ! k = p # ps"
    and "\<forall>j. k < j \<and> j < 16 \<longrightarrow> charged (current_task s) t qs ! j = []"
  shows "\<exists>s' u. schedule s = Some s' \<and> current_task s' = p \<and> tasks s' p = Some u \<and>
    state u = TASK_RUNNING \<and> sched_ok s' ((charged (current_task s) t qs)[k := ps]) \<and>
    p \<notin> queued ((charged (current_task s) t qs)[k := ps])"
  by (rule schedule_takes [OF assms(1-5)]) (use assms(6) in blast)+

theorem schedule_highest_priority_witness:
  "\<exists>s s' a b. sched_init machine0 = Some s \<and> sched_ok s ((replicate 16 [])[0 := [a], 5 := [b]]) \<and>
     current_task s = a \<and> schedule s = Some s' \<and> current_task s' = b"
proof -
  obtain s a b t where s: "sched_init machine0 = Some s" "a \<noteq> b"
      "sched_ok s ((replicate 16 [])[0 := [a], 5 := [b]])" "current_task s = a" "tasks s a = Some t"
      "time_slice t = TIME_SLICE" "priority t = 0" "a \<noteq> NULL"
    by (rule machine0_boots)
  have c: "charged a t ((replicate 16 [])[0 := [a], 5 := [b]]) = (replicate 16 [])[0 := [a], 5 := [b]]"
    by (simp add: charged_def s(6) TIME_SLICE_def)
  obtain s' where "schedule s = Some s'" "current_task s' = b"
    using schedule_highest_priority [OF s(3), of t 5 b "[]"] s by (auto simp: c nth_list_update)
  with s(1,3,4) show ?thesis by (intro exI conjI)
qed

text \<open>C2: The scheduler's queues stay well formed for ever. In every state that \<open>sched_init\<close>, timer
  interrupts and \<open>create_task\<close> can reach, the ready queues are finite acyclic lists of existing
  tasks, each task at most once and in the queue of its priority; the next timer interrupt and
  the next \<open>create_task\<close> return.\<close>

theorem sched_invariant:
  assumes "sched_reachable s"
  shows "\<exists>qs. sched_ok s qs \<and> (\<forall>r. \<exists>s'. timer_interrupt_handler r s = Some s') \<and>
    (\<forall>e nm prio. length nm < 32 \<longrightarrow> (\<exists>p s'. create_task e nm prio s = Some (p, s')))"
proof -
  obtain qs where ok: "sched_ok s qs" using sched_reachable_ok [OF assms] by blast
  have "\<exists>s'. timer_interrupt_handler r s = Some s'" for r using timer_step [OF ok, of r] by blast
  moreover have "\<exists>p s'. create_task e nm prio s = Some (p, s')" if "length nm < 32" for e nm prio
    using sched_ok_create [OF ok that, of e prio] by blast
  ultimately show ?thesis using ok by blast
qed

theorem sched_invariant_witness:
  "\<exists>s. sched_init machine0 = Some s \<and> current_task s \<noteq> NULL \<and>
     (\<forall>r. \<exists>s'. timer_interrupt_handler r s = Some s')"
proof -
  obtain s a where s: "sched_init machine0 = Some s" "current_task s = a" "a \<noteq> NULL"
    using machine0_boots by metis
  have "sched_reachable s" using machine0_unbooted s(1) by (rule sched_reachable.boot)
  then show ?thesis using sched_invariant [of s] s by blast
qed

text \<open>C3: \<open>create_task\<close>, on every branch. An invalid priority or a lack of memory gives \<open>NULL\<close>, no
  task, and gives back all memory taken on the way. Otherwise the new task is a fresh object,
  ready, with the next pid, the given name and priority, its own page directory (a copy of the
  kernel's) and kernel stack in new memory and a context that starts at the entry point, and it
  is the first of the queue of its priority.\<close>

theorem create_task_links:
  assumes "sched_ok s qs" "length nm < 32"
  shows "\<exists>p s'. create_task e nm prio s = Some (p, s') \<and>
    (p = NULL \<and> sched_ok s' qs \<and> tasks s' = tasks s \<and> kheap_live (heap s') = kheap_live (heap s) \<or>
     p \<noteq> NULL \<and> prio < MAX_PRIORITY \<and> p \<notin> dom (tasks s) \<and>
     sched_ok s' (qs[unat prio := p # qs ! unat prio]) \<and>
     (\<exists>t. tasks s' = (tasks s)(p \<mapsto> t) \<and> pid t = next_pid s \<and> state t = TASK_READY \<and>
        priority t = prio \<and> name t = nm \<and> parent t = current_task s \<and>
        regs t = kernel_context e (kernel_stack_top t) \<and>
        page_dir t \<in> kheap_live (heap s') - kheap_live (heap s) \<and>
        kernel_stack_top t - 4096 \<in> kheap_live (heap s') - kheap_live (heap s) \<and>
        dirs s' (page_dir t) = dirs s (kernel_dir s)))"
  using sched_ok_create [OF assms, of e prio] by blast

theorem create_task_links_witness:
  "\<exists>s p s'. sched_init machine0 = Some s \<and> create_task 0x103000 ''shell'' 7 s = Some (p, s') \<and>
     create_task 0x103000 ''shell'' 16 s = Some (NULL, s)"
proof -
  obtain s a b where s: "sched_init machine0 = Some s" "sched_ok s ((replicate 16 [])[0 := [a], 5 := [b]])"
    using machine0_boots by metis
  then show ?thesis
    using create_task_links [OF s(2), of "''shell''" "0x103000" 7]
    by (auto simp: create_task_def [of _ _ 16] MAX_PRIORITY_def)
qed

text \<open>A task that is not queued and has time left is lost when another is ready.\<close>

lemma schedule_loses:
  assumes "sched_ok s qs" "current_task s \<noteq> NULL" "tasks s (current_task s) = Some t"
    and "time_slice t \<noteq> 1" "current_task s \<notin> queued qs" "queued qs \<noteq> {}"
  shows "\<exists>s'. schedule s = Some s' \<and> lost (current_task s) s'"
proof -
  have ch: "charged (current_task s) t qs = qs" using charged_queued(3) [OF assms(1,3,4)] .
  from assms(1-3) show ?thesis
  proof (cases rule: scheduleE)
    case (queue k p ps s' u)
    have sub: "insert p (queued (qs[k := ps])) = queued qs"
      using queued_pop_subset [OF sched_ok_length [OF assms(1)] queue(1)] queue(2) ch by simp
    then have "current_task s \<noteq> p" "current_task s \<notin> queued (qs[k := ps])" using assms(5) by auto
    then show ?thesis using queue ch assms(3) unfolding lost_def by auto
  qed (use assms(6) ch in \<open>auto simp: queued_def\<close>)
qed

text \<open>The first tick after the boot: the init task runs, the idle task is queued.\<close>

lemma first_tick:
  obtains s s1 a b u where "sched_init machine0 = Some s" "schedule s = Some s1" "current_task s1 = b" "b \<noteq> NULL"
    "sched_ok s1 ((replicate 16 [])[0 := [a], 5 := []])" "tasks s1 b = Some u" "time_slice u = TIME_SLICE" "a \<noteq> b"
    "queued ((replicate 16 [])[0 := [a], 5 := []]) = {a}"
proof -
  obtain s a b t where s: "sched_init machine0 = Some s" "a \<noteq> b"
      "sched_ok s ((replicate 16 [])[0 := [a], 5 := [b]])" "current_task s = a" "tasks s a = Some t"
      "time_slice t = TIME_SLICE" "priority t = 0" "map_option time_slice (tasks s b) = Some TIME_SLICE"
      "a \<noteq> NULL" "b \<noteq> NULL"
    by (rule machine0_boots)
  have c: "charged a t ((replicate 16 [])[0 := [a], 5 := [b]]) = (replicate 16 [])[0 := [a], 5 := [b]]"
    by (simp add: charged_def s(6) TIME_SLICE_def)
  have q: "((replicate 16 [])[0 := [a], 5 := [b]])[5 := []] = (replicate 16 [])[0 := [a], 5 := []]" by simp
  obtain s1 u where s1: "schedule s = Some s1" "current_task s1 = b" "tasks s1 b = Some u"
    "sched_ok s1 ((replicate 16 [])[0 := [a], 5 := []])" "time_slice u = TIME_SLICE"
    by (rule schedule_takes [OF s(3), of t 5 b "[]"]) (use s in \<open>auto simp: c q nth_list_update\<close>)
  have "queued ((replicate 16 [])[0 := [a], 5 := []]) = {a}"
    by (auto simp: queued_def nth_list_update split: if_splits)
  then show thesis using that s s1 by metis
qed

text \<open>C4: A task that loses the processor before its time slice has ended is lost. \<open>schedule\<close> runs on
  every tick and takes the next task from the queues, but puts the current one back only when its
  time slice has ended: if the current task is not queued, has time left and any task is ready,
  then after \<open>schedule\<close> it is neither current nor in any queue, and no sequence of timer
  interrupts and new tasks ever runs it again. After \<open>sched_init\<close> this happens to the init
  task on the second tick.\<close>

theorem schedule_loses_current:
  assumes "sched_ok s qs" "current_task s \<noteq> NULL" "tasks s (current_task s) = Some t"
    and "time_slice t \<noteq> 1" "current_task s \<notin> queued qs" "queued qs \<noteq> {}"
  shows "\<exists>s'. schedule s = Some s' \<and> (\<forall>s''. sched_step\<^sup>*\<^sup>* s' s'' \<longrightarrow> lost (current_task s) s'')"
proof -
  obtain s' where s': "schedule s = Some s'" "lost (current_task s) s'" using schedule_loses [OF assms] by blast
  have "lost (current_task s) s''" if "sched_step\<^sup>*\<^sup>* s' s''" for s''
    using that s'(2) by (induction rule: rtranclp_induct) (auto intro: lost_step)
  with s'(1) show ?thesis by blast
qed

theorem schedule_loses_current_witness:
  "\<exists>s s1 s2 init. sched_init machine0 = Some s \<and> schedule s = Some s1 \<and> current_task s1 = init \<and>
     schedule s1 = Some s2 \<and> (\<forall>s''. sched_step\<^sup>*\<^sup>* s2 s'' \<longrightarrow> lost init s'')"
proof -
  obtain s s1 a b u where s: "sched_init machine0 = Some s" "schedule s = Some s1" "current_task s1 = b" "b \<noteq> NULL"
    "sched_ok s1 ((replicate 16 [])[0 := [a], 5 := []])" "tasks s1 b = Some u" "time_slice u = TIME_SLICE" "a \<noteq> b"
    "queued ((replicate 16 [])[0 := [a], 5 := []]) = {a}" by (rule first_tick)
  have "time_slice u \<noteq> 1" using s(7) by (simp add: TIME_SLICE_def)
  then have "\<exists>s2. schedule s1 = Some s2 \<and> (\<forall>s''. sched_step\<^sup>*\<^sup>* s2 s'' \<longrightarrow> lost b s'')"
    using schedule_loses_current [OF s(5)] s(3,4,6,8,9) by auto
  then show ?thesis using s(1-3) by blast
qed

text \<open>There is no round robin. A task whose time slice ends goes to the head of its queue, not to
  its end: unless a task of higher priority is ready it is chosen again at once with a new time
  slice, and the other tasks of its priority (\<open>qs\<close> is unchanged) wait for ever.\<close>

theorem expired_task_keeps_cpu:
  assumes "sched_ok s qs" "current_task s \<noteq> NULL" "tasks s (current_task s) = Some t" "time_slice t = 1"
    and "\<forall>j. unat (priority t) < j \<and> j < 16 \<longrightarrow> qs ! j = []"
  shows "\<exists>s'. schedule s = Some s' \<and> current_task s' = current_task s \<and> sched_ok s' qs"
proof -
  note ce = charged_expired [OF assms(1,3,4)]
  have "charged (current_task s) t qs ! j = []" if "unat (priority t) < j" "j < 16" for j
    using that assms(5) ce(2) by auto
  then show ?thesis
    using schedule_takes [OF assms(1-3) ce(3,1)] ce(4) by metis
qed

theorem expired_task_keeps_cpu_witness:
  "\<exists>s s'. sched_ok s (replicate 16 []) \<and> current_task s \<noteq> NULL \<and> schedule s = Some s' \<and>
     current_task s' = current_task s"
proof -
  obtain s c t where s: "sched_ok s (replicate 16 [])" "current_task s = c" "c \<noteq> NULL" "tasks s = [c \<mapsto> t]"
    "time_slice t = 1" by (rule lone_task)
  then show ?thesis using expired_task_keeps_cpu [OF s(1), of t] by auto
qed

text \<open>C5: A task that exits on the last tick of its time slice lives on. \<open>task_exit\<close> marks the task as
  a zombie and frees its page directory, then calls \<open>schedule\<close>, which charges the tick, sees the
  time slice end, marks the task ready and queues it; without a ready task of higher priority
  it is at once current and running again, with a page directory that has been freed.\<close>

theorem task_exit_resurrects:
  assumes "sched_ok s qs" "current_task s = c" "c \<noteq> NULL" "tasks s c = Some t" "time_slice t = 1"
    and "\<forall>j. unat (priority t) < j \<and> j < 16 \<longrightarrow> qs ! j = []"
    and "page_dir t \<in> kheap_live (heap s)" "page_dir t \<noteq> kernel_dir s" "page_dir t \<notin> dom (tasks s)"
  shows "\<exists>s' u. task_exit s = Some s' \<and> current_task s' = c \<and> tasks s' c = Some u \<and>
    state u = TASK_RUNNING \<and> page_dir u = page_dir t \<and> page_dir u \<notin> kheap_live (heap s')"
proof -
  have "kheap_ok (heap s)" using assms(1) by (simp add: sched_ok_def sched_wf_def)
  then have d0: "page_dir t \<noteq> NULL" using kh.null_not_live assms(7) by auto
  obtain h' where e: "task_exit s = schedule (s\<lparr>tasks := (tasks s)(c \<mapsto> t\<lparr>state := TASK_ZOMBIE\<rparr>), heap := h'\<rparr>)"
    and ok: "sched_ok (s\<lparr>tasks := (tasks s)(c \<mapsto> t\<lparr>state := TASK_ZOMBIE\<rparr>), heap := h'\<rparr>) qs"
    and h': "kheap_live h' = kheap_live (heap s) - {page_dir t}"
    using task_exit_prepares [OF assms(1), of t] assms(2,4,7-9) d0 by auto
  let ?t = "t\<lparr>state := TASK_ZOMBIE\<rparr>"
  let ?s = "s\<lparr>tasks := (tasks s)(c \<mapsto> ?t), heap := h'\<rparr>"
  note ce = charged_expired [OF ok, of c ?t]
  have hi: "charged c ?t qs ! j = []" if "unat (priority t) < j" "j < 16" for j
    using that assms(5,6) ce(2) by auto
  obtain s' u where s': "schedule ?s = Some s'" "current_task s' = c" "tasks s' c = Some u"
    "state u = TASK_RUNNING" "heap s' = h'" "page_dir u = page_dir t"
    by (rule schedule_takes [OF ok, of ?t "unat (priority t)" c "qs ! unat (priority t)"])
      (use ce hi assms(2,3,5) in auto)
  then show ?thesis using e h' by auto
qed

theorem task_exit_resurrects_witness:
  "\<exists>s s' u. current_task s \<noteq> NULL \<and> task_exit s = Some s' \<and> current_task s' = current_task s \<and>
     tasks s' (current_task s) = Some u \<and> state u = TASK_RUNNING \<and> page_dir u \<notin> kheap_live (heap s')"
proof -
  obtain s c t where s: "sched_ok s (replicate 16 [])" "current_task s = c" "c \<noteq> NULL" "tasks s = [c \<mapsto> t]"
    "time_slice t = 1" "priority t = 5" "page_dir t \<in> kheap_live (heap s)" "page_dir t \<noteq> c"
    "page_dir t \<noteq> NULL" "page_dir t \<noteq> kernel_dir s" by (rule lone_task)
  then show ?thesis using task_exit_resurrects [OF s(1,2,3), of t] by auto
qed

end
