(* ===== verification/Cstring.thy ===== *)
theory Cstring
  imports Prelude
begin

text \<open>
  The freestanding C library of the kernel: \<^verbatim>\<open>lib/mem.c\<close> and \<^verbatim>\<open>lib/string.c\<close>.

  Memory is a function from addresses to bytes; pointer arithmetic wraps at \<open>2^32\<close>. Loops that
  count a length down are recursive on that length. Loops that run until they meet a zero byte
  need not end in general and are partial functions into the option type: \<open>None\<close> is a loop that
  does not end, so every statement below that gives \<open>Some\<close> also says that the loop ends.
\<close>

type_synonym memory = "addr \<Rightarrow> u8"

subsection \<open>mem.c\<close>

fun copy_up :: "nat \<Rightarrow> addr \<Rightarrow> addr \<Rightarrow> memory \<Rightarrow> memory" where
  "copy_up 0 d s m = m"
| "copy_up (Suc n) d s m = copy_up n (d + 1) (s + 1) (m(d := m s))"

definition memcpy :: "addr \<Rightarrow> addr \<Rightarrow> u32 \<Rightarrow> memory \<Rightarrow> memory" where
  "memcpy dest src n m = copy_up (unat n) dest src m"

fun fill :: "nat \<Rightarrow> addr \<Rightarrow> u8 \<Rightarrow> memory \<Rightarrow> memory" where
  "fill 0 p c m = m"
| "fill (Suc n) p c m = fill n (p + 1) c (m(p := c))"

definition memset :: "addr \<Rightarrow> u32 \<Rightarrow> u32 \<Rightarrow> memory \<Rightarrow> memory" where
  "memset s c n m = fill (unat n) s (ucast c) m"

fun compare_up :: "nat \<Rightarrow> addr \<Rightarrow> addr \<Rightarrow> memory \<Rightarrow> int" where
  "compare_up 0 p1 p2 m = 0"
| "compare_up (Suc n) p1 p2 m =
     (if m p1 \<noteq> m p2 then uint (m p1) - uint (m p2) else compare_up n (p1 + 1) (p2 + 1) m)"

definition memcmp :: "addr \<Rightarrow> addr \<Rightarrow> u32 \<Rightarrow> memory \<Rightarrow> int" where
  "memcmp s1 s2 n m = compare_up (unat n) s1 s2 m"

text \<open>\<open>while (n--) *--d = *--s\<close>.\<close>

fun copy_down :: "nat \<Rightarrow> addr \<Rightarrow> addr \<Rightarrow> memory \<Rightarrow> memory" where
  "copy_down 0 d s m = m"
| "copy_down (Suc n) d s m = copy_down n (d - 1) (s - 1) (m(d - 1 := m (s - 1)))"

definition memmove :: "addr \<Rightarrow> addr \<Rightarrow> u32 \<Rightarrow> memory \<Rightarrow> memory" where
  "memmove dest src n m =
     (if dest < src then copy_up (unat n) dest src m
      else copy_down (unat n) (dest + n) (src + n) m)"

subsection \<open>string.c\<close>

partial_function (option) strlen_from :: "memory \<Rightarrow> addr \<Rightarrow> u32 \<Rightarrow> u32 option" where
  "strlen_from m str len = (if m (str + len) \<noteq> 0 then strlen_from m str (len + 1) else Some len)"

definition strlen :: "addr \<Rightarrow> memory \<Rightarrow> u32 option" where
  "strlen str m = strlen_from m str 0"

partial_function (option) strcmp :: "addr \<Rightarrow> addr \<Rightarrow> memory \<Rightarrow> int option" where
  "strcmp s1 s2 m = (if m s1 \<noteq> 0 \<and> m s1 = m s2 then strcmp (s1 + 1) (s2 + 1) m
     else Some (uint (m s1) - uint (m s2)))"

fun strncmp_loop :: "nat \<Rightarrow> addr \<Rightarrow> addr \<Rightarrow> memory \<Rightarrow> int" where
  "strncmp_loop 0 s1 s2 m = 0"
| "strncmp_loop (Suc n) s1 s2 m = (if m s1 \<noteq> 0 \<and> m s1 = m s2 then strncmp_loop n (s1 + 1) (s2 + 1) m
     else uint (m s1) - uint (m s2))"

definition strncmp :: "addr \<Rightarrow> addr \<Rightarrow> u32 \<Rightarrow> memory \<Rightarrow> int" where
  "strncmp s1 s2 n m = strncmp_loop (unat n) s1 s2 m"

text \<open>\<open>while ((*d++ = *src++) != 0)\<close>.\<close>

partial_function (option) strcpy :: "addr \<Rightarrow> addr \<Rightarrow> memory \<Rightarrow> memory option" where
  "strcpy d src m =
     (let m' = m(d := m src) in if m src \<noteq> 0 then strcpy (d + 1) (src + 1) m' else Some m')"

text \<open>
  \<open>strncpy\<close>: the first loop gives the place it has reached and the \<open>n\<close> it has left. It leaves the
  loop on a zero byte after storing it and without counting it.
\<close>

fun strncpy_copy :: "nat \<Rightarrow> addr \<Rightarrow> addr \<Rightarrow> memory \<Rightarrow> nat \<times> addr \<times> memory" where
  "strncpy_copy 0 d src m = (0, d, m)"
| "strncpy_copy (Suc n) d src m =
     (let m' = m(d := m src)
      in if m src \<noteq> 0 then strncpy_copy n (d + 1) (src + 1) m' else (Suc n, d + 1, m'))"

definition strncpy :: "addr \<Rightarrow> addr \<Rightarrow> u32 \<Rightarrow> memory \<Rightarrow> memory" where
  "strncpy dest src n m =
     (let (n', d, m) = strncpy_copy (unat n) dest src m in fill n' d 0 m)"

partial_function (option) strend :: "addr \<Rightarrow> memory \<Rightarrow> addr option" where
  "strend d m = (if m d \<noteq> 0 then strend (d + 1) m else Some d)"

definition strcat :: "addr \<Rightarrow> addr \<Rightarrow> memory \<Rightarrow> memory option" where
  "strcat dest src m = do { d \<leftarrow> strend dest m; strcpy d src m }"

partial_function (option) strchr :: "addr \<Rightarrow> u32 \<Rightarrow> memory \<Rightarrow> addr option" where
  "strchr str c m = (if m str \<noteq> 0
     then if m str = ucast c then Some str else strchr (str + 1) c m
     else Some NULL)"

text \<open>The inner loop of \<open>strstr\<close>, and whether it has reached the end of the needle.\<close>

partial_function (option) match_at :: "addr \<Rightarrow> addr \<Rightarrow> memory \<Rightarrow> bool option" where
  "match_at h_ptr n_ptr m = (if m n_ptr \<noteq> 0 \<and> m h_ptr = m n_ptr
     then match_at (h_ptr + 1) (n_ptr + 1) m else Some (m n_ptr = 0))"

partial_function (option) strstr_from :: "addr \<Rightarrow> addr \<Rightarrow> memory \<Rightarrow> addr option" where
  "strstr_from h needle m = (if m h \<noteq> 0
     then do { found \<leftarrow> match_at h needle m; if found then Some h else strstr_from (h + 1) needle m }
     else Some NULL)"

definition strstr :: "addr \<Rightarrow> addr \<Rightarrow> memory \<Rightarrow> addr option" where
  "strstr haystack needle m = (if m needle = 0 then Some haystack else strstr_from haystack needle m)"

text \<open>\<open>strtok\<close>: the static \<open>strtok_saveptr\<close> is part of the state.\<close>

partial_function (option) is_delim :: "addr \<Rightarrow> u8 \<Rightarrow> memory \<Rightarrow> bool option" where
  "is_delim d c m = (if m d \<noteq> 0 then if c = m d then Some True else is_delim (d + 1) c m
     else Some False)"

partial_function (option) strtok_from ::
  "addr \<Rightarrow> addr \<Rightarrow> addr \<Rightarrow> memory \<Rightarrow> (addr \<times> addr \<times> memory) option" where
  "strtok_from token_start saveptr delim m = (if m saveptr \<noteq> 0
     then do {
       hit \<leftarrow> is_delim delim (m saveptr) m;
       if hit then Some (token_start, saveptr + 1, m(saveptr := 0))
       else strtok_from token_start (saveptr + 1) delim m }
     else if token_start = saveptr then Some (NULL, saveptr, m)
     else Some (token_start, NULL, m))"

definition strtok :: "addr \<Rightarrow> addr \<Rightarrow> addr \<Rightarrow> memory \<Rightarrow> (addr \<times> addr \<times> memory) option" where
  "strtok str delim saveptr m =
     (let saveptr = (if str \<noteq> NULL then str else saveptr)
      in if saveptr = NULL then Some (NULL, saveptr, m)
         else strtok_from saveptr saveptr delim m)"

subsection \<open>Blocks and strings\<close>

text \<open>\<open>block m p xs\<close>: the bytes \<open>xs\<close> lie at \<open>p\<close>. \<open>cstr m p xs\<close>: the string \<open>xs\<close> (no zero byte in it) lies at
  \<open>p\<close>, closed by a zero byte.\<close>

fun block :: "memory \<Rightarrow> addr \<Rightarrow> u8 list \<Rightarrow> bool" where
  "block m p [] \<longleftrightarrow> True"
| "block m p (x # xs) \<longleftrightarrow> m p = x \<and> block m (p + 1) xs"

fun cstr :: "memory \<Rightarrow> addr \<Rightarrow> u8 list \<Rightarrow> bool" where
  "cstr m p [] \<longleftrightarrow> m p = 0"
| "cstr m p (x # xs) \<longleftrightarrow> x \<noteq> 0 \<and> m p = x \<and> cstr m (p + 1) xs"

text \<open>Offsets from a base address.\<close>

lemma unat_pred: "(x :: u32) \<noteq> 0 \<Longrightarrow> unat (x - 1) = unat x - 1"
  by (simp add: unat_minus_one)

lemma offset_step:
  assumes "a \<noteq> d"
  shows "unat (a - (d + 1) :: u32) = unat (a - d) - 1" "0 < unat (a - d)"
proof -
  have "a - d \<noteq> 0" using assms by simp
  then show "0 < unat (a - d)" "unat (a - (d + 1)) = unat (a - d) - 1"
    using unat_pred [of "a - d"] by (simp_all add: unat_gt_0 diff_diff_eq [symmetric])
qed

lemma unat_minus_1: "unat (- 1 :: u32) = 2 ^ 32 - 1"
  by (simp add: unsigned_minus_1_eq_mask mask_eq_exp_minus_1)

lemma offset_last: "n < 2 ^ 32 \<Longrightarrow> \<not> unat (d - (d + 1) :: u32) < n"
proof -
  assume n: "n < 2 ^ 32"
  have "d - (d + 1) = (- 1 :: u32)" by simp
  then show ?thesis using n by (simp only: unat_minus_1)
qed

subsection \<open>Copying\<close>

text \<open>\<open>apart d s n\<close>: no byte that \<open>copy_up n d s\<close> has still to read is written before.\<close>

definition apart :: "addr \<Rightarrow> addr \<Rightarrow> nat \<Rightarrow> bool" where
  "apart d s n \<longleftrightarrow> (\<forall>i j. i < j \<and> j < n \<longrightarrow> d + of_nat i \<noteq> s + of_nat j)"

lemma apart_Suc:
  assumes "apart d s (Suc n)"
  shows "apart (d + 1) (s + 1) n" "0 < j \<Longrightarrow> j \<le> n \<Longrightarrow> s + of_nat j \<noteq> d"
proof -
  show "apart (d + 1) (s + 1) n" unfolding apart_def
  proof (intro allI impI)
    fix i j assume "i < j \<and> j < n"
    then show "d + 1 + of_nat i \<noteq> s + 1 + of_nat j"
      using assms [unfolded apart_def, rule_format, of "Suc i" "Suc j"] by (simp add: ac_simps)
  qed
  show "0 < j \<Longrightarrow> j \<le> n \<Longrightarrow> s + of_nat j \<noteq> d"
    using assms [unfolded apart_def, rule_format, of 0 j] by auto
qed

lemma copy_up_apply:
  assumes "n \<le> 2 ^ 32" "apart d s n"
  shows "copy_up n d s m a = (if unat (a - d) < n then m (s + (a - d)) else m a)"
  using assms
proof (induction n arbitrary: d s m)
  case (Suc n)
  note ap = apart_Suc [OF Suc.prems(2)]
  have IH: "copy_up (Suc n) d s m a = (if unat (a - (d + 1)) < n
      then (m(d := m s)) (s + 1 + (a - (d + 1))) else (m(d := m s)) a)"
    unfolding copy_up.simps using Suc.prems(1) by (intro Suc.IH ap) simp
  show ?case
  proof (cases "a = d")
    case True
    then show ?thesis using IH offset_last [of n d] Suc.prems(1) by simp
  next
    case False
    note st = offset_step [OF False]
    have "s + (a - d) \<noteq> d" if "unat (a - d) \<le> n" using ap(2) [OF st(2) that] by simp
    then show ?thesis using IH st False by (auto simp: algebra_simps)
  qed
qed simp

lemma apart_below:
  assumes "unat d \<le> unat s" "unat s + n \<le> 2 ^ 32"
  shows "apart d s n"
  unfolding apart_def
proof (intro allI impI)
  fix i j assume ij: "i < j \<and> j < n"
  then have "unat (s + of_nat j) = unat s + j" "unat (d + of_nat i) = unat d + i"
    using assms by (simp_all add: unat_plus_small unat_of_nat_small)
  then show "d + of_nat i \<noteq> s + of_nat j" using ij assms(1) by auto
qed

lemma fill_apply:
  "n \<le> 2 ^ 32 \<Longrightarrow> fill n p c m a = (if unat (a - p) < n then c else m a)"
proof (induction n arbitrary: p m)
  case (Suc n)
  then have IH: "fill (Suc n) p c m a = (if unat (a - (p + 1)) < n then c else (m(p := c)) a)" by simp
  show ?case
  proof (cases "a = p")
    case True
    then show ?thesis using IH offset_last [of n p] Suc.prems by simp
  next
    case False
    then show ?thesis using IH offset_step [OF False] by auto
  qed
qed simp

lemma memset_apply: "memset p c n m a = (if a - p < n then ucast c else m a)"
  using unat_u32_less [of n] by (simp add: memset_def fill_apply word_less_nat_alt)

lemma memcpy_apply:
  "apart dest src (unat n) \<Longrightarrow> memcpy dest src n m a = (if a - dest < n then m (src + (a - dest)) else m a)"
  using unat_u32_less [of n] by (simp add: memcpy_def copy_up_apply word_less_nat_alt)

text \<open>The downward copy; \<open>d\<close> and \<open>s\<close> are the ends of the two areas.\<close>

lemma copy_down_apply:
  assumes "n < 2 ^ 32" "n \<le> unat s" "unat s \<le> unat d"
  shows "copy_down n d s m a = (if unat (d - 1 - a) < n then m (s - (d - a)) else m a)"
  using assms
proof (induction n arbitrary: d s m)
  case (Suc n)
  let ?m = "m(d - 1 := m (s - 1))"
  have nz: "s \<noteq> 0" "d \<noteq> 0" using Suc.prems by auto
  note u = unat_pred [OF nz(1)] unat_pred [OF nz(2)]
  have IH: "copy_down (Suc n) d s m a = (if unat (d - 1 - 1 - a) < n then ?m (s - 1 - (d - 1 - a)) else ?m a)"
    unfolding copy_down.simps using Suc.prems u by (intro Suc.IH) auto
  show ?case
  proof (cases "a = d - 1")
    case True
    have "d - 1 - 1 - a = - 1" using True by simp
    then have "\<not> unat (d - 1 - 1 - a) < n" using Suc.prems(1) by (simp only: unat_minus_1)
    then show ?thesis using IH True by simp
  next
    case False
    let ?k = "d - 1 - a"
    have k: "?k \<noteq> 0" using False by simp
    have e: "d - 1 - 1 - a = ?k - 1" "s - 1 - ?k = s - (d - a)" by (simp_all add: algebra_simps)
    have "s - 1 - ?k \<noteq> d - 1" if "unat ?k \<le> n"
    proof -
      have "?k \<le> s - 1" using that u(1) Suc.prems(2) by (simp add: word_le_nat_alt)
      then have "unat (s - 1 - ?k) = unat (s - 1) - unat ?k" by (rule unat_minus_le)
      moreover have "0 < unat ?k" using k by (simp add: unat_gt_0)
      moreover have "0 < unat (s - 1)" using that calculation(2) u(1) Suc.prems(2) by arith
      ultimately have "unat (s - 1 - ?k) < unat (d - 1)" using u Suc.prems(3) by linarith
      then show ?thesis by (metis less_irrefl)
    qed
    then have "?m (s - 1 - ?k) = m (s - (d - a))" if "unat ?k < Suc n"
      using that unfolding less_Suc_eq_le e(2) by (metis fun_upd_other)
    moreover have "0 < unat ?k" using k by (simp add: unat_gt_0)
    then have "unat (?k - 1) < n \<longleftrightarrow> unat ?k < Suc n" using unat_pred [OF k] by linarith
    moreover have "?m a = m a" using False by simp
    ultimately show ?thesis unfolding IH e(1) by simp
  qed
qed simp

lemma memmove_apply:
  assumes "unat dest + unat n < 2 ^ 32" "unat src + unat n < 2 ^ 32"
  shows "memmove dest src n m a = (if a - dest < n then m (src + (a - dest)) else m a)"
proof (cases "dest < src")
  case True
  then have "apart dest src (unat n)"
    using assms(2) by (intro apart_below) (simp_all add: word_less_nat_alt)
  then show ?thesis
    using True unat_u32_less [of n] by (simp add: memmove_def copy_up_apply word_less_nat_alt)
next
  case False
  have u: "unat (dest + n) = unat dest + unat n" "unat (src + n) = unat src + unat n"
    using assms by (simp_all add: unat_plus_small)
  have "copy_down (unat n) (dest + n) (src + n) m a =
      (if unat (dest + n - 1 - a) < unat n then m (src + n - (dest + n - a)) else m a)"
    using False u unat_u32_less [of n] by (intro copy_down_apply) (simp_all add: word_less_nat_alt)
  moreover have "dest + n - 1 - a < n \<longleftrightarrow> a - dest < n"
  proof (cases "n = 0")
    case False
    have up: "n - 1 - x < n" if "x < n" for x :: u32
      using that unat_pred [OF False] by (simp add: word_less_nat_alt unat_minus_le word_le_nat_alt)
    have le: "x < n \<longleftrightarrow> n - 1 - x < n" for x :: u32
      using up [of x] up [of "n - 1 - x"] by auto
    show ?thesis using le [of "a - dest"] by (simp add: algebra_simps)
  qed simp
  moreover have "src + n - (dest + n - a) = src + (a - dest)" by (simp add: algebra_simps)
  ultimately show ?thesis using False by (simp add: memmove_def word_less_nat_alt)
qed

subsection \<open>Strings\<close>

lemma strlen_from_cstr:
  "cstr m (str + len) xs \<Longrightarrow> strlen_from m str len = Some (len + of_nat (length xs))"
proof (induction xs arbitrary: len)
  case (Cons x xs)
  then show ?case
    using strlen_from.simps [of m str len] Cons.IH [of "len + 1"] by (simp add: ac_simps)
qed (simp add: strlen_from.simps)

lemma strlen_cstr: "cstr m str xs \<Longrightarrow> strlen str m = Some (of_nat (length xs))"
  using strlen_from_cstr [of m str 0] by (simp add: strlen_def)

lemma strend_cstr: "cstr m d xs \<Longrightarrow> strend d m = Some (d + of_nat (length xs))"
proof (induction xs arbitrary: d)
  case (Cons x xs)
  then show ?case using strend.simps [of d] by (simp add: ac_simps)
qed (simp add: strend.simps)

lemma cstr_cong: "(\<And>i. i \<le> length xs \<Longrightarrow> m' (p + of_nat i) = m (p + of_nat i)) \<Longrightarrow> cstr m' p xs = cstr m p xs"
proof (induction xs arbitrary: p)
  case Nil
  then show ?case using Nil [of 0] by simp
next
  case (Cons x xs)
  have "m' (p + 1 + of_nat i) = m (p + 1 + of_nat i)" if "i \<le> length xs" for i
    using Cons.prems [of "Suc i"] that by (simp add: ac_simps)
  then show ?case using Cons.IH [of "p + 1"] Cons.prems [of 0] by simp
qed

lemma cstr_unique: "cstr m p xs \<Longrightarrow> cstr m p ys \<Longrightarrow> xs = ys"
proof (induction xs arbitrary: p ys)
  case (Cons x xs)
  then show ?case by (cases ys) auto
qed (auto elim: cstr.elims)

lemma cstr_drop: "cstr m p xs \<Longrightarrow> k \<le> length xs \<Longrightarrow> cstr m (p + of_nat k) (drop k xs)"
proof (induction xs arbitrary: p k)
  case (Cons x xs)
  then show ?case by (cases k) (auto simp: ac_simps dest: Cons.IH)
qed simp

lemma cstr_nth: "cstr m p xs \<Longrightarrow> i < length xs \<Longrightarrow> m (p + of_nat i) = xs ! i \<and> xs ! i \<noteq> 0"
proof (induction xs arbitrary: p i)
  case (Cons x xs)
  then show ?case by (cases i) (auto simp: ac_simps dest: Cons.IH)
qed simp

lemma cstr_end: "cstr m p xs \<Longrightarrow> m (p + of_nat (length xs)) = 0"
  using cstr_drop [of m p xs "length xs"] by simp

lemma strcmp_cstr:
  assumes "cstr m s1 xs" "cstr m s2 ys"
  shows "\<exists>r. strcmp s1 s2 m = Some r \<and> (r = 0 \<longleftrightarrow> xs = ys) \<and> (r < 0 \<longleftrightarrow> (xs, ys) \<in> lexord {(x, y). x < y})"
  using assms
proof (induction xs arbitrary: s1 s2 ys)
  case Nil
  then show ?case
    by (cases ys) (auto simp: strcmp.simps [of s1] uint_0_iff word_less_def
        intro!: order_neq_le_trans)
next
  case (Cons x xs)
  show ?case
  proof (cases ys)
    case Nil
    then show ?thesis using Cons.prems by (auto simp: strcmp.simps [of s1] uint_0_iff not_less)
  next
    case (Cons y zs)
    show ?thesis
    proof (cases "x = y")
      case True
      then have "strcmp s1 s2 m = strcmp (s1 + 1) (s2 + 1) m"
        using Cons.prems Cons by (simp add: strcmp.simps [of s1])
      then show ?thesis using Cons.IH [of "s1 + 1" "s2 + 1" zs] Cons.prems Cons True by auto
    next
      case False
      then have "strcmp s1 s2 m = Some (uint x - uint y)"
        using Cons.prems Cons by (simp add: strcmp.simps [of s1])
      then show ?thesis using False Cons by (auto simp: word_less_def word_uint_eq_iff)
    qed
  qed
qed

text \<open>Copying a string is copying its bytes with the closing zero.\<close>

definition separate :: "addr \<Rightarrow> nat \<Rightarrow> addr \<Rightarrow> nat \<Rightarrow> bool" where
  "separate p k q l \<longleftrightarrow> (\<forall>i < k. \<forall>j < l. p + of_nat i \<noteq> q + of_nat j)"

lemma separate_Suc:
  assumes "separate p (Suc k) q (Suc l)"
  shows "separate (p + 1) k (q + 1) l" "j < Suc l \<Longrightarrow> q + of_nat j \<noteq> p"
proof -
  show "j < Suc l \<Longrightarrow> q + of_nat j \<noteq> p"
    using assms [unfolded separate_def, rule_format, of 0 j] by auto
  show "separate (p + 1) k (q + 1) l" unfolding separate_def
  proof (intro allI impI)
    fix i j assume "i < k" "j < l"
    then show "p + 1 + of_nat i \<noteq> q + 1 + of_nat j"
      using assms [unfolded separate_def, rule_format, of "Suc i" "Suc j"] by (simp add: ac_simps)
  qed
qed

lemma separate_apart: "separate d k s n \<Longrightarrow> n \<le> k \<Longrightarrow> apart d s n"
  by (auto simp: separate_def apart_def)

lemma separate_mono: "separate p k q l \<Longrightarrow> k' \<le> k \<Longrightarrow> l' \<le> l \<Longrightarrow> separate p k' q l'"
  by (auto simp: separate_def)

lemma cstr_write_outside:
  assumes "cstr m p xs" "\<And>j. j < Suc (length xs) \<Longrightarrow> p + of_nat j \<noteq> d"
  shows "cstr (m(d := v)) p xs"
  using assms cstr_cong [of xs "m(d := v)" p m] by (auto simp: less_Suc_eq_le)

lemma strcpy_cstr:
  assumes "cstr m src xs" "separate d (Suc (length xs)) src (Suc (length xs))"
  shows "strcpy d src m = Some (copy_up (Suc (length xs)) d src m)"
  using assms
proof (induction xs arbitrary: d src m)
  case (Cons x xs)
  note se = separate_Suc [OF Cons.prems(2)]
  have ne: "src + 1 + of_nat j \<noteq> d" if "j < Suc (length xs)" for j
    using se(2) [of "Suc j"] that by (simp add: ac_simps)
  have c: "cstr (m(d := m src)) (src + 1) xs"
    by (rule cstr_write_outside) (use Cons.prems(1) ne in auto)
  have se1: "separate (d + 1) (Suc (length xs)) (src + 1) (Suc (length xs))" using se(1) by simp
  have IH: "strcpy (d + 1) (src + 1) (m(d := m src)) =
      Some (copy_up (Suc (length xs)) (d + 1) (src + 1) (m(d := m src)))"
    by (rule Cons.IH [OF c se1])
  have "m src \<noteq> 0" using Cons.prems(1) by simp
  then have "strcpy d src m = strcpy (d + 1) (src + 1) (m(d := m src))"
    by (subst strcpy.simps) (simp add: Let_def)
  also have "\<dots> = Some (copy_up (Suc (length (x # xs))) d src m)"
    unfolding IH by (simp only: list.size copy_up.simps add_Suc_right add_0_right)
  finally show ?case .
qed (simp add: strcpy.simps)

lemma strcat_cstr:
  assumes "cstr m d xs" "cstr m src ys"
    and "separate (d + of_nat (length xs)) (Suc (length ys)) src (Suc (length ys))"
  shows "strcat d src m = Some (copy_up (Suc (length ys)) (d + of_nat (length xs)) src m)"
  using strcpy_cstr [OF assms(2,3)] by (simp add: strcat_def strend_cstr [OF assms(1)])

text \<open>The first loop of \<open>strncpy\<close>.\<close>

lemma strncpy_copy_cstr:
  assumes "cstr m src xs" "separate d n src (Suc (length xs))"
  shows "strncpy_copy n d src m = (if length xs < n
      then (n - length xs, d + of_nat (length xs) + 1, copy_up (Suc (length xs)) d src m)
      else (0, d + of_nat n, copy_up n d src m))"
  using assms
proof (induction n arbitrary: d src m xs)
  case (Suc n)
  show ?case
  proof (cases xs)
    case Nil
    then show ?thesis using Suc.prems by simp
  next
    case (Cons x ys)
    have se: "separate (d + 1) n (src + 1) (Suc (length ys))" "\<And>j. j < Suc (length xs) \<Longrightarrow> src + of_nat j \<noteq> d"
      using separate_Suc [OF Suc.prems(2)] Cons by auto
    have ne: "src + 1 + of_nat j \<noteq> d" if "j < Suc (length ys)" for j
      using se(2) [of "Suc j"] that Cons by (simp add: ac_simps)
    have "cstr (m(d := m src)) (src + 1) ys"
      by (rule cstr_write_outside) (use Suc.prems(1) Cons ne in auto)
    note IH = Suc.IH [OF this se(1)]
    have "m src \<noteq> 0" using Suc.prems(1) Cons by simp
    then have e: "strncpy_copy (Suc n) d src m = strncpy_copy n (d + 1) (src + 1) (m(d := m src))"
      by (simp only: strncpy_copy.simps Let_def if_True simp_thms)
    show ?thesis unfolding e IH using Cons
      by (simp only: list.size copy_up.simps add_Suc_right add_0_right Suc_less_eq diff_Suc_Suc
          of_nat_Suc) (simp add: ac_simps)
  qed
qed simp

subsection \<open>Searching\<close>

lemma match_at_cstr:
  "cstr m h xs \<Longrightarrow> cstr m n ys \<Longrightarrow> match_at h n m = Some (take (length ys) xs = ys)"
proof (induction ys arbitrary: h n xs)
  case Nil
  then show ?case by (simp add: match_at.simps)
next
  case (Cons y ys)
  show ?case
  proof (cases xs)
    case Nil
    then show ?thesis using Cons.prems by (auto simp: match_at.simps [of h])
  next
    case (Cons x zs)
    then show ?thesis
      using Cons.prems Cons.IH [of "h + 1" zs "n + 1"]
      by (cases "x = y") (simp_all add: match_at.simps [of h])
  qed
qed

lemma strstr_from_cstr:
  assumes "cstr m h xs" "cstr m needle ys" "ys \<noteq> []"
  shows "(\<exists>k < length xs. take (length ys) (drop k xs) = ys \<and>
            (\<forall>j < k. take (length ys) (drop j xs) \<noteq> ys) \<and> strstr_from h needle m = Some (h + of_nat k)) \<or>
         ((\<forall>k. take (length ys) (drop k xs) \<noteq> ys) \<and> strstr_from h needle m = Some NULL)"
  using assms(1)
proof (induction xs arbitrary: h)
  case Nil
  then show ?case using assms(3) by (simp add: strstr_from.simps)
next
  case (Cons x xs)
  have m: "match_at h needle m = Some (take (length ys) (x # xs) = ys)"
    using match_at_cstr [OF Cons.prems assms(2)] .
  show ?case
  proof (cases "take (length ys) (x # xs) = ys")
    case True
    then have "strstr_from h needle m = Some h"
      using Cons.prems m by (simp add: strstr_from.simps [of h])
    then show ?thesis using True by (intro disjI1 exI [of _ 0]) simp
  next
    case False
    then have e: "strstr_from h needle m = strstr_from (h + 1) needle m"
      using Cons.prems m by (simp add: strstr_from.simps [of h])
    have "cstr m (h + 1) xs" using Cons.prems by simp
    then show ?thesis
    proof (rule Cons.IH [THEN disjE])
      assume "\<exists>k < length xs. take (length ys) (drop k xs) = ys \<and>
        (\<forall>j < k. take (length ys) (drop j xs) \<noteq> ys) \<and> strstr_from (h + 1) needle m = Some (h + 1 + of_nat k)"
      then obtain k where k: "k < length xs" "take (length ys) (drop k xs) = ys"
        "\<forall>j < k. take (length ys) (drop j xs) \<noteq> ys" "strstr_from (h + 1) needle m = Some (h + 1 + of_nat k)"
        by blast
      have "take (length ys) (drop j (x # xs)) \<noteq> ys" if "j < Suc k" for j
        using that k(3) False by (cases j) auto
      then show ?thesis using k e by (intro disjI1 exI [of _ "Suc k"]) (simp add: ac_simps)
    next
      assume none: "(\<forall>k. take (length ys) (drop k xs) \<noteq> ys) \<and> strstr_from (h + 1) needle m = Some NULL"
      have "take (length ys) (drop k (x # xs)) \<noteq> ys" for k using none False by (cases k) auto
      then show ?thesis using none e by simp
    qed
  qed
qed

lemma is_delim_cstr: "cstr m d ds \<Longrightarrow> is_delim d c m = Some (c \<in> set ds)"
proof (induction ds arbitrary: d)
  case (Cons x ds)
  then show ?case by (simp add: is_delim.simps [of d])
qed (simp add: is_delim.simps)

lemma strtok_from_cstr:
  assumes "cstr m p xs" "cstr m delim ds"
  shows "strtok_from start p delim m = Some (
    let ys = takeWhile (\<lambda>c. c \<notin> set ds) xs; q = p + of_nat (length ys)
    in if length ys < length xs then (start, q + 1, m(q := 0))
       else if start = q then (NULL, q, m) else (start, NULL, m))"
  using assms(1)
proof (induction xs arbitrary: p)
  case (Cons x xs)
  have "strtok_from start p delim m = (if x \<in> set ds then Some (start, p + 1, m(p := 0))
      else strtok_from start (p + 1) delim m)"
    using Cons.prems by (subst strtok_from.simps) (simp add: is_delim_cstr [OF assms(2)])
  then show ?case using Cons.IH [of "p + 1"] Cons.prems by (simp add: Let_def ac_simps)
qed (simp add: strtok_from.simps Let_def)

subsection \<open>Properties\<close>

text \<open>C39: \<open>memmove\<close> is correct for all areas, overlapping in either direction or not, as long as they do
  not wrap around the address space: the destination gets the old bytes of the source, and no
  other byte changes.\<close>

theorem memmove_correct:
  assumes "unat dest + unat n < 2 ^ 32" "unat src + unat n < 2 ^ 32"
  shows "memmove dest src n m = (\<lambda>a. if a - dest < n then m (src + (a - dest)) else m a)"
  using memmove_apply [OF assms] by (rule ext)

theorem memmove_correct_witness:
  "memmove 0x1001 0x1000 3 ((\<lambda>_. 0)(0x1000 := 7, 0x1001 := 8, 0x1002 := 9)) 0x1003 = 9"
  using memmove_correct [of "0x1001" 3 "0x1000" "(\<lambda>_. 0)(0x1000 := 7, 0x1001 := 8, 0x1002 := 9)"] by simp

text \<open>\<open>strcmp\<close> ends on every pair of strings and orders them: the result is 0 exactly for equal
  strings and negative exactly when the first one comes first in the lexicographic order of
  unsigned bytes.\<close>

theorem strcmp_order:
  assumes "cstr m s1 xs" "cstr m s2 ys"
  shows "\<exists>r. strcmp s1 s2 m = Some r \<and> (r = 0 \<longleftrightarrow> xs = ys) \<and> (r < 0 \<longleftrightarrow> (xs, ys) \<in> lexord {(x, y). x < y})"
  using strcmp_cstr [OF assms] .

theorem strcmp_order_witness:
  "\<exists>r. strcmp 0x10 0x20 ((\<lambda>_. 0)(0x10 := 97, 0x20 := 97, 0x21 := 98)) = Some r \<and> r < 0"
  using strcmp_order [of "(\<lambda>_. 0)(0x10 := 97, 0x20 := 97, 0x21 := 98)" "0x10" "[97]" "0x20" "[97, 98]"]
  by auto

text \<open>What \<open>strncpy\<close> writes. It copies at most \<open>n\<close> bytes of the string; when the string is shorter
  than \<open>n\<close> it fills with zero bytes up to and including \<open>dest[n]\<close>: the loop that copies leaves
  without counting the zero byte it has stored, so \<open>n + 1\<close> bytes are written into a buffer of
  \<open>n\<close>. No other byte changes.\<close>

theorem strncpy_effect:
  assumes "cstr m src xs" "separate dest (unat n) src (Suc (length xs))" "n < 0xFFFFFFFF"
  shows "strncpy dest src n m a =
    (if unat (a - dest) < min (length xs) (unat n) then m (src + (a - dest))
     else if length xs < unat n \<and> unat (a - dest) \<le> unat n then 0 else m a)"
proof (cases "length xs < unat n")
  case True
  let ?l = "length xs"
  have n: "unat n + 1 < 2 ^ 32" using assms(3) by (simp add: word_less_nat_alt)
  have ap: "apart dest src (Suc ?l)"
    using True by (intro separate_apart [OF assms(2)]) auto
  have c: "copy_up (Suc ?l) dest src m b = (if unat (b - dest) < Suc ?l then m (src + (b - dest)) else m b)" for b
    by (rule copy_up_apply [OF _ ap]) (use n True in simp)
  have l: "unat (of_nat (Suc ?l) :: u32) = Suc ?l" using n True by (intro unat_of_nat_small) simp
  have split: "unat (a - (dest + of_nat ?l + 1)) < unat n - ?l \<longleftrightarrow> Suc ?l \<le> unat (a - dest) \<and> unat (a - dest) \<le> unat n"
  proof (cases "Suc ?l \<le> unat (a - dest)")
    case True
    then have "(of_nat (Suc ?l) :: u32) \<le> a - dest" using l by (simp only: word_le_nat_alt)
    then have "unat (a - dest - of_nat (Suc ?l)) = unat (a - dest) - Suc ?l" using l unat_minus_le by metis
    then show ?thesis using True \<open>?l < unat n\<close> by (simp add: diff_diff_eq ac_simps) arith
  next
    case False
    have "dest + of_nat ?l + 1 - a = of_nat (Suc ?l) - (a - dest)" by (simp add: algebra_simps)
    then have "unat (dest + of_nat ?l + 1 - a) = Suc ?l - unat (a - dest)"
      using False l by (metis unat_minus_le word_le_nat_alt nat_le_linear)
    then have d: "0 < unat (dest + of_nat ?l + 1 - a)" "unat (dest + of_nat ?l + 1 - a) \<le> Suc ?l"
      using False by linarith+
    have "\<not> unat (a - (dest + of_nat ?l + 1)) < unat n - ?l"
    proof
      assume "unat (a - (dest + of_nat ?l + 1)) < unat n - ?l"
      then have "unat (a - (dest + of_nat ?l + 1)) + unat (dest + of_nat ?l + 1 - a) < 2 ^ 32"
        using d(2) n True by linarith
      from unat_plus_small [OF this] d(1) show False by simp
    qed
    then show ?thesis using False by simp
  qed
  have "src + of_nat ?l = src + (a - dest)" if "unat (a - dest) = ?l"
    by (simp flip: that)
  then have z: "m (src + (a - dest)) = 0" if "unat (a - dest) = ?l" using cstr_end [OF assms(1)] that by metis
  show ?thesis
    unfolding strncpy_def strncpy_copy_cstr [OF assms(1,2)] if_P [OF True] Let_def prod.case
    using n split z True by (subst fill_apply) (auto simp: c less_Suc_eq min_def simp del: copy_up.simps)
next
  case False
  have ap: "apart dest src (unat n)" using False by (intro separate_apart [OF separate_mono [OF assms(2), of "unat n" "unat n"]]) auto
  have "copy_up (unat n) dest src m a = (if unat (a - dest) < unat n then m (src + (a - dest)) else m a)"
    using unat_u32_less [of n] by (intro copy_up_apply ap) simp
  then show ?thesis
    unfolding strncpy_def strncpy_copy_cstr [OF assms(1,2)] if_not_P [OF False] Let_def prod.case
    using False by (simp add: min_def)
qed

theorem strncpy_effect_witness:
  "strncpy 0x20 0x10 3 ((\<lambda>_. 1)(0x10 := 97, 0x11 := 0)) 0x23 = 0 \<and>
   strncpy 0x20 0x10 3 ((\<lambda>_. 1)(0x10 := 97, 0x11 := 0)) 0x24 = 1"
proof -
  have "separate 0x20 3 0x10 (Suc (length [97 :: u8]))"
    by (auto simp: separate_def less_Suc_eq numeral_3_eq_3)
  then show ?thesis
    using strncpy_effect [of "(\<lambda>_. 1)(0x10 := 97, 0x11 := 0)" "0x10" "[97]" "0x20" 3 "0x23"]
      strncpy_effect [of "(\<lambda>_. 1)(0x10 := 97, 0x11 := 0)" "0x10" "[97]" "0x20" 3 "0x24"] by simp
qed

text \<open>C40: \<open>strstr\<close> ends on every pair of strings and returns the first occurrence: the address of the
  first position at which the needle lies in the haystack, or \<open>NULL\<close> when there is none. The empty
  needle is found at the start.\<close>

theorem strstr_first:
  assumes "cstr m haystack xs" "cstr m needle ys"
  shows "(\<exists>k \<le> length xs. take (length ys) (drop k xs) = ys \<and>
            (\<forall>j < k. take (length ys) (drop j xs) \<noteq> ys) \<and> strstr haystack needle m = Some (haystack + of_nat k)) \<or>
         ((\<forall>k. take (length ys) (drop k xs) \<noteq> ys) \<and> strstr haystack needle m = Some NULL)"
proof (cases ys)
  case Nil
  then show ?thesis using assms(2) by (intro disjI1 exI [of _ 0]) (simp add: strstr_def)
next
  case (Cons y zs)
  then have "m needle \<noteq> 0" "ys \<noteq> []" using assms(2) by auto
  then show ?thesis
    using strstr_from_cstr [OF assms] unfolding strstr_def by (auto intro: less_imp_le)
qed

theorem strstr_first_witness:
  "strstr 0x10 0x20 ((\<lambda>_. 0)(0x10 := 97, 0x11 := 98, 0x12 := 99, 0x20 := 98, 0x21 := 99)) = Some 0x11"
proof -
  let ?m = "(\<lambda>_. 0)(0x10 := 97, 0x11 := 98, 0x12 := 99, 0x20 := 98, 0x21 := 99) :: memory"
  have "cstr ?m 0x10 [97, 98, 99]" "cstr ?m 0x20 [98, 99]" by simp_all
  note * = strstr_first [OF this]
  have "take (length [98 :: u8, 99]) (drop 1 [97 :: u8, 98, 99]) = [98, 99]" by simp
  with * obtain k where k: "k \<le> length [97 :: u8, 98, 99]" "take (length [98 :: u8, 99]) (drop k [97 :: u8, 98, 99]) = [98, 99]"
    "strstr 0x10 0x20 ?m = Some (0x10 + of_nat k)"
    by blast
  have "k = 0 \<or> k = 1 \<or> k = 2 \<or> k = 3" using k(1) by auto
  with k(2,3) show ?thesis by auto
qed

text \<open>What \<open>strtok\<close> returns. The token is what comes before the next delimiter, which is
  overwritten with a zero byte, and the search goes on right behind it; the rest of the string is
  the last token; at the end of the string the result is \<open>NULL\<close>. A delimiter at the place where
  the search starts gives an empty token: delimiters are not skipped, as they are in standard C.\<close>

theorem strtok_splits:
  assumes "cstr m p xs" "cstr m delim ds" "p \<noteq> NULL"
  shows "strtok p delim save m = Some (
    let ys = takeWhile (\<lambda>c. c \<notin> set ds) xs; q = p + of_nat (length ys)
    in if length ys < length xs then (p, q + 1, m(q := 0))
       else if of_nat (length xs) = (0 :: u32) then (NULL, p, m) else (p, NULL, m))"
  using strtok_from_cstr [OF assms(1,2), of p] assms(3)
    takeWhile_eq_all_conv [of "\<lambda>c. c \<notin> set ds" xs] length_takeWhile_le [of "\<lambda>c. c \<notin> set ds" xs]
  by (auto simp: strtok_def Let_def)

theorem strtok_splits_witness:
  "strtok 0x10 0x20 NULL ((\<lambda>_. 0)(0x10 := 32, 0x11 := 97, 0x20 := 32)) =
     Some (0x10, 0x11, (\<lambda>_. 0)(0x10 := 0, 0x11 := 97, 0x20 := 32))"
  using strtok_splits [of "(\<lambda>_. 0)(0x10 := 32, 0x11 := 97, 0x20 := 32)" "0x10" "[32, 97]" "0x20" "[32]" NULL]
  by (simp add: fun_upd_twist)

end
