(* ===== verification/Ring.thy ===== *)
theory Ring
  imports Prelude
begin

text \<open>
  Circular doubly linked lists in a typed store. The process table and the directories of RamFS
  are such lists, with nodes of different types; what they share is that a node has a \<open>next\<close> and a
  \<open>prev\<close> pointer that can be read and set without touching anything else. That is the interface
  \<open>ring_node\<close>; the insertion and removal lemmas are proved once over it.
\<close>

text \<open>\<open>p->f = v\<close> on the node at \<open>p\<close>; \<open>None\<close> when there is no node.\<close>

definition mod_node :: "addr \<Rightarrow> ('n \<Rightarrow> 'n) \<Rightarrow> (addr \<rightharpoonup> 'n) \<Rightarrow> (addr \<rightharpoonup> 'n) option" where
  "mod_node p f m = do { n \<leftarrow> m p; Some (m(p \<mapsto> f n)) }"

text \<open>\<open>dseg nxt prv m b xs e\<close>: the nodes \<open>xs\<close> are linked in both directions, the first one's \<open>prev\<close> is
  \<open>b\<close> and the last one's \<open>next\<close> is \<open>e\<close>.\<close>

fun dseg :: "('n \<Rightarrow> addr) \<Rightarrow> ('n \<Rightarrow> addr) \<Rightarrow> (addr \<rightharpoonup> 'n) \<Rightarrow> addr \<Rightarrow> addr list \<Rightarrow> addr \<Rightarrow> bool" where
  "dseg nxt prv m b [] e \<longleftrightarrow> True"
| "dseg nxt prv m b (x # xs) e \<longleftrightarrow>
     (\<exists>n. m x = Some n \<and> prv n = b \<and> nxt n = (case xs of [] \<Rightarrow> e | y # _ \<Rightarrow> y)) \<and> dseg nxt prv m x xs e"

definition ring :: "('n \<Rightarrow> addr) \<Rightarrow> ('n \<Rightarrow> addr) \<Rightarrow> (addr \<rightharpoonup> 'n) \<Rightarrow> addr list \<Rightarrow> bool" where
  "ring nxt prv m xs \<longleftrightarrow> xs \<noteq> [] \<and> distinct xs \<and> NULL \<notin> set xs \<and> dseg nxt prv m (last xs) xs (hd xs)"

lemma dseg_dom: "dseg nxt prv m b xs e \<Longrightarrow> set xs \<subseteq> dom m"
  by (induction xs arbitrary: b) auto

lemma dseg_cong:
  assumes "\<And>x. x \<in> set xs \<Longrightarrow> map_option (\<lambda>n. (nxt n, prv n)) (m' x) = map_option (\<lambda>n. (nxt n, prv n)) (m x)"
  shows "dseg nxt prv m' b xs e = dseg nxt prv m b xs e"
  using assms
proof (induction xs arbitrary: b)
  case (Cons x xs)
  have "map_option (\<lambda>n. (nxt n, prv n)) (m' x) = map_option (\<lambda>n. (nxt n, prv n)) (m x)"
    using Cons.prems by simp
  then show ?case using Cons by (cases "m x"; cases "m' x") auto
qed simp

lemma dseg_upd [simp]: "p \<notin> set xs \<Longrightarrow> dseg nxt prv (m(p := v)) b xs e = dseg nxt prv m b xs e"
  by (rule dseg_cong) auto

lemma dseg_append:
  "dseg nxt prv m b (xs @ y # ys) e \<longleftrightarrow>
   dseg nxt prv m b xs y \<and> dseg nxt prv m (last (b # xs)) (y # ys) e"
proof (induction xs arbitrary: b)
  case (Cons x xs)
  have "(case xs @ y # ys of [] \<Rightarrow> e | z # _ \<Rightarrow> z) = (case xs of [] \<Rightarrow> y | z # _ \<Rightarrow> z)"
    by (cases xs) auto
  moreover have "last (x # xs) = last (b # x # xs)" by simp
  ultimately show ?case using Cons.IH [of x] by (auto simp del: last.simps)
qed simp

lemma dseg_ends:
  "dseg nxt prv m b (x # xs) e \<Longrightarrow>
     (\<exists>n. m x = Some n \<and> prv n = b \<and> nxt n = (case xs of [] \<Rightarrow> e | y # _ \<Rightarrow> y))"
  by simp

lemma ring_head:
  assumes "ring nxt prv m (x # xs)"
  shows "\<exists>n. m x = Some n \<and> prv n = last (x # xs) \<and> nxt n = hd (xs @ [x])" "x \<noteq> NULL"
  using assms by (auto simp: ring_def split: list.splits)

lemma ring_cong:
  assumes "ring nxt prv m xs"
    and "\<And>x. x \<in> set xs \<Longrightarrow> map_option (\<lambda>n. (nxt n, prv n)) (m' x) = map_option (\<lambda>n. (nxt n, prv n)) (m x)"
  shows "ring nxt prv m' xs"
  using assms dseg_cong [of xs nxt prv m' m] by (simp add: ring_def)

lemma ring_dom: "ring nxt prv m xs \<Longrightarrow> set xs \<subseteq> dom m"
  unfolding ring_def by (meson dseg_dom)

text \<open>A ring can be read from any of its nodes.\<close>

lemma ring_rotate1: "ring nxt prv m (x # xs) \<Longrightarrow> ring nxt prv m (xs @ [x])"
proof (cases xs)
  case (Cons y ys)
  assume r: "ring nxt prv m (x # xs)"
  have e: "hd (xs @ [x]) = y" "last (xs @ [x]) = x" "hd (x # xs) = x" using Cons by simp_all
  have "dseg nxt prv m (last (x # xs)) (x # xs) x" "distinct (x # xs)" "NULL \<notin> set (x # xs)"
    using r unfolding ring_def e by blast+
  then have "dseg nxt prv m x (xs @ [x]) y" unfolding dseg_append using Cons by simp
  then show ?thesis using r unfolding ring_def e by auto
qed simp

lemma ring_rotate: "ring nxt prv m (ys @ zs) \<Longrightarrow> ring nxt prv m (zs @ ys)"
proof (induction ys arbitrary: zs)
  case (Cons y ys)
  then have "ring nxt prv m (ys @ (zs @ [y]))" using ring_rotate1 [of nxt prv m y "ys @ zs"] by simp
  from Cons.IH [OF this] show ?case by simp
qed simp

lemma ring_tail: "ring nxt prv m (x # xs) \<Longrightarrow> dseg nxt prv m x xs x \<and> x \<notin> set xs \<and> distinct xs"
  by (auto simp: ring_def)

text \<open>Setting links keeps everything else of the nodes.\<close>

lemma mod_node_keeps:
  "mod_node p g m = Some m' \<Longrightarrow> (\<And>n. f (g n) = f n) \<Longrightarrow> map_option f (m' q) = map_option f (m q)"
  by (auto simp: mod_node_def bind_eq_Some_conv)

lemma mod_node_dom: "mod_node p g m = Some m' \<Longrightarrow> dom m' = dom m"
  by (auto simp: mod_node_def bind_eq_Some_conv split: if_splits)

locale ring_node =
  fixes nxt :: "'n \<Rightarrow> addr"
    and prv :: "'n \<Rightarrow> addr"
    and set_nxt :: "addr \<Rightarrow> 'n \<Rightarrow> 'n"
    and set_prv :: "addr \<Rightarrow> 'n \<Rightarrow> 'n"
  assumes nxt_set_nxt [simp]: "nxt (set_nxt v n) = v"
    and nxt_set_prv [simp]: "nxt (set_prv v n) = nxt n"
    and prv_set_prv [simp]: "prv (set_prv v n) = v"
    and prv_set_nxt [simp]: "prv (set_nxt v n) = prv n"
begin

abbreviation "rng \<equiv> ring nxt prv"
abbreviation "seg \<equiv> dseg nxt prv"

lemma seg_set_nxt_last:
  assumes "seg m b (xs @ [l]) e" "distinct (xs @ [l])" "m l = Some n"
  shows "seg (m(l \<mapsto> set_nxt e' n)) b (xs @ [l]) e'"
  using assms by (auto simp: dseg_append)

lemma seg_set_prv_first:
  assumes "seg m b (x # xs) e" "distinct (x # xs)" "m x = Some n"
  shows "seg (m(x \<mapsto> set_prv b' n)) b' (x # xs) e"
  using assms by auto

text \<open>A new ring of one node.\<close>

lemma ring_single: "p \<noteq> NULL \<Longrightarrow> m p = Some n \<Longrightarrow> nxt n = p \<Longrightarrow> prv n = p \<Longrightarrow> rng m [p]"
  by (simp add: ring_def)

text \<open>Linking \<open>p\<close> in before the head, i.e. at the end of the list.\<close>

lemma ring_insert:
  assumes r: "rng m xs" and p: "p \<notin> set xs" "p \<noteq> NULL" "m p = Some n" "nxt n = hd xs" "prv n = last xs"
  shows "\<exists>m'. (do { m \<leftarrow> mod_node (last xs) (set_nxt p) m; mod_node (hd xs) (set_prv p) m }) = Some m' \<and>
    rng m' (xs @ [p]) \<and> m' p = m p \<and> (\<forall>q. q \<notin> {hd xs, last xs} \<longrightarrow> m' q = m q)"
proof -
  obtain ys l where xs: "xs = ys @ [l]" using r by (cases xs rule: rev_cases) (auto simp: ring_def)
  obtain x zs where xs': "xs = x # zs" using r by (cases xs) (auto simp: ring_def)
  have "hd xs = x" using xs' by simp
  moreover have "last xs = l" using xs by simp
  ultimately have hl: "hd xs = x" "last xs = l" by blast+
  have d: "distinct xs" and sg: "seg m l xs x" using r unfolding ring_def hl by blast+
  obtain nl where nl: "m l = Some nl" using dseg_dom [OF sg] xs by auto
  define m1 where "m1 = m(l \<mapsto> set_nxt p nl)"
  have s1: "seg m1 l xs p" unfolding m1_def xs by (rule seg_set_nxt_last [where n = nl and e = x]) (use nl sg d xs in auto)
  obtain nx where nx: "m1 x = Some nx" using dseg_dom [OF s1] xs' by auto
  define m2 where "m2 = m1(x \<mapsto> set_prv p nx)"
  have s2: "seg m2 p xs p" unfolding m2_def xs' by (rule seg_set_prv_first [where n = nx and b = l]) (use nx s1 d xs' in auto)
  have "x \<in> set xs" "l \<in> set xs" by (simp add: xs', simp add: xs)
  then have pxl: "p \<noteq> x" "p \<noteq> l" using p(1) by blast+
  then have mp: "m2 p = m p" by (simp add: m2_def m1_def)
  have "rng m2 (xs @ [p])"
  proof -
    have "last (p # xs) = l" using xs by simp
    moreover have "hd (xs @ [p]) = x" using xs' by simp
    moreover have "last (xs @ [p]) = p" by simp
    ultimately show ?thesis
      using s2 mp p r d hl unfolding ring_def by (simp add: dseg_append del: last.simps)
  qed
  moreover have "(do { m \<leftarrow> mod_node (last xs) (set_nxt p) m; mod_node (hd xs) (set_prv p) m }) = Some m2"
    unfolding hl using nl nx by (simp add: mod_node_def m1_def m2_def)
  moreover have "m2 q = m q" if "q \<notin> {hd xs, last xs}" for q
    using that hl by (auto simp: m1_def m2_def)
  ultimately show ?thesis using mp by blast
qed

text \<open>Unlinking \<open>p\<close> from a ring with at least one other node.\<close>

lemma ring_remove:
  assumes r: "rng m (ys @ p # zs)" and ne: "ys @ zs \<noteq> []" and n: "m p = Some n"
  shows "\<exists>m'. (do { m \<leftarrow> mod_node (prv n) (set_nxt (nxt n)) m; mod_node (nxt n) (set_prv (prv n)) m }) = Some m' \<and>
    rng m' (ys @ zs) \<and> m' p = m p \<and> nxt n \<noteq> p \<and> nxt n = hd (zs @ ys)"
proof -
  have d: "distinct (ys @ p # zs)" "NULL \<notin> set (ys @ p # zs)"
    and sg: "seg m (last (ys @ p # zs)) (ys @ p # zs) (hd (ys @ p # zs))"
    using r by (auto simp: ring_def)
  show ?thesis
  proof (cases zs)
    case Nil
    then obtain x ys' where ys: "ys = x # ys'" using ne by (cases ys) auto
    obtain ws l where wl: "ys = ws @ [l]" using ne Nil by (cases ys rule: rev_cases) auto
    have "last (ys @ [p]) = p" by simp
    moreover have "hd (ys @ [p]) = x" unfolding ys by simp
    moreover have "last (p # ys) = l" unfolding wl by simp
    ultimately have e: "last (ys @ [p]) = p" "hd (ys @ [p]) = x" "last (p # ys) = l" by blast+
    have s0: "seg m p ys p" "prv n = l" "nxt n = x"
      using sg n unfolding Nil e dseg_append by auto
    obtain nl where nl: "m l = Some nl" using dseg_dom [OF s0(1)] wl by auto
    define m1 where "m1 = m(l \<mapsto> set_nxt x nl)"
    have s1: "seg m1 p ys x" unfolding m1_def wl
      by (rule seg_set_nxt_last [where n = nl and e = p]) (use nl s0(1) d wl in auto)
    obtain nx where nx: "m1 x = Some nx" using dseg_dom [OF s1] ys by auto
    define m2 where "m2 = m1(x \<mapsto> set_prv l nx)"
    have s2: "seg m2 l ys x" unfolding m2_def ys
      by (rule seg_set_prv_first [where n = nx and b = p]) (use nx s1 d ys in auto)
    have "last ys = l" "ys \<noteq> []" using wl by simp_all
    moreover have "hd ys = x" using ys by simp
    ultimately have "rng m2 (ys @ zs)" using s2 d Nil by (simp add: ring_def)
    moreover have "x \<in> set ys" "l \<in> set ys" by (simp add: ys, simp add: wl)
    then have "p \<noteq> x" "p \<noteq> l" using d by auto
    ultimately show ?thesis using s0 nl nx Nil ys by (auto simp: mod_node_def m1_def m2_def)
  next
    case (Cons y zs')
    show ?thesis
    proof (cases ys rule: rev_cases)
      case Nil
      have "zs \<noteq> []" using Cons by simp
      then obtain ws l where wl: "zs = ws @ [l]" by (metis append_butlast_last_id)
      have e: "last (ys @ p # zs) = l" "hd (ys @ p # zs) = p" using Nil wl by simp_all
      have s0: "seg m p zs p" "prv n = l" "nxt n = y"
        using sg n unfolding e using Nil Cons by auto
      obtain nl where nl: "m l = Some nl" using dseg_dom [OF s0(1)] wl by auto
      define m1 where "m1 = m(l \<mapsto> set_nxt y nl)"
      have s1: "seg m1 p zs y" unfolding m1_def wl
        by (rule seg_set_nxt_last [where n = nl and e = p]) (use nl s0(1) d wl Nil in auto)
      obtain ny where ny: "m1 y = Some ny" using dseg_dom [OF s1] Cons by auto
      define m2 where "m2 = m1(y \<mapsto> set_prv l ny)"
      have s2: "seg m2 l zs y" unfolding m2_def Cons
        by (rule seg_set_prv_first [where n = ny and b = p]) (use ny s1 d Cons in auto)
      have "last zs = l" using wl by simp
      moreover have "hd zs = y" using Cons by simp
      ultimately have "rng m2 (ys @ zs)" using s2 d Nil Cons by (simp add: ring_def)
      moreover have "y \<in> set zs" "l \<in> set zs" by (simp add: Cons, simp add: wl)
      then have "p \<noteq> y" "p \<noteq> l" using d by auto
      ultimately show ?thesis using s0 nl ny Nil Cons by (auto simp: mod_node_def m1_def m2_def)
    next
      case (snoc ws l)
      have sp: "seg m (last zs) ys p" "seg m p zs (hd ys)" "prv n = l" "nxt n = y"
      proof -
        have e: "last (ys @ p # zs) = last zs" "hd (ys @ p # zs) = hd ys" "last (last zs # ys) = l"
          using snoc Cons by (simp_all add: hd_append)
        show "seg m (last zs) ys p" "seg m p zs (hd ys)" "prv n = l" "nxt n = y"
          using sg n unfolding e dseg_append using Cons by auto
      qed
      obtain nl where nl: "m l = Some nl" using dseg_dom [OF sp(1)] snoc by auto
      define m1 where "m1 = m(l \<mapsto> set_nxt y nl)"
      have s1: "seg m1 (last zs) ys y" unfolding m1_def snoc
        by (rule seg_set_nxt_last [where n = nl and e = p]) (use nl sp(1) d snoc in auto)
      have nz: "l \<notin> set zs" "y \<notin> set ys" using d snoc Cons by auto
      obtain ny where ny: "m y = Some ny" using dseg_dom [OF sp(2)] Cons by auto
      have ny1: "m1 y = Some ny" using ny nz Cons by (auto simp: m1_def)
      define m2 where "m2 = m1(y \<mapsto> set_prv l ny)"
      have "seg m1 p zs (hd ys)" using sp(2) nz by (simp add: m1_def)
      then have s2: "seg m2 l zs (hd ys)" unfolding m2_def Cons
        by (intro seg_set_prv_first [where n = ny and b = p]) (use ny1 d Cons in auto)
      have s3: "seg m2 (last zs) ys y" using s1 nz by (simp add: m2_def)
      have "seg m2 (last (ys @ zs)) (ys @ zs) (hd (ys @ zs))"
      proof -
        have e: "last (ys @ zs) = last zs" "hd (ys @ zs) = hd ys" "last (last zs # ys) = l"
          using snoc Cons by (simp_all add: hd_append)
        show ?thesis unfolding e unfolding Cons dseg_append using s2 s3 e(3) Cons by simp
      qed
      then have "rng m2 (ys @ zs)" using d Cons by (auto simp: ring_def)
      moreover have "p \<noteq> y" "p \<noteq> l" using d Cons snoc by auto
      ultimately show ?thesis using sp nl ny1 Cons by (auto simp: mod_node_def m1_def m2_def)
    qed
  qed
qed

lemma ring_alone:
  assumes "rng m [p]" "m p = Some n"
  shows "nxt n = p" "prv n = p"
  using assms by (auto simp: ring_def)

end

end
