(* ===== verification/Process.thy ===== *)
theory Process
  imports Kheap Ring
begin

text \<open>
  The process table, \<^verbatim>\<open>kernel/proc/process.c\<close> and \<^verbatim>\<open>include/proc.h\<close>.

  The process control blocks form a circular doubly linked list in a store; memory comes from the
  kernel heap. Of the processor the model has ESP, EBP and CR3, and of the stacks the words in
  which \<^verbatim>\<open>pusha\<close> saves EBP (\<open>stk\<close>); the other registers that \<^verbatim>\<open>pusha\<close> and \<^verbatim>\<open>popa\<close> move are not
  modelled. The memory maps at the end of the file work on the page tables alone and have
  their own theory. The signal and pipe functions are stubs in the source; they print or return
  constants.
\<close>

unbundle bit_operations_syntax

subsection \<open>Data\<close>

datatype process_state = PROCESS_RUNNING | PROCESS_READY | PROCESS_BLOCKED | PROCESS_ZOMBIE
  | PROCESS_TERMINATED

record pcb =
  pid :: u32
  state :: process_state
  name :: string
  esp :: addr
  ebp :: addr
  page_dir :: addr
  priority :: u32
  ticks :: u64
  pnext :: addr
  pprev :: addr

datatype scheduler_type = SCHEDULER_ROUND_ROBIN | SCHEDULER_PRIORITY | SCHEDULER_FCFS

definition sizeof_pcb :: u32 where "sizeof_pcb = 72"

record procs =
  current_process :: addr
  process_list :: addr
  next_pid :: u32
  current_scheduler :: scheduler_type
  pcbs :: "addr \<rightharpoonup> pcb"
  heap :: kheap
  kernel_dir :: addr
  dirs :: "addr \<Rightarrow> u32 list"
  cpu_esp :: addr
  cpu_ebp :: addr
  cpu_cr3 :: u32
  stk :: "addr \<Rightarrow> u32"

definition pcb_zero :: pcb where
  "pcb_zero = \<lparr>pid = 0, state = PROCESS_RUNNING, name = [], esp = NULL, ebp = NULL, page_dir = NULL,
     priority = 0, ticks = 0, pnext = NULL, pprev = NULL\<rparr>"

definition set_next :: "addr \<Rightarrow> pcb \<Rightarrow> pcb" where "set_next v n = n\<lparr>pnext := v\<rparr>"
definition set_prev :: "addr \<Rightarrow> pcb \<Rightarrow> pcb" where "set_prev v n = n\<lparr>pprev := v\<rparr>"

interpretation pl: ring_node pnext pprev set_next set_prev
  by unfold_locales (simp_all add: set_next_def set_prev_def)

subsection \<open>The process list\<close>

definition add_process_to_list :: "addr \<Rightarrow> procs \<Rightarrow> procs option" where
  "add_process_to_list process s =
     (if process_list s = NULL
      then do {
        m \<leftarrow> mod_node process (set_next process) (pcbs s);
        m \<leftarrow> mod_node process (set_prev process) m;
        Some (s\<lparr>process_list := process, pcbs := m\<rparr>) }
      else do {
        m \<leftarrow> mod_node process (set_next (process_list s)) (pcbs s);
        l \<leftarrow> m (process_list s);
        m \<leftarrow> mod_node process (set_prev (pprev l)) m;
        l \<leftarrow> m (process_list s);
        m \<leftarrow> mod_node (pprev l) (set_next process) m;
        m \<leftarrow> mod_node (process_list s) (set_prev process) m;
        Some (s\<lparr>pcbs := m\<rparr>) })"

definition remove_process_from_list :: "addr \<Rightarrow> procs \<Rightarrow> procs option" where
  "remove_process_from_list process s = do {
     p \<leftarrow> pcbs s process;
     if pnext p = process then Some (s\<lparr>process_list := NULL\<rparr>)
     else do {
       m \<leftarrow> mod_node (pprev p) (set_next (pnext p)) (pcbs s);
       p \<leftarrow> m process;
       m \<leftarrow> mod_node (pnext p) (set_prev (pprev p)) m;
       p \<leftarrow> m process;
       Some (s\<lparr>pcbs := m,
               process_list := (if process_list s = process then pnext p else process_list s)\<rparr>) } }"

definition copy_pcb_name :: "string \<Rightarrow> pcb \<Rightarrow> pcb option" where
  "copy_pcb_name n p = (if length n < 32 then Some (p\<lparr>name := n\<rparr>) else None)"

definition init_process_management :: "procs \<Rightarrow> procs option" where
  "init_process_management s = do {
     (kernel_process, h) \<leftarrow> kmalloc sizeof_pcb (heap s);
     let s = s\<lparr>heap := h\<rparr>;
     if kernel_process = NULL then Some s
     else do {
       p \<leftarrow> copy_pcb_name ''kernel'' (pcb_zero\<lparr>pid := 0, state := PROCESS_RUNNING,
              page_dir := kernel_dir s, priority := 10, ticks := 0\<rparr>);
       add_process_to_list kernel_process
         (s\<lparr>pcbs := (pcbs s)(kernel_process \<mapsto> p), current_process := kernel_process\<rparr>) } }"

definition free_pcb :: "addr \<Rightarrow> procs \<Rightarrow> procs option" where
  "free_pcb p s = do {
     h \<leftarrow> kfree p (heap s);
     Some (s\<lparr>heap := h, pcbs := (pcbs s)(p := None)\<rparr>) }"

text \<open>The argument \<open>entry_point\<close> of \<open>create_process\<close> is not used by the source.\<close>

definition create_process :: "string \<Rightarrow> addr \<Rightarrow> u32 \<Rightarrow> procs \<Rightarrow> (addr \<times> procs) option" where
  "create_process nm entry_point prio s = do {
     (process, h) \<leftarrow> kmalloc sizeof_pcb (heap s);
     let s = s\<lparr>heap := h\<rparr>;
     if process = NULL then Some (NULL, s)
     else do {
       p \<leftarrow> copy_pcb_name nm (pcb_zero\<lparr>pid := next_pid s, state := PROCESS_READY, priority := prio,
              ticks := 0\<rparr>);
       let s = s\<lparr>next_pid := next_pid s + 1\<rparr>;
       (dir, h) \<leftarrow> kmalloc 4096 (heap s);
       let p = p\<lparr>page_dir := dir\<rparr>;
       let s = s\<lparr>heap := h, pcbs := (pcbs s)(process \<mapsto> p)\<rparr>;
       if dir = NULL then do { s \<leftarrow> free_pcb process s; Some (NULL, s) }
       else do {
         let s = s\<lparr>dirs := (dirs s)(dir := dirs s (kernel_dir s))\<rparr>;
         (stack, h) \<leftarrow> kmalloc 8192 (heap s);
         let s = s\<lparr>heap := h\<rparr>;
         if stack = NULL then do {
           h \<leftarrow> kfree dir (heap s);
           s \<leftarrow> free_pcb process (s\<lparr>heap := h\<rparr>);
           Some (NULL, s) }
         else do {
           let p = p\<lparr>esp := stack + 8192, ebp := stack + 8192\<rparr>;
           s \<leftarrow> add_process_to_list process (s\<lparr>pcbs := (pcbs s)(process \<mapsto> p)\<rparr>);
           Some (process, s) } } } }"

subsection \<open>Switching and scheduling\<close>

text \<open>\<^verbatim>\<open>pusha\<close> moves ESP down by 32 bytes and saves EBP 8 bytes above it; \<^verbatim>\<open>popa\<close> reverses both. EBP
  is loaded from the control block before \<^verbatim>\<open>popa\<close> overwrites it.\<close>

definition switch_process :: "addr \<Rightarrow> procs \<Rightarrow> procs option" where
  "switch_process next_process s =
     (if next_process = NULL \<or> current_process s = next_process then Some s
      else do {
        let sp = cpu_esp s - 32;
        let s = s\<lparr>stk := (stk s)(sp + 8 := cpu_ebp s)\<rparr>;
        m \<leftarrow> mod_node (current_process s) (\<lambda>p. p\<lparr>esp := sp, ebp := cpu_ebp s\<rparr>) (pcbs s);
        n \<leftarrow> m next_process;
        Some (s\<lparr>pcbs := m, current_process := next_process, cpu_esp := esp n + 32,
                cpu_ebp := stk s (esp n + 8), cpu_cr3 := page_dir n AND 0xFFFFF000\<rparr>) })"

text \<open>\<open>while (next->state != PROCESS_READY && next != current) next = next->next\<close>.\<close>

partial_function (option) next_ready :: "(addr \<rightharpoonup> pcb) \<Rightarrow> addr \<Rightarrow> addr \<Rightarrow> addr option" where
  "next_ready m current p = do {
     n \<leftarrow> m p;
     if state n \<noteq> PROCESS_READY \<and> p \<noteq> current then next_ready m current (pnext n) else Some p }"

text \<open>The \<open>do ... while\<close> loop of the priority scheduler; \<open>best\<close> is \<open>highest_priority\<close>.\<close>

definition better :: "(addr \<rightharpoonup> pcb) \<Rightarrow> addr \<Rightarrow> pcb \<Rightarrow> bool option" where
  "better m best n = (if state n = PROCESS_READY
     then if best = NULL then Some True
          else do { b \<leftarrow> m best; Some (priority n < priority b) }
     else Some False)"

partial_function (option) best_ready :: "(addr \<rightharpoonup> pcb) \<Rightarrow> addr \<Rightarrow> addr \<Rightarrow> addr \<Rightarrow> addr option" where
  "best_ready m list p best = do {
     n \<leftarrow> m p;
     b \<leftarrow> better m best n;
     let best = (if b then p else best);
     if pnext n \<noteq> list then best_ready m list (pnext n) best else Some best }"

definition choose_process :: "procs \<Rightarrow> addr option" where
  "choose_process s = (case current_scheduler s of
       SCHEDULER_ROUND_ROBIN \<Rightarrow> do {
         c \<leftarrow> pcbs s (current_process s); next_ready (pcbs s) (current_process s) (pnext c) }
     | SCHEDULER_PRIORITY \<Rightarrow> best_ready (pcbs s) (process_list s) (process_list s) NULL
     | SCHEDULER_FCFS \<Rightarrow> do {
         c \<leftarrow> pcbs s (current_process s); next_ready (pcbs s) (current_process s) (pnext c) })"

definition proc_schedule :: "procs \<Rightarrow> procs option" where
  "proc_schedule s =
     (if process_list s = NULL then Some s
      else do {
        next_process \<leftarrow> choose_process s;
        if next_process = NULL then Some s
        else do {
          n \<leftarrow> pcbs s next_process;
          if state n = PROCESS_READY \<and> next_process \<noteq> current_process s
          then switch_process next_process s
          else Some s } })"

subsection \<open>Ending a process\<close>

text \<open>The search of \<open>terminate_process\<close>: the process, or \<open>NULL\<close> when the loop is back at the head.\<close>

partial_function (option) find_pid :: "(addr \<rightharpoonup> pcb) \<Rightarrow> addr \<Rightarrow> u32 \<Rightarrow> addr \<Rightarrow> addr option" where
  "find_pid m list k p = do {
     n \<leftarrow> m p;
     if pid n = k then Some p
     else if pnext n \<noteq> list then find_pid m list k (pnext n) else Some NULL }"

definition end_process :: "addr \<Rightarrow> procs \<Rightarrow> procs option" where
  "end_process process s = do {
     m \<leftarrow> mod_node process (\<lambda>p. p\<lparr>state := PROCESS_TERMINATED\<rparr>) (pcbs s);
     p \<leftarrow> m process;
     let s = s\<lparr>pcbs := m\<rparr>;
     s \<leftarrow> (if page_dir p \<noteq> NULL \<and> page_dir p \<noteq> kernel_dir s
           then do { h \<leftarrow> kfree (page_dir p) (heap s); Some (s\<lparr>heap := h\<rparr>) } else Some s);
     s \<leftarrow> remove_process_from_list process s;
     free_pcb process s }"

definition terminate_process :: "u32 \<Rightarrow> procs \<Rightarrow> procs option" where
  "terminate_process k s =
     (if k = 0 then Some s
      else do {
        process \<leftarrow> find_pid (pcbs s) (process_list s) k (process_list s);
        if process = NULL then Some s else end_process process s })"

definition get_current_process :: "procs \<Rightarrow> addr" where
  "get_current_process s = current_process s"

definition set_scheduler_type :: "scheduler_type \<Rightarrow> procs \<Rightarrow> procs" where
  "set_scheduler_type t s = s\<lparr>current_scheduler := t\<rparr>"

subsection \<open>Pipes\<close>

definition create_pipe :: "int \<times> int \<times> int" where
  "create_pipe = (0, 1, 0)"

definition pipe_write :: "u32 \<Rightarrow> u32" where "pipe_write count = count"
definition pipe_read :: "u32 \<Rightarrow> int" where "pipe_read count = 0"

subsection \<open>The process list is a ring\<close>

text \<open>\<open>plist s xs\<close>: the process list holds the processes \<open>xs\<close> in order. \<open>core\<close> is a control block without
  its links.\<close>

definition plist :: "procs \<Rightarrow> addr list \<Rightarrow> bool" where
  "plist s xs \<longleftrightarrow> (if xs = [] then process_list s = NULL
     else process_list s = hd xs \<and> ring pnext pprev (pcbs s) xs)"

definition core :: "pcb \<Rightarrow> pcb" where "core n = n\<lparr>pnext := NULL, pprev := NULL\<rparr>"

lemma core_set [simp]: "core (set_next v n) = core n" "core (set_prev v n) = core n"
  by (simp_all add: core_def set_next_def set_prev_def)

lemma core_fields:
  "core n = core k \<Longrightarrow> pid n = pid k \<and> state n = state k \<and> name n = name k \<and> esp n = esp k \<and>
     ebp n = ebp k \<and> page_dir n = page_dir k \<and> priority n = priority k \<and> ticks n = ticks k"
  by (cases n; cases k) (simp add: core_def)

lemma plist_nonnull: "plist s xs \<Longrightarrow> xs \<noteq> [] \<Longrightarrow> process_list s \<noteq> NULL \<and> process_list s \<in> set xs"
  by (auto simp: plist_def ring_def split: if_splits) (metis hd_in_set)

lemma add_process_to_list_ok:
  assumes l: "plist s xs" and p: "p \<notin> set xs" "p \<noteq> NULL" "pcbs s p = Some n"
  shows "\<exists>m. add_process_to_list p s = Some (s\<lparr>process_list := hd (xs @ [p]), pcbs := m\<rparr>) \<and>
    ring pnext pprev m (xs @ [p]) \<and> dom m = dom (pcbs s) \<and>
    (\<forall>q. map_option core (m q) = map_option core (pcbs s q))"
proof (cases "xs = []")
  case True
  let ?m = "(pcbs s)(p \<mapsto> set_prev p (set_next p n))"
  have "add_process_to_list p s = Some (s\<lparr>process_list := p, pcbs := ?m\<rparr>)"
    using True l p by (simp add: add_process_to_list_def plist_def mod_node_def)
  moreover have "ring pnext pprev ?m [p]" using p(2) by (intro pl.ring_single) auto
  ultimately show ?thesis using True p(3) by (intro exI [of _ ?m]) auto
next
  case False
  let ?h = "process_list s"
  have r: "ring pnext pprev (pcbs s) xs" and h: "?h = hd xs" using l False by (auto simp: plist_def)
  have hx: "hd xs \<in> set xs" using False by simp
  obtain nh where nh: "pcbs s ?h = Some nh" "pprev nh = last xs"
    using r False h by (cases xs) (auto simp: ring_def)
  have ph: "p \<noteq> ?h" using p(1) hx h by auto
  have h0: "?h \<noteq> NULL" using plist_nonnull [OF l False] by simp
  let ?n = "set_prev (last xs) (set_next ?h n)"
  let ?m1 = "(pcbs s)(p \<mapsto> ?n)"
  have r1: "ring pnext pprev ?m1 xs" by (rule ring_cong [OF r]) (use p(1) in auto)
  obtain m where m: "(do { m \<leftarrow> mod_node (last xs) (set_next p) ?m1; mod_node (hd xs) (set_prev p) m }) = Some m"
    "ring pnext pprev m (xs @ [p])"
    using pl.ring_insert [OF r1 p(1,2), of ?n] h by auto
  have "add_process_to_list p s = Some (s\<lparr>pcbs := m\<rparr>)"
    using m(1) p(3) nh ph h0 by (auto simp: add_process_to_list_def mod_node_def h [symmetric] bind_eq_Some_conv)
  moreover have "map_option core (m q) = map_option core (pcbs s q)" for q
    using m(1) mod_node_keeps [of _ _ _ _ core q] p(3)
    by (auto simp: bind_eq_Some_conv)
  moreover have "dom m = dom (pcbs s)"
  proof -
    obtain m0 where "mod_node (last xs) (set_next p) ?m1 = Some m0" "mod_node (hd xs) (set_prev p) m0 = Some m"
      using m(1) by (auto simp: bind_eq_Some_conv)
    then have "dom m = insert p (dom (pcbs s))" using mod_node_dom by (metis dom_fun_upd option.distinct(1))
    then show ?thesis using p(3) by (simp add: domI insert_absorb)
  qed
  moreover have "s\<lparr>pcbs := m\<rparr> = s\<lparr>process_list := hd (xs @ [p]), pcbs := m\<rparr>" using h False by simp
  ultimately show ?thesis using m(2) by (intro exI [of _ m]) simp
qed

lemma remove_process_from_list_ok:
  assumes l: "plist s (ys @ p # zs)" and n: "pcbs s p = Some n"
  shows "\<exists>s' m. remove_process_from_list p s = Some s' \<and> plist s' (ys @ zs) \<and>
    s' = s\<lparr>process_list := process_list s', pcbs := m\<rparr> \<and> dom m = dom (pcbs s) \<and>
    (\<forall>q. map_option core (m q) = map_option core (pcbs s q))"
proof -
  have r: "ring pnext pprev (pcbs s) (ys @ p # zs)" and h: "process_list s = hd (ys @ p # zs)"
    using l by (auto simp: plist_def)
  have d: "distinct (ys @ p # zs)" using r by (simp add: ring_def)
  show ?thesis
  proof (cases "ys @ zs = []")
    case True
    then have "pnext n = p" using pl.ring_alone [of "pcbs s" p n] r n by simp
    then have "remove_process_from_list p s = Some (s\<lparr>process_list := NULL\<rparr>)"
      using n by (simp add: remove_process_from_list_def)
    then show ?thesis using True by (intro exI conjI) (auto simp: plist_def)
  next
    case False
    obtain m where m: "(do { m \<leftarrow> mod_node (pprev n) (set_next (pnext n)) (pcbs s);
          mod_node (pnext n) (set_prev (pprev n)) m }) = Some m"
      "ring pnext pprev m (ys @ zs)" "m p = pcbs s p" "pnext n \<noteq> p" "pnext n = hd (zs @ ys)"
      using pl.ring_remove [OF r False n] by auto
    obtain m1 where m1: "mod_node (pprev n) (set_next (pnext n)) (pcbs s) = Some m1"
      "mod_node (pnext n) (set_prev (pprev n)) m1 = Some m"
      using m(1) by (auto simp: bind_eq_Some_conv)
    have m1p: "m1 p = Some n"
      using m1(2) m(3,4) n by (auto simp: mod_node_def bind_eq_Some_conv split: if_splits)
    let ?s = "s\<lparr>pcbs := m, process_list := (if process_list s = p then pnext n else process_list s)\<rparr>"
    have e: "remove_process_from_list p s = Some ?s"
      using n m1 m1p m(3,4) by (simp add: remove_process_from_list_def)
    have "plist ?s (ys @ zs)"
      using m(2,5) False d h by (cases ys) (auto simp: plist_def)
    moreover have "map_option core (m q) = map_option core (pcbs s q)" for q
      using mod_node_keeps [OF m1(1), of core q] mod_node_keeps [OF m1(2), of core q] by simp
    moreover have "dom m = dom (pcbs s)" using mod_node_dom [OF m1(1)] mod_node_dom [OF m1(2)] by simp
    ultimately show ?thesis using e by (intro exI [of _ ?s] exI [of _ m]) simp
  qed
qed

subsection \<open>Choosing the next process\<close>

definition ready :: "procs \<Rightarrow> addr \<Rightarrow> bool" where
  "ready s p \<longleftrightarrow> (\<exists>n. pcbs s p = Some n \<and> state n = PROCESS_READY)"

lemma next_ready_seg:
  assumes "dseg pnext pprev m b ps c" "c \<notin> set ps" "m c = Some k"
  shows "next_ready m c (hd (ps @ [c])) =
    Some (hd (filter (\<lambda>p. \<exists>n. m p = Some n \<and> state n = PROCESS_READY) ps @ [c]))"
  using assms
proof (induction ps arbitrary: b)
  case Nil
  then show ?case by (simp add: next_ready.simps)
next
  case (Cons p ps)
  obtain n where n: "m p = Some n" "pnext n = hd (ps @ [c])"
    using Cons.prems(1) by (cases ps) auto
  have IH: "next_ready m c (hd (ps @ [c])) =
      Some (hd (filter (\<lambda>p. \<exists>n. m p = Some n \<and> state n = PROCESS_READY) ps @ [c]))"
    using Cons by auto
  show ?case using n IH Cons.prems(2)
    by (cases "state n = PROCESS_READY") (auto simp: next_ready.simps [of m c p])
qed

text \<open>The priority scheduler's loop as a fold over the list.\<close>

definition take_better :: "(addr \<rightharpoonup> pcb) \<Rightarrow> addr \<Rightarrow> addr \<Rightarrow> addr" where
  "take_better m p best = (case m p of None \<Rightarrow> best | Some n \<Rightarrow>
     if state n = PROCESS_READY \<and> (best = NULL \<or> priority n < priority (the (m best))) then p else best)"

lemma best_ready_seg:
  assumes "dseg pnext pprev m b (p # ps) list" "list \<notin> set ps" "best = NULL \<or> best \<in> dom m"
  shows "best_ready m list p best = Some (fold (take_better m) (p # ps) best)"
  using assms
proof (induction ps arbitrary: b p best)
  case Nil
  then obtain n where n: "m p = Some n" "pnext n = list" by auto
  show ?case
    using n Nil.prems(3) by (subst best_ready.simps) (auto simp: better_def take_better_def Let_def)
next
  case (Cons q ps)
  then obtain n where n: "m p = Some n" "pnext n = q" by auto
  let ?b = "take_better m p best"
  have b: "better m best n = Some (?b = p \<and> state n = PROCESS_READY \<and> (best = NULL \<or> priority n < priority (the (m best))))"
    using n Cons.prems(3) by (auto simp: better_def take_better_def)
  have "?b = NULL \<or> ?b \<in> dom m" using n Cons.prems(3) by (auto simp: take_better_def)
  then have IH: "best_ready m list q ?b = Some (fold (take_better m) (q # ps) ?b)"
    using Cons.prems by (intro Cons.IH [of p]) auto
  have "best_ready m list p best = best_ready m list q ?b"
    using n Cons.prems(2,3) by (subst best_ready.simps) (auto simp: better_def take_better_def Let_def)
  then show ?case using IH by simp
qed

text \<open>The fold finds the first ready process of least priority number.\<close>

lemma fold_take_better:
  assumes "set ps \<subseteq> dom m" "NULL \<notin> set ps"
  shows "let r = fold (take_better m) ps NULL; rd = filter (\<lambda>p. state (the (m p)) = PROCESS_READY) ps in
     (rd = [] \<and> r = NULL) \<or>
     (r \<in> set rd \<and> (\<forall>q \<in> set rd. priority (the (m r)) \<le> priority (the (m q))))"
  using assms
proof (induction ps rule: rev_induct)
  case (snoc p ps)
  obtain n where n: "m p = Some n" using snoc.prems by auto
  have IH: "let r = fold (take_better m) ps NULL; rd = filter (\<lambda>p. state (the (m p)) = PROCESS_READY) ps in
     (rd = [] \<and> r = NULL) \<or> (r \<in> set rd \<and> (\<forall>q \<in> set rd. priority (the (m r)) \<le> priority (the (m q))))"
    using snoc by auto
  let ?r = "fold (take_better m) ps NULL"
  have fp: "fold (take_better m) (ps @ [p]) NULL = take_better m p ?r" by simp
  have p0: "p \<noteq> NULL" "NULL \<notin> set ps" using snoc.prems(2) by auto
  show ?case unfolding fp Let_def
    using IH n p0 by (cases "?r = NULL"; cases "state n = PROCESS_READY")
      (auto simp: Let_def take_better_def intro: order_trans less_imp_le)
qed simp

subsection \<open>Well-formed process tables\<close>

definition dirs_owned :: "(addr \<rightharpoonup> pcb) \<Rightarrow> kheap \<Rightarrow> addr \<Rightarrow> bool" where
  "dirs_owned m h kd \<longleftrightarrow>
     (\<forall>p n. m p = Some n \<longrightarrow> page_dir n = kd \<or> page_dir n \<in> kheap_live h - dom m) \<and>
     (\<forall>p q n k. m p = Some n \<longrightarrow> m q = Some k \<longrightarrow> page_dir n = page_dir k \<longrightarrow> page_dir n \<noteq> kd \<longrightarrow> p = q)"

lemma dirs_ownedD:
  assumes "dirs_owned m h kd" "m p = Some n" "page_dir n \<noteq> kd"
  shows "page_dir n \<in> kheap_live h" "page_dir n \<notin> dom m" "m q = Some k \<Longrightarrow> page_dir k = page_dir n \<Longrightarrow> q = p"
proof -
  show "page_dir n \<in> kheap_live h" "page_dir n \<notin> dom m"
    using assms unfolding dirs_owned_def by blast+
  show "m q = Some k \<Longrightarrow> page_dir k = page_dir n \<Longrightarrow> q = p"
    using assms unfolding dirs_owned_def by metis
qed

lemma dirs_ownedI:
  assumes "\<And>p n. m p = Some n \<Longrightarrow> page_dir n \<noteq> kd \<Longrightarrow> page_dir n \<in> kheap_live h \<and> page_dir n \<notin> dom m"
    and "\<And>p q n k. m p = Some n \<Longrightarrow> m q = Some k \<Longrightarrow> page_dir k = page_dir n \<Longrightarrow> page_dir n \<noteq> kd \<Longrightarrow> q = p"
  shows "dirs_owned m h kd"
  unfolding dirs_owned_def
proof (intro conjI allI impI)
  fix p n assume "m p = Some n"
  then show "page_dir n = kd \<or> page_dir n \<in> kheap_live h - dom m" using assms(1) [of p n] by auto
next
  fix p q n k assume "m p = Some n" "m q = Some k" "page_dir n = page_dir k" "page_dir n \<noteq> kd"
  then show "p = q" using assms(2) [of p n q k] by simp
qed

definition proc_ok :: "procs \<Rightarrow> addr list \<Rightarrow> bool" where
  "proc_ok s xs \<longleftrightarrow> plist s xs \<and> kheap_ok (heap s) \<and> dom (pcbs s) = set xs \<and>
     set xs \<subseteq> kheap_live (heap s) \<and> dirs_owned (pcbs s) (heap s) (kernel_dir s)"

lemma core_page_dir:
  "map_option core (m' q) = map_option core (m q) \<Longrightarrow> map_option page_dir (m' q) = map_option page_dir (m q)"
  by (cases "m q"; cases "m' q") (auto dest: core_fields)

lemma dirs_owned_cong:
  assumes d: "dirs_owned m h kd" "dom m' = dom m"
    and c: "\<And>q. map_option page_dir (m' q) = map_option page_dir (m q)"
  shows "dirs_owned m' h kd"
proof (rule dirs_ownedI)
  have old: "\<exists>n0. m p = Some n0 \<and> page_dir n0 = page_dir n" if "m' p = Some n" for p n
    using c [of p] that by (cases "m p") auto
  fix p n assume p: "m' p = Some n" "page_dir n \<noteq> kd"
  then obtain n0 where n0: "m p = Some n0" "page_dir n0 = page_dir n" using old by blast
  then show "page_dir n \<in> kheap_live h \<and> page_dir n \<notin> dom m'" using dirs_ownedD [OF d(1)] p(2) d(2) by metis
  fix q k assume q: "m' q = Some k" "page_dir k = page_dir n"
  then obtain k0 where "m q = Some k0" "page_dir k0 = page_dir k" using old by blast
  with n0 show "q = p" using dirs_ownedD(3) [OF d(1)] p(2) q(2) by metis
qed

lemma plist_cong:
  "plist s xs \<Longrightarrow> process_list s' = process_list s \<Longrightarrow>
   (\<And>x. x \<in> set xs \<Longrightarrow> map_option (\<lambda>n. (pnext n, pprev n)) (pcbs s' x) = map_option (\<lambda>n. (pnext n, pprev n)) (pcbs s x)) \<Longrightarrow>
   plist s' xs"
  unfolding plist_def using ring_cong [of pnext pprev "pcbs s" xs "pcbs s'"] by presburger

lemma pcb_sizes_small [simp]: "sizeof_pcb \<le> 0xFFFFFFE8" "(4096 :: u32) \<le> 0xFFFFFFE8" "(8192 :: u32) \<le> 0xFFFFFFE8"
  by (simp_all add: sizeof_pcb_def)

lemma pcb_drop_fresh: "p \<notin> dom m \<Longrightarrow> m(p := None) = m"
  by auto

lemma dirs_owned_mono:
  "dirs_owned m h kd \<Longrightarrow> kheap_live h \<subseteq> kheap_live h' \<Longrightarrow> dirs_owned m h' kd"
  by (rule dirs_ownedI) (use dirs_ownedD [of m h kd] in blast)+

lemma dirs_owned_add:
  assumes d: "dirs_owned m h kd" and p: "p \<notin> kheap_live h" and live: "kheap_live h \<subseteq> kheap_live h'"
    and n: "page_dir n = kd \<or> page_dir n \<in> kheap_live h' - insert p (kheap_live h)"
    and dom: "dom m \<subseteq> kheap_live h"
  shows "dirs_owned (m(p \<mapsto> n)) h' kd"
proof (rule dirs_ownedI)
  fix q k assume q: "(m(p \<mapsto> n)) q = Some k" "page_dir k \<noteq> kd"
  show "page_dir k \<in> kheap_live h' \<and> page_dir k \<notin> dom (m(p \<mapsto> n))"
  proof (cases "q = p")
    case True
    then show ?thesis using q n dom by auto
  next
    case False
    then have "m q = Some k" using q(1) by simp
    then show ?thesis using dirs_ownedD [OF d _ q(2)] live p by auto
  qed
  fix q' k' assume q': "(m(p \<mapsto> n)) q' = Some k'" "page_dir k' = page_dir k"
  have new: "page_dir x \<noteq> page_dir n" if "m y = Some x" "page_dir x \<noteq> kd" for x y
    using dirs_ownedD(1) [OF d that] n that(2) by auto
  show "q' = q"
  proof (cases "q = p")
    case True
    then show ?thesis using q q' new [of q' k'] by (cases "q' = p") auto
  next
    case False
    then have mq: "m q = Some k" using q(1) by simp
    show ?thesis
    proof (cases "q' = p")
      case True
      then show ?thesis using q'(1,2) new [OF mq q(2)] by simp
    next
      case False
      then show ?thesis using dirs_ownedD(3) [OF d mq q(2), of q' k'] q' by simp
    qed
  qed
qed

lemma dirs_owned_remove:
  assumes "dirs_owned m h kd" "m p = Some n"
    and "kheap_live h' = kheap_live h - {p} - (if page_dir n = kd then {} else {page_dir n})"
  shows "dirs_owned (m(p := None)) h' kd"
proof (rule dirs_ownedI)
  fix q k assume q: "(m(p := None)) q = Some k" "page_dir k \<noteq> kd"
  then have m: "m q = Some k" "q \<noteq> p" by (auto split: if_splits)
  have "page_dir k \<noteq> page_dir n" using dirs_ownedD(3) [OF assms(1) m(1) q(2), of p n] assms(2) m(2) by auto
  moreover have "page_dir k \<noteq> p" using dirs_ownedD(2) [OF assms(1) m(1) q(2)] assms(2) by auto
  ultimately show "page_dir k \<in> kheap_live h' \<and> page_dir k \<notin> dom (m(p := None))"
    using dirs_ownedD [OF assms(1) m(1) q(2)] assms(3) by auto
  fix q' k' assume "(m(p := None)) q' = Some k'" "page_dir k' = page_dir k"
  then show "q' = q" using dirs_ownedD(3) [OF assms(1) m(1) q(2)] by (auto split: if_splits)
qed

text \<open>Adding a new control block to a well-formed table.\<close>

lemma proc_ok_add:
  assumes ok: "proc_ok s xs" and p: "p \<noteq> NULL" "p \<notin> kheap_live (heap s)"
    and h: "kheap_ok h" "insert p (kheap_live (heap s)) \<subseteq> kheap_live h"
    and d: "dirs_owned ((pcbs s)(p \<mapsto> n)) h (kernel_dir s)"
    and s1: "s1 = s\<lparr>heap := h, pcbs := (pcbs s)(p \<mapsto> n)\<rparr>"
  shows "\<exists>s'. add_process_to_list p s1 = Some s' \<and> proc_ok s' (xs @ [p]) \<and>
    s' = s1\<lparr>process_list := process_list s', pcbs := pcbs s'\<rparr> \<and>
    (\<forall>q. map_option core (pcbs s' q) = map_option core (pcbs s1 q))"
proof -
  have np: "p \<notin> set xs" "p \<notin> dom (pcbs s)" using ok p(2) by (auto simp: proc_ok_def)
  have l: "plist s1 xs"
    by (rule plist_cong [of s]) (use ok np in \<open>auto simp: proc_ok_def s1\<close>)
  obtain m where m: "add_process_to_list p s1 = Some (s1\<lparr>process_list := hd (xs @ [p]), pcbs := m\<rparr>)"
    "ring pnext pprev m (xs @ [p])" "dom m = dom (pcbs s1)"
    "\<forall>q. map_option core (m q) = map_option core (pcbs s1 q)"
    using add_process_to_list_ok [OF l np(1) p(1), of n] by (auto simp: s1)
  have "dirs_owned m h (kernel_dir s)"
    by (rule dirs_owned_cong [OF d]) (use m(3,4) core_page_dir [of m _ "pcbs s1"] in \<open>simp_all add: s1\<close>)
  then have "proc_ok (s1\<lparr>process_list := hd (xs @ [p]), pcbs := m\<rparr>) (xs @ [p])"
    using m(2,3) ok h by (auto simp: proc_ok_def plist_def s1)
  then show ?thesis using m(1,4) by (intro exI conjI) auto
qed

lemma proc_ok_heap:
  assumes "proc_ok s xs" "kheap_ok h" "kheap_live h = kheap_live (heap s)"
    and "process_list s' = process_list s" "pcbs s' = pcbs s" "heap s' = h" "kernel_dir s' = kernel_dir s"
  shows "proc_ok s' xs"
  using assms dirs_owned_mono [of "pcbs s" "heap s" "kernel_dir s" h]
  by (simp add: proc_ok_def plist_def)

lemma init_process_management_ok:
  assumes ok: "proc_ok s []" "pcbs s = Map.empty"
  shows "\<exists>s' xs. init_process_management s = Some s' \<and> proc_ok s' xs \<and> kernel_dir s' = kernel_dir s"
proof -
  have h: "kheap_ok (heap s)" using ok by (simp add: proc_ok_def)
  from h pcb_sizes_small(1) show ?thesis
  proof (cases rule: kh.allocE)
    case null
    then show ?thesis using ok by (auto simp: init_process_management_def)
  next
    case (fresh p h1)
    let ?n = "pcb_zero\<lparr>pid := 0, state := PROCESS_RUNNING, page_dir := kernel_dir s, priority := 10,
      ticks := 0, name := ''kernel''\<rparr>"
    let ?s = "s\<lparr>current_process := p\<rparr>"
    have ok1: "proc_ok ?s []" using ok by (simp add: proc_ok_def plist_def)
    have d: "dirs_owned ((pcbs ?s)(p \<mapsto> ?n)) h1 (kernel_dir ?s)"
      using ok fresh by (intro dirs_owned_add [of _ "heap s"]) (auto simp: proc_ok_def)
    obtain s' where s': "add_process_to_list p (?s\<lparr>heap := h1, pcbs := (pcbs ?s)(p \<mapsto> ?n)\<rparr>) = Some s'"
      "proc_ok s' ([] @ [p])" "s' = ?s\<lparr>heap := h1, pcbs := (pcbs ?s)(p \<mapsto> ?n), process_list := process_list s', pcbs := pcbs s'\<rparr>"
      using proc_ok_add [OF ok1 fresh(2) _ fresh(3) _ d refl] fresh(4,5) by auto
    have e: "s\<lparr>heap := h1, pcbs := (pcbs s)(p \<mapsto> ?n), current_process := p\<rparr> =
        ?s\<lparr>heap := h1, pcbs := (pcbs ?s)(p \<mapsto> ?n)\<rparr>" by simp
    have "init_process_management s =
        add_process_to_list p (s\<lparr>heap := h1, pcbs := (pcbs s)(p \<mapsto> ?n), current_process := p\<rparr>)"
      using fresh(1,2) by (simp add: init_process_management_def copy_pcb_name_def)
    then have "init_process_management s = Some s'" unfolding e s'(1) .
    moreover have "kernel_dir s' = kernel_dir s" by (subst s'(3)) simp
    ultimately show ?thesis using s'(2) by blast
  qed
qed

text \<open>A new process is appended to the list; on lack of memory nothing is left behind.\<close>

lemma create_process_ok:
  assumes ok: "proc_ok s xs" and nm: "length nm < 32"
  shows "\<exists>p s'. create_process nm e prio s = Some (p, s') \<and> kernel_dir s' = kernel_dir s \<and>
    current_process s' = current_process s \<and> current_scheduler s' = current_scheduler s \<and>
    (p = NULL \<and> proc_ok s' xs \<and> kheap_live (heap s') = kheap_live (heap s) \<or>
     p \<noteq> NULL \<and> p \<notin> set xs \<and> proc_ok s' (xs @ [p]) \<and>
     (\<forall>q. q \<noteq> p \<longrightarrow> map_option core (pcbs s' q) = map_option core (pcbs s q)) \<and>
     (\<exists>n st. pcbs s' p = Some n \<and> pid n = next_pid s \<and> state n = PROCESS_READY \<and> name n = nm \<and>
        priority n = prio \<and> esp n = st + 8192 \<and>
        kheap_live (heap s') = {p, page_dir n, st} \<union> kheap_live (heap s) \<and>
        {page_dir n, st} \<inter> kheap_live (heap s) = {}))"
proof -
  have h: "kheap_ok (heap s)" and dom: "dom (pcbs s) \<subseteq> kheap_live (heap s)"
    and own: "dirs_owned (pcbs s) (heap s) (kernel_dir s)" using ok by (auto simp: proc_ok_def)
  from h pcb_sizes_small(1) show ?thesis
  proof (cases rule: kh.allocE)
    case null
    then show ?thesis using ok by (auto simp: create_process_def)
  next
    case (fresh p h1)
    note a = fresh
    have nd: "p \<notin> dom (pcbs s)" using a(4) dom by auto
    from a(3) pcb_sizes_small(2) show ?thesis
    proof (cases rule: kh.allocE)
      case null
      obtain h2 where h2: "kfree p h1 = Some h2" "kheap_ok h2" "kheap_live h2 = kheap_live (heap s)"
        using kh.undo_one [OF ok [unfolded proc_ok_def, THEN conjunct2, THEN conjunct1] pcb_sizes_small(1) a(1,2)] by auto
      have "create_process nm e prio s = Some (NULL, s\<lparr>heap := h2, next_pid := next_pid s + 1\<rparr>)"
        using a(1,2) null h2(1) nm pcb_drop_fresh [OF nd]
        by (simp add: create_process_def copy_pcb_name_def free_pcb_def)
      moreover have "proc_ok (s\<lparr>heap := h2, next_pid := next_pid s + 1\<rparr>) xs"
        by (rule proc_ok_heap [OF ok h2(2,3)]) simp_all
      ultimately show ?thesis using h2(3) by auto
    next
      case (fresh d h2)
      note b = fresh
      from b(3) pcb_sizes_small(3) show ?thesis
      proof (cases rule: kh.allocE)
        case null
        obtain h3 h4 where h34: "kfree d h2 = Some h3" "kfree p h3 = Some h4" "kheap_ok h4"
          "kheap_live h4 = kheap_live (heap s)"
          using kh.undo_two [OF h pcb_sizes_small(1) a(1,2) pcb_sizes_small(2) b(1,2)] by auto
        have "create_process nm e prio s = Some (NULL, s\<lparr>heap := h4, next_pid := next_pid s + 1,
            dirs := (dirs s)(d := dirs s (kernel_dir s))\<rparr>)"
          using a(1,2) b(1,2) null h34 nm pcb_drop_fresh [OF nd]
          by (simp add: create_process_def copy_pcb_name_def free_pcb_def)
        moreover have "proc_ok (s\<lparr>heap := h4, next_pid := next_pid s + 1,
            dirs := (dirs s)(d := dirs s (kernel_dir s))\<rparr>) xs"
          by (rule proc_ok_heap [OF ok h34(3,4)]) simp_all
        ultimately show ?thesis using h34(4) by auto
      next
        case (fresh st h3)
        note c = fresh
        let ?n = "pcb_zero\<lparr>pid := next_pid s, state := PROCESS_READY, priority := prio, ticks := 0,
          name := nm, page_dir := d, esp := st + 8192, ebp := st + 8192\<rparr>"
        let ?s = "s\<lparr>next_pid := next_pid s + 1, dirs := (dirs s)(d := dirs s (kernel_dir s))\<rparr>"
        have ok1: "proc_ok ?s xs" using ok by (simp add: proc_ok_def plist_def)
        have live: "kheap_live h3 = {p, d, st} \<union> kheap_live (heap s)" "d \<noteq> p" "d \<notin> kheap_live (heap s)"
          "st \<notin> kheap_live (heap s)" using a b c by auto
        have own': "dirs_owned ((pcbs ?s)(p \<mapsto> ?n)) h3 (kernel_dir ?s)"
          using own a(4) live dom by (intro dirs_owned_add [of _ "heap s"]) auto
        obtain s' where s': "add_process_to_list p (?s\<lparr>heap := h3, pcbs := (pcbs ?s)(p \<mapsto> ?n)\<rparr>) = Some s'"
          "proc_ok s' (xs @ [p])"
          "s' = ?s\<lparr>heap := h3, pcbs := (pcbs ?s)(p \<mapsto> ?n), process_list := process_list s', pcbs := pcbs s'\<rparr>"
          "\<forall>q. map_option core (pcbs s' q) = map_option core (((pcbs s)(p \<mapsto> ?n)) q)"
          using proc_ok_add [OF ok1 a(2) _ c(3) _ own' refl] a(4) live(1) by auto
        have "create_process nm e prio s = Some (p, s')"
        proof -
          let ?t = "s\<lparr>next_pid := next_pid s + 1, dirs := (dirs s)(d := dirs s (kernel_dir s)), heap := h3,
              pcbs := (pcbs s)(p \<mapsto> ?n)\<rparr>"
          have "?t = ?s\<lparr>heap := h3, pcbs := (pcbs ?s)(p \<mapsto> ?n)\<rparr>" by simp
          then have "add_process_to_list p ?t = Some s'" using s'(1) by (simp only:)
          then show ?thesis using a(1,2) b(1,2) c(1,2) nm
            by (simp add: create_process_def copy_pcb_name_def Let_def)
        qed
        moreover obtain k where k: "pcbs s' p = Some k" "core k = core ?n"
          using s'(4) [THEN spec, of p] by auto
        moreover have "kernel_dir s' = kernel_dir s" "current_process s' = current_process s" "heap s' = h3"
          "current_scheduler s' = current_scheduler s"
          by (subst s'(3), simp)+
        moreover have "map_option core (pcbs s' q) = map_option core (pcbs s q)" if "q \<noteq> p" for q
          using s'(4) that by simp
        moreover have "p \<notin> set xs" using nd ok by (simp add: proc_ok_def)
        ultimately show ?thesis
          using core_fields [OF k(2)] s'(2) a(2) live
          by (intro exI [of _ p] exI [of _ s'] conjI disjI2 exI [of _ k] exI [of _ st]) auto
      qed
    qed
  qed
qed

subsection \<open>Terminating\<close>

lemma find_pid_seg:
  assumes "dseg pnext pprev m b (p # ps) list" "list \<notin> set ps"
  shows "(\<exists>ys q zs n. p # ps = ys @ q # zs \<and> m q = Some n \<and> pid n = k \<and>
            (\<forall>y \<in> set ys. \<forall>n. m y = Some n \<longrightarrow> pid n \<noteq> k) \<and> find_pid m list k p = Some q) \<or>
         ((\<forall>y \<in> set (p # ps). \<forall>n. m y = Some n \<longrightarrow> pid n \<noteq> k) \<and> find_pid m list k p = Some NULL)"
  using assms
proof (induction ps arbitrary: b p)
  case Nil
  then obtain n where n: "m p = Some n" "pnext n = list" by auto
  show ?case
  proof (cases "pid n = k")
    case True
    then have "find_pid m list k p = Some p" using n by (simp add: find_pid.simps)
    then show ?thesis using True n by (intro disjI1 exI [of _ "[]"] exI [of _ p] exI [of _ n]) auto
  qed (use n in \<open>simp add: find_pid.simps\<close>)
next
  case (Cons r ps)
  then obtain n where n: "m p = Some n" "pnext n = r" by auto
  show ?case
  proof (cases "pid n = k")
    case True
    then have "find_pid m list k p = Some p" using n by (simp add: find_pid.simps)
    then show ?thesis using True n by (intro disjI1 exI [of _ "[]"] exI [of _ p] exI [of _ "r # ps"] exI [of _ n]) auto
  next
    case False
    have e: "find_pid m list k p = find_pid m list k r"
      using n False Cons.prems(2) by (subst find_pid.simps) auto
    have "dseg pnext pprev m p (r # ps) list" "list \<notin> set ps" using Cons.prems by auto
    from Cons.IH [OF this] show ?thesis
    proof (elim disjE exE conjE)
      fix ys q zs n'
      assume q: "r # ps = ys @ q # zs" "m q = Some n'" "pid n' = k"
        "\<forall>y \<in> set ys. \<forall>n. m y = Some n \<longrightarrow> pid n \<noteq> k" "find_pid m list k r = Some q"
      show ?thesis using q n False e
        by (intro disjI1 exI [of _ "p # ys"] exI [of _ q] exI [of _ zs] exI [of _ n'] conjI) auto
    next
      assume none: "\<forall>y \<in> set (r # ps). \<forall>n. m y = Some n \<longrightarrow> pid n \<noteq> k" "find_pid m list k r = Some NULL"
      then show ?thesis using n False e by auto
    qed
  qed
qed

lemma end_process_ok:
  assumes ok: "proc_ok s (ys @ p # zs)" and n: "pcbs s p = Some n"
  shows "\<exists>s'. end_process p s = Some s' \<and> proc_ok s' (ys @ zs) \<and> current_process s' = current_process s \<and>
    kheap_live (heap s') = kheap_live (heap s) - {p} - (if page_dir n = kernel_dir s then {} else {page_dir n}) \<and>
    (\<forall>q. q \<noteq> p \<longrightarrow> map_option core (pcbs s' q) = map_option core (pcbs s q))"
proof -
  have h: "kheap_ok (heap s)" and own: "dirs_owned (pcbs s) (heap s) (kernel_dir s)"
    and dom: "dom (pcbs s) = set (ys @ p # zs)" and live: "set (ys @ p # zs) \<subseteq> kheap_live (heap s)"
    and l: "plist s (ys @ p # zs)" using ok by (auto simp: proc_ok_def)
  let ?n = "n\<lparr>state := PROCESS_TERMINATED\<rparr>" and ?D = "if page_dir n = kernel_dir s then {} else {page_dir n}"
  let ?m = "(pcbs s)(p \<mapsto> ?n)"
  obtain h1 where h1: "(if page_dir n \<noteq> NULL \<and> page_dir n \<noteq> kernel_dir s
      then do { h \<leftarrow> kfree (page_dir n) (heap s); Some (s\<lparr>pcbs := ?m, heap := h\<rparr>) } else Some (s\<lparr>pcbs := ?m\<rparr>))
      = Some (s\<lparr>pcbs := ?m, heap := h1\<rparr>)" "kheap_ok h1" "kheap_live h1 = kheap_live (heap s) - ?D"
  proof (cases "page_dir n = kernel_dir s")
    case True
    then show thesis using that [of "heap s"] h by simp
  next
    case False
    have d: "page_dir n \<in> kheap_live (heap s)" using dirs_ownedD(1) [OF own n False] .
    then have "page_dir n \<noteq> NULL" using kh.null_not_live [OF h] by auto
    then show thesis using that kh.dealloc_live [OF h d] False by auto
  qed
  let ?s1 = "s\<lparr>pcbs := ?m, heap := h1\<rparr>"
  have "plist ?s1 (ys @ p # zs)" by (rule plist_cong [OF l]) (use n in auto)
  then obtain s2 m2 where s2: "remove_process_from_list p ?s1 = Some s2" "plist s2 (ys @ zs)"
    "s2 = ?s1\<lparr>process_list := process_list s2, pcbs := m2\<rparr>" "dom m2 = dom ?m"
    "\<forall>q. map_option core (m2 q) = map_option core (?m q)"
    using remove_process_from_list_ok [of ?s1 ys p zs ?n] by auto
  have f2: "heap s2 = h1" "kernel_dir s2 = kernel_dir s" "current_process s2 = current_process s" "pcbs s2 = m2"
    by (subst s2(3), simp)+
  have dis: "distinct (ys @ p # zs)" using l by (auto simp: plist_def ring_def split: if_splits)
  have np: "p \<notin> ?D" using dirs_ownedD(2) [OF own n] n by auto
  then have "p \<in> kheap_live h1" using live h1(3) by auto
  then obtain h3 where h3: "kfree p h1 = Some h3" "kheap_ok h3" "kheap_live h3 = kheap_live h1 - {p}"
    using kh.dealloc_live [OF h1(2)] by blast
  let ?s3 = "s2\<lparr>heap := h3, pcbs := m2(p := None)\<rparr>"
  have e: "end_process p s = Some ?s3"
    using n h1(1) s2(1) h3(1) f2
    by (cases "page_dir n \<noteq> NULL \<and> page_dir n \<noteq> kernel_dir s")
      (auto simp: end_process_def mod_node_def free_pcb_def Let_def bind_eq_Some_conv)
  have own': "dirs_owned (m2(p := None)) h3 (kernel_dir s)"
  proof (rule dirs_owned_cong)
    show "dirs_owned ((pcbs s)(p := None)) h3 (kernel_dir s)"
      by (rule dirs_owned_remove [OF own n]) (use h1(3) h3(3) in auto)
    show "dom (m2(p := None)) = dom ((pcbs s)(p := None))" using s2(4) n by auto
    show "map_option page_dir ((m2(p := None)) q) = map_option page_dir (((pcbs s)(p := None)) q)" for q
      using s2(5) core_page_dir [of m2 q ?m] by simp
  qed
  have "plist ?s3 (ys @ zs)" by (rule plist_cong [OF s2(2)]) (use dis f2 in auto)
  moreover have "dom (m2(p := None)) = set (ys @ zs)" using s2(4) dom dis n by auto
  moreover have "?D \<inter> set (ys @ zs) = {}" using dirs_ownedD(2) [OF own n] dom by auto
  then have "set (ys @ zs) \<subseteq> kheap_live h3" using live h3(3) h1(3) dis by auto
  ultimately have "proc_ok ?s3 (ys @ zs)" using own' h3(2) f2 by (simp add: proc_ok_def)
  moreover have "kheap_live h3 = kheap_live (heap s) - {p} - ?D" using h3(3) h1(3) by auto
  moreover have "\<forall>q. q \<noteq> p \<longrightarrow> map_option core (pcbs ?s3 q) = map_option core (pcbs s q)" using s2(5) by auto
  ultimately show ?thesis using e f2 by (intro exI [of _ ?s3]) simp
qed

lemma find_pid_ok:
  assumes ok: "proc_ok s xs" "xs \<noteq> []"
  shows "(\<exists>ys q zs n. xs = ys @ q # zs \<and> pcbs s q = Some n \<and> pid n = k \<and>
            (\<forall>y \<in> set ys. \<forall>n. pcbs s y = Some n \<longrightarrow> pid n \<noteq> k) \<and>
            find_pid (pcbs s) (process_list s) k (process_list s) = Some q \<and> q \<noteq> NULL) \<or>
         ((\<forall>y \<in> set xs. \<forall>n. pcbs s y = Some n \<longrightarrow> pid n \<noteq> k) \<and>
            find_pid (pcbs s) (process_list s) k (process_list s) = Some NULL)"
proof -
  obtain x ps where xs: "xs = x # ps" using ok(2) by (cases xs) auto
  have r: "ring pnext pprev (pcbs s) (x # ps)" "process_list s = x"
    using ok xs by (auto simp: proc_ok_def plist_def)
  have sg: "dseg pnext pprev (pcbs s) (last (x # ps)) (x # ps) x" "x \<notin> set ps"
    using r(1) by (auto simp: ring_def)
  have nn: "NULL \<notin> set xs" using r(1) xs by (simp add: ring_def)
  from find_pid_seg [OF sg, of k, folded xs] show ?thesis
  proof (elim disjE exE conjE)
    fix ys q zs n
    assume q: "xs = ys @ q # zs" "pcbs s q = Some n" "pid n = k"
      "\<forall>y\<in>set ys. \<forall>n. pcbs s y = Some n \<longrightarrow> pid n \<noteq> k" "find_pid (pcbs s) x k x = Some q"
    moreover have "q \<noteq> NULL" using nn q(1) by auto
    ultimately show ?thesis unfolding r(2) by blast
  qed (simp add: r(2))
qed

subsection \<open>Scheduling\<close>

lemma next_ready_ring:
  assumes r: "ring pnext pprev (pcbs s) (ys @ c # zs)"
  shows "\<exists>n. pcbs s c = Some n \<and> next_ready (pcbs s) c (pnext n) = Some (hd (filter (ready s) (zs @ ys) @ [c]))"
proof -
  have r': "ring pnext pprev (pcbs s) (c # zs @ ys)" using ring_rotate [OF r] by simp
  have t: "dseg pnext pprev (pcbs s) c (zs @ ys) c" "c \<notin> set (zs @ ys)" using ring_tail [OF r'] by auto
  obtain n where n: "pcbs s c = Some n" "pnext n = hd ((zs @ ys) @ [c])" using ring_head(1) [OF r'] by auto
  have "ready s = (\<lambda>p. \<exists>n. pcbs s p = Some n \<and> state n = PROCESS_READY)" by (simp add: ready_def fun_eq_iff)
  then show ?thesis using next_ready_seg [OF t n(1)] n by simp
qed

lemma switch_process_ok:
  assumes "pcbs s (current_process s) = Some c" "pcbs s p = Some n" "p \<noteq> NULL" "p \<noteq> current_process s"
  shows "switch_process p s = Some (s\<lparr>stk := (stk s)(cpu_esp s - 24 := cpu_ebp s),
      pcbs := (pcbs s)(current_process s \<mapsto> c\<lparr>esp := cpu_esp s - 32, ebp := cpu_ebp s\<rparr>),
      current_process := p, cpu_esp := esp n + 32,
      cpu_ebp := ((stk s)(cpu_esp s - 24 := cpu_ebp s)) (esp n + 8), cpu_cr3 := page_dir n AND 0xFFFFF000\<rparr>)"
proof -
  have e: "cpu_esp s - 32 + 8 = cpu_esp s - 24" by (simp add: algebra_simps)
  have "mod_node (current_process s) f (pcbs s) = Some ((pcbs s)(current_process s \<mapsto> f c))" for f
    using assms(1) by (simp add: mod_node_def)
  moreover have "((pcbs s)(current_process s \<mapsto> x)) p = Some n" for x using assms(2,4) by simp
  ultimately show ?thesis
    using assms(3,4) by (simp add: switch_process_def Let_def e del: fun_upd_apply)
qed

lemma choose_process_ok:
  assumes ok: "proc_ok s (ys @ c # zs)" and c: "current_process s = c"
  shows "current_scheduler s \<noteq> SCHEDULER_PRIORITY \<Longrightarrow>
      choose_process s = Some (hd (filter (ready s) (zs @ ys) @ [c]))"
    and "current_scheduler s = SCHEDULER_PRIORITY \<Longrightarrow>
      choose_process s = Some (fold (take_better (pcbs s)) (ys @ c # zs) NULL)"
proof -
  have r: "ring pnext pprev (pcbs s) (ys @ c # zs)" and h: "process_list s = hd (ys @ c # zs)"
    using ok by (auto simp: proc_ok_def plist_def)
  show "choose_process s = Some (hd (filter (ready s) (zs @ ys) @ [c]))"
    if "current_scheduler s \<noteq> SCHEDULER_PRIORITY"
    using next_ready_ring [OF r] that c by (cases "current_scheduler s") (auto simp: choose_process_def)
  obtain x ps where xs: "ys @ c # zs = x # ps" by (cases ys) auto
  have "dseg pnext pprev (pcbs s) (last (x # ps)) (x # ps) x" "x \<notin> set ps"
    using r unfolding xs by (auto simp: ring_def)
  from best_ready_seg [OF this, of NULL]
  show "choose_process s = Some (fold (take_better (pcbs s)) (ys @ c # zs) NULL)"
    if "current_scheduler s = SCHEDULER_PRIORITY"
    using that h unfolding xs by (simp add: choose_process_def)
qed

text \<open>\<open>schedule\<close> switches to the chosen process when it is ready and not the current one.\<close>

lemma proc_schedule_chosen:
  assumes ok: "proc_ok s xs" "xs \<noteq> []" and c: "current_process s \<in> set xs"
    and ch: "choose_process s = Some p" "p = NULL \<or> p \<in> set xs"
  shows "\<exists>s'. proc_schedule s = Some s' \<and> proc_ok s' xs \<and>
    (if p \<noteq> NULL \<and> ready s p \<and> p \<noteq> current_process s then current_process s' = p else s' = s) \<and>
    (\<forall>q. map_option state (pcbs s' q) = map_option state (pcbs s q))"
proof -
  have l0: "process_list s \<noteq> NULL" using ok plist_nonnull by (auto simp: proc_ok_def)
  have dom: "dom (pcbs s) = set xs" using ok by (simp add: proc_ok_def)
  show ?thesis
  proof (cases "p \<noteq> NULL \<and> ready s p \<and> p \<noteq> current_process s")
    case True
    then obtain n where n: "pcbs s p = Some n" "state n = PROCESS_READY" by (auto simp: ready_def)
    obtain k where k: "pcbs s (current_process s) = Some k" using c dom by auto
    note sw = switch_process_ok [OF k n(1)]
    let ?m = "(pcbs s)(current_process s \<mapsto> k\<lparr>esp := cpu_esp s - 32, ebp := cpu_ebp s\<rparr>)"
    obtain s' where s': "switch_process p s = Some s'" "pcbs s' = ?m" "process_list s' = process_list s"
      "heap s' = heap s" "kernel_dir s' = kernel_dir s" "current_process s' = p"
      using sw True by auto
    have "dirs_owned ?m (heap s) (kernel_dir s)"
      by (rule dirs_owned_cong [of "pcbs s"]) (use ok(1) k in \<open>auto simp: proc_ok_def\<close>)
    moreover have "plist s' xs"
      by (rule plist_cong [of s]) (use ok k s' in \<open>auto simp: proc_ok_def\<close>)
    ultimately have "proc_ok s' xs" using ok(1) s' k by (auto simp: proc_ok_def)
    moreover have "proc_schedule s = Some s'" using True n s'(1) l0 ch(1) by (simp add: proc_schedule_def)
    moreover have "\<forall>q. map_option state (pcbs s' q) = map_option state (pcbs s q)" using s'(2) k by auto
    ultimately show ?thesis using True s'(6) by auto
  next
    case False
    have "proc_schedule s = Some s"
    proof (cases "p = NULL")
      case True
      then show ?thesis using l0 ch(1) by (simp add: proc_schedule_def)
    next
      case p0: False
      then obtain n where "pcbs s p = Some n" using ch(2) dom by auto
      then show ?thesis using False p0 l0 ch(1) by (auto simp: proc_schedule_def ready_def)
    qed
    then show ?thesis using False ok(1) by auto
  qed
qed

text \<open>What happens to the process table: processes are created and ended, the scheduler type is
  set, the scheduler runs.\<close>

inductive proc_step :: "procs \<Rightarrow> procs \<Rightarrow> bool" where
  create: "create_process nm e prio s = Some (p, s') \<Longrightarrow> proc_step s s'"
| terminate: "terminate_process k s = Some s' \<Longrightarrow> proc_step s s'"
| set_type: "proc_step s (set_scheduler_type t s)"
| run: "proc_schedule s = Some s' \<Longrightarrow> proc_step s s'"

lemma terminate_process_ok:
  assumes ok: "proc_ok s xs" "xs \<noteq> []"
  shows "\<exists>s' xs'. terminate_process k s = Some s' \<and> proc_ok s' xs' \<and> set xs' \<subseteq> set xs \<and> current_process s' = current_process s"
proof (cases "k = 0")
  case True
  then show ?thesis using ok by (auto simp: terminate_process_def)
next
  case False
  from find_pid_ok [OF ok, of k] show ?thesis
  proof (elim disjE exE conjE)
    fix ys q zs n
    assume q: "xs = ys @ q # zs" "pcbs s q = Some n" "pid n = k" "q \<noteq> NULL"
      "find_pid (pcbs s) (process_list s) k (process_list s) = Some q"
    obtain s' where s': "end_process q s = Some s'" "proc_ok s' (ys @ zs)" "current_process s' = current_process s"
      using end_process_ok [of s ys q zs n] ok(1) q(1,2) by auto
    then show ?thesis using False q by (intro exI [of _ s'] exI [of _ "ys @ zs"]) (auto simp: terminate_process_def)
  next
    assume "find_pid (pcbs s) (process_list s) k (process_list s) = Some NULL"
    then show ?thesis using False ok by (auto simp: terminate_process_def)
  qed
qed

lemma terminate_process_empty: "proc_ok s [] \<Longrightarrow> k \<noteq> 0 \<Longrightarrow> terminate_process k s = None"
proof -
  assume "proc_ok s []" "k \<noteq> 0"
  then have "process_list s = NULL" "pcbs s NULL = None" by (auto simp: proc_ok_def plist_def)
  then show ?thesis using \<open>k \<noteq> 0\<close> by (simp add: terminate_process_def find_pid.simps [of "pcbs s"])
qed

lemma proc_schedule_keeps:
  assumes ok: "proc_ok s xs" and sch: "proc_schedule s = Some s'"
  shows "proc_ok s' xs"
proof (cases "s' = s")
  case False
  then obtain p n where p: "pcbs s p = Some n" "switch_process p s = Some s'" "process_list s \<noteq> NULL"
    using sch by (auto simp: proc_schedule_def bind_eq_Some_conv split: if_splits)
  then obtain c where c: "pcbs s (current_process s) = Some c" "p \<noteq> NULL" "p \<noteq> current_process s"
    using False by (auto simp: switch_process_def mod_node_def bind_eq_Some_conv Let_def split: if_splits)
  let ?m = "(pcbs s)(current_process s \<mapsto> c\<lparr>esp := cpu_esp s - 32, ebp := cpu_ebp s\<rparr>)"
  have s': "pcbs s' = ?m" "process_list s' = process_list s" "heap s' = heap s" "kernel_dir s' = kernel_dir s"
    using p(2) switch_process_ok [OF c(1) p(1) c(2,3)] by auto
  have "dirs_owned ?m (heap s) (kernel_dir s)"
    by (rule dirs_owned_cong [of "pcbs s"]) (use ok(1) c in \<open>auto simp: proc_ok_def\<close>)
  moreover have "plist s' xs" by (rule plist_cong [of s]) (use ok c s' in \<open>auto simp: proc_ok_def\<close>)
  ultimately show ?thesis using ok s' c by (auto simp: proc_ok_def)
qed (use ok in simp)

text \<open>A name of 32 or more characters overruns its field, unless there is no memory for the control block.\<close>

lemma create_process_long:
  assumes ok: "proc_ok s xs" and nm: "\<not> length nm < 32"
  shows "create_process nm e prio s =
    (if kmalloc sizeof_pcb (heap s) = Some (NULL, heap s) then Some (NULL, s) else None)"
proof -
  have "kheap_ok (heap s)" using ok by (simp add: proc_ok_def)
  then show ?thesis using pcb_sizes_small(1)
  proof (cases rule: kh.allocE)
    case null
    then show ?thesis by (simp add: create_process_def)
  next
    case (fresh p h)
    then show ?thesis using nm by (simp add: create_process_def copy_pcb_name_def)
  qed
qed

lemma proc_step_ok:
  assumes "proc_step s s'" "proc_ok s xs"
  shows "\<exists>xs'. proc_ok s' xs'"
  using assms(1)
proof (cases rule: proc_step.cases)
  case (create nm e prio p)
  then show ?thesis
    using create_process_ok [OF assms(2), of nm e prio] create_process_long [OF assms(2), of nm e prio] assms(2)
    by (cases "length nm < 32") (auto split: if_splits)
next
  case (terminate k)
  then show ?thesis
    using terminate_process_ok [OF assms(2), of k] terminate_process_empty [of s k] assms(2)
    by (cases "xs = []"; cases "k = 0") (auto simp: terminate_process_def)
next
  case (set_type t)
  then show ?thesis using assms(2)
    by (intro exI [of _ xs]) (simp add: set_scheduler_type_def proc_ok_def plist_def)
next
  case run
  then show ?thesis using proc_schedule_keeps [OF assms(2)] by blast
qed

inductive proc_reachable :: "procs \<Rightarrow> bool" where
  boot: "proc_ok s [] \<Longrightarrow> init_process_management s = Some s' \<Longrightarrow> proc_reachable s'"
| step: "proc_reachable s \<Longrightarrow> proc_step s s' \<Longrightarrow> proc_reachable s'"

lemma proc_reachable_ok: "proc_reachable s \<Longrightarrow> \<exists>xs. proc_ok s xs"
proof (induction rule: proc_reachable.induct)
  case (boot s s')
  have "pcbs s = Map.empty" using boot(1) by (simp add: proc_ok_def)
  then show ?case using init_process_management_ok [OF boot(1)] boot(2) by auto
next
  case (step s s')
  then show ?case using proc_step_ok by blast
qed

subsection \<open>A machine with two processes\<close>

definition procs0 :: procs where
  "procs0 = \<lparr>current_process = NULL, process_list = NULL, next_pid = 1,
     current_scheduler = SCHEDULER_ROUND_ROBIN, pcbs = Map.empty, heap = init_kheap kheap_boot,
     kernel_dir = 0x100000, dirs = (\<lambda>_. []), cpu_esp = 0x90000, cpu_ebp = 0x90000, cpu_cr3 = 0,
     stk = (\<lambda>_. 0)\<rparr>"

lemma procs0_ok: "proc_ok procs0 []"
  by (simp add: proc_ok_def procs0_def plist_def kheap_ok_init dirs_owned_def)

lemma init_process_management_room:
  assumes "heap_room (heap s) r" "5000 \<le> r" "pcbs s = Map.empty" "process_list s = NULL"
  obtains c n s' where "init_process_management s = Some s'" "c \<noteq> NULL" "current_process s' = c"
    "process_list s' = c" "pcbs s' = [c \<mapsto> n]" "state n = PROCESS_RUNNING" "pid n = 0"
    "heap_room (heap s') (r - 88)" "next_pid s' = next_pid s" "current_scheduler s' = current_scheduler s"
    "kernel_dir s' = kernel_dir s"
proof -
  have n: "unat (align_size sizeof_pcb + 16) = 88" "sizeof_pcb \<noteq> 0"
    by (simp_all add: align_size_def sizeof_pcb_def)
  obtain c h where c: "kmalloc sizeof_pcb (heap s) = Some (c, h)" "c \<noteq> NULL" "heap_room h (r - 88)"
    using kmalloc_room [OF assms(1) n(2) pcb_sizes_small(1)] n(1) assms(2) by auto
  have "\<exists>s' n. init_process_management s = Some s' \<and> current_process s' = c \<and>
      process_list s' = c \<and> pcbs s' = [c \<mapsto> n] \<and> state n = PROCESS_RUNNING \<and> pid n = 0 \<and> heap s' = h \<and>
      next_pid s' = next_pid s \<and> current_scheduler s' = current_scheduler s \<and> kernel_dir s' = kernel_dir s"
    using c(1,2) assms(3,4)
    by (simp add: init_process_management_def copy_pcb_name_def add_process_to_list_def mod_node_def
        set_next_def set_prev_def fun_upd_def) (simp add: pcb_zero_def fun_upd_def [symmetric] fun_eq_iff)
  then show thesis using that c by auto
qed

lemma create_process_room:
  assumes "heap_room (heap s) r" "20000 \<le> r" "length nm < 32" "create_process nm e prio s = Some (p, s')"
  shows "p \<noteq> NULL"
proof -
  have n: "unat (align_size sizeof_pcb + 16) = 88" "unat (align_size 4096 + 16) = 4112"
    "unat (align_size 8192 + 16) = 8208" "sizeof_pcb \<noteq> 0"
    by (simp_all add: align_size_def sizeof_pcb_def)
  have le: "4136 \<le> r - 88" "8232 \<le> r - 88 - 4112" using assms(2) by arith+
  obtain a h1 where a: "kmalloc sizeof_pcb (heap s) = Some (a, h1)" "a \<noteq> NULL" "heap_room h1 (r - 88)"
    using kmalloc_room [OF assms(1) n(4) pcb_sizes_small(1)] n(1) assms(2) by auto
  obtain b h2 where b: "kmalloc 4096 h1 = Some (b, h2)" "b \<noteq> NULL" "heap_room h2 (r - 88 - 4112)"
    using kmalloc_room [OF a(3) _ pcb_sizes_small(2)] n(2) le(1) by auto
  obtain c h3 where c: "kmalloc 8192 h2 = Some (c, h3)" "c \<noteq> NULL"
    using kmalloc_room [OF b(3) _ pcb_sizes_small(3)] n(3) le(2) by auto
  show ?thesis using assms(3,4) a b c
    by (auto simp: create_process_def copy_pcb_name_def Let_def bind_eq_Some_conv)
qed

lemma two_processes:
  obtains s c p k n where "proc_reachable s" "proc_ok s [c, p]" "current_process s = c" "c \<noteq> p"
    "pcbs s c = Some k" "pcbs s p = Some n" "state n = PROCESS_READY" "pid n = 1" "pid k = 0"
    "state k = PROCESS_RUNNING" "current_scheduler s = SCHEDULER_ROUND_ROBIN" "page_dir n \<noteq> kernel_dir s"
proof -
  have r: "heap_room (heap procs0) 0x1000000" using heap_room_init by (simp add: procs0_def)
  obtain c k s where s: "init_process_management procs0 = Some s" "c \<noteq> NULL" "current_process s = c"
    "process_list s = c" "pcbs s = [c \<mapsto> k]" "state k = PROCESS_RUNNING" "pid k = 0"
    "heap_room (heap s) (0x1000000 - 88)" "next_pid s = next_pid procs0"
    "current_scheduler s = current_scheduler procs0" "kernel_dir s = kernel_dir procs0"
    by (rule init_process_management_room [OF r]) (auto simp: procs0_def)
  have re: "proc_reachable s" using procs0_ok s(1) by (rule proc_reachable.boot)
  obtain xs where ok: "proc_ok s xs" using proc_reachable_ok [OF re] by blast
  then have "set xs = {c}" "distinct xs" using s(5) by (auto simp: proc_ok_def plist_def ring_def split: if_splits)
  then have "length xs = 1" using distinct_card [of xs] by simp
  then obtain x where "xs = [x]" by (cases xs) simp_all
  then have xs: "xs = [c]" using \<open>set xs = {c}\<close> by simp
  have nm: "length ''a'' < 32" by simp
  obtain p s' where p: "create_process ''a'' 0 1 s = Some (p, s')" "kernel_dir s' = kernel_dir s"
    "current_process s' = current_process s" "current_scheduler s' = current_scheduler s"
    "p = NULL \<or> p \<notin> set xs \<and> proc_ok s' (xs @ [p]) \<and>
     map_option core (pcbs s' c) = map_option core (pcbs s c) \<and>
     (\<exists>n. pcbs s' p = Some n \<and> pid n = next_pid s \<and> state n = PROCESS_READY \<and>
        page_dir n \<in> kheap_live (heap s'))"
    using create_process_ok [OF ok nm, of 0 1] unfolding xs by auto
  have "p \<noteq> NULL" using create_process_room [OF s(8) _ nm p(1)] by simp
  then obtain n where n: "p \<noteq> c" "proc_ok s' [c, p]" "map_option core (pcbs s' c) = Some (core k)"
    "pcbs s' p = Some n" "pid n = next_pid s" "state n = PROCESS_READY" "page_dir n \<in> kheap_live (heap s')"
    using p(5) s(5) xs by auto
  obtain k' where k': "pcbs s' c = Some k'" "core k' = core k" using n(3) by auto
  have "proc_reachable s'" using re p(1) by (blast intro: proc_reachable.step proc_step.create)
  moreover have "page_dir n \<noteq> kernel_dir s'"
    using kheap_live_range [OF n(7)] p(2) s(11) by (auto simp: procs0_def)
  ultimately show thesis
    using that [of s' c p k' n] n k' core_fields [OF k'(2)] p(3,4) s by (simp add: procs0_def)
qed

lemma first_unique:
  assumes "xs @ x # ys = us @ y # vs" "x \<notin> set us" "y \<notin> set xs"
  shows "y = x"
  using assms by (induction xs arbitrary: us) (case_tac us; auto)+

subsection \<open>Properties\<close>

text \<open>C6: The process table stays well formed. In every state that initialisation, creating, ending
  and scheduling processes can reach, the process list is a circular doubly linked list of
  exactly the existing processes, and every process other than those on the kernel's page
  directory owns its page directory. Creating a process returns exactly for a name that fits its 32 bytes or
  when there is no memory for the control block (a longer name overruns them), and ending one
  returns exactly when the pid is 0 or the list is not empty (on an empty list \<^verbatim>\<open>NULL\<close> is dereferenced).\<close>

theorem process_table_invariant:
  assumes "proc_reachable s"
  shows "\<exists>xs. proc_ok s xs \<and>
    (\<forall>nm e prio. (\<exists>r. create_process nm e prio s = Some r) \<longleftrightarrow>
      length nm < 32 \<or> kmalloc sizeof_pcb (heap s) = Some (NULL, heap s)) \<and>
    (\<forall>k. (\<exists>s'. terminate_process k s = Some s') \<longleftrightarrow> k = 0 \<or> xs \<noteq> [])"
proof -
  obtain xs where ok: "proc_ok s xs" using proc_reachable_ok [OF assms] by blast
  have "(\<exists>r. create_process nm e prio s = Some r) \<longleftrightarrow>
      length nm < 32 \<or> kmalloc sizeof_pcb (heap s) = Some (NULL, heap s)" for nm e prio
    using create_process_ok [OF ok, of nm e prio] create_process_long [OF ok, of nm e prio]
    by (cases "length nm < 32") auto
  moreover have "(\<exists>s'. terminate_process k s = Some s') \<longleftrightarrow> k = 0 \<or> xs \<noteq> []" for k
    using terminate_process_ok [OF ok, of k] terminate_process_empty [of s k] ok
    by (cases "k = 0"; cases "xs = []") (auto simp: terminate_process_def)
  ultimately show ?thesis using ok by blast
qed

theorem process_table_invariant_witness:
  "\<exists>s. proc_reachable s \<and> current_process s \<noteq> NULL \<and> (\<exists>r. create_process ''b'' 0 2 s = Some r)"
proof -
  obtain s c p k n where s: "proc_reachable s" "proc_ok s [c, p]" "current_process s = c"
    using two_processes by metis
  have "length ''b'' < 32" by simp
  then have "\<exists>r. create_process ''b'' 0 2 s = Some r" using process_table_invariant [OF s(1)] by blast
  moreover have "c \<noteq> NULL" using s(2) by (auto simp: proc_ok_def plist_def ring_def)
  ultimately show ?thesis using s by blast
qed

text \<open>C7: The round robin scheduler (and FCFS, which is the same code) runs the next ready process:
  the first one after the current process in the circular list. When there is none nothing
  changes. The states of the processes never change, so a process that is not in the state
  \<open>PROCESS_READY\<close> (the kernel process is \<open>PROCESS_RUNNING\<close> for ever) is not run again once it
  has been switched away from.\<close>

theorem round_robin_next:
  assumes "proc_ok s (ys @ c # zs)" "current_process s = c" "current_scheduler s \<noteq> SCHEDULER_PRIORITY"
  shows "\<exists>s'. proc_schedule s = Some s' \<and> proc_ok s' (ys @ c # zs) \<and>
    (case filter (ready s) (zs @ ys) of [] \<Rightarrow> s' = s | p # ps \<Rightarrow> current_process s' = p) \<and>
    (\<forall>q. map_option state (pcbs s' q) = map_option state (pcbs s q))"
proof -
  let ?f = "filter (ready s) (zs @ ys)"
  have ch: "choose_process s = Some (hd (?f @ [c]))" using choose_process_ok(1) [OF assms] .
  have d: "distinct (ys @ c # zs)" "NULL \<notin> set (ys @ c # zs)"
    using assms(1) by (auto simp: proc_ok_def plist_def ring_def)
  have "hd (F @ [c]) \<in> insert c (set F)" for F by (cases F) auto
  moreover have "insert c (set ?f) \<subseteq> set (ys @ c # zs)" by auto
  ultimately have hd: "hd (?f @ [c]) \<in> set (ys @ c # zs)" by (rule subsetD [rotated])
  have ne: "ys @ c # zs \<noteq> []" and cin: "current_process s \<in> set (ys @ c # zs)" using assms(2) by simp_all
  obtain s' where s': "proc_schedule s = Some s'" "proc_ok s' (ys @ c # zs)"
    "if hd (?f @ [c]) \<noteq> NULL \<and> ready s (hd (?f @ [c])) \<and> hd (?f @ [c]) \<noteq> c
     then current_process s' = hd (?f @ [c]) else s' = s"
    "\<forall>q. map_option state (pcbs s' q) = map_option state (pcbs s q)"
    using proc_schedule_chosen [OF assms(1) ne cin ch disjI2 [OF hd]] assms(2) by metis
  have "case ?f of [] \<Rightarrow> s' = s | p # ps \<Rightarrow> current_process s' = p"
  proof (cases ?f)
    case Nil
    then show ?thesis using s'(3) by (simp only: append_Nil list.sel list.case simp_thms if_False)
  next
    case (Cons p ps)
    then have "p \<in> set ?f" by simp
    then have "ready s p" "p \<noteq> c" "p \<noteq> NULL" using d by auto
    then show ?thesis using s'(3) Cons by (simp only: append_Cons list.sel list.case simp_thms if_True)
  qed
  then show ?thesis using s'(1,2,4) by blast
qed

theorem round_robin_next_witness:
  "\<exists>s p s'. current_process s \<noteq> p \<and> proc_schedule s = Some s' \<and> current_process s' = p"
proof -
  obtain s c p k n where s: "proc_ok s [c, p]" "current_process s = c" "c \<noteq> p" "pcbs s p = Some n"
    "state n = PROCESS_READY" "current_scheduler s = SCHEDULER_ROUND_ROBIN"
    using two_processes by metis
  have "filter (ready s) ([p] @ []) = [p]" using s by (simp add: ready_def)
  then show ?thesis using round_robin_next [of s "[]" c "[p]"] s by auto
qed

text \<open>The priority scheduler runs a ready process with the least priority number of all ready
  processes; when no process is ready nothing changes.\<close>

theorem priority_choice:
  assumes "proc_ok s xs" "current_process s \<in> set xs" "current_scheduler s = SCHEDULER_PRIORITY"
  shows "\<exists>s'. proc_schedule s = Some s' \<and> proc_ok s' xs \<and>
    ((\<forall>q \<in> set xs. \<not> ready s q) \<and> s' = s \<or>
     ready s (current_process s') \<and>
     (\<forall>q \<in> set xs. ready s q \<longrightarrow> priority (the (pcbs s (current_process s'))) \<le> priority (the (pcbs s q))))"
proof -
  obtain ys zs where xs: "xs = ys @ current_process s # zs" using assms(2) by (metis split_list)
  let ?p = "fold (take_better (pcbs s)) xs NULL"
  have ch: "choose_process s = Some ?p"
    using choose_process_ok(2) [of s ys "current_process s" zs] assms(1,3) xs by simp
  have dom: "set xs = dom (pcbs s)" and nn: "NULL \<notin> set xs"
    using assms(1) xs by (auto simp: proc_ok_def plist_def ring_def)
  have rd: "ready s q \<longleftrightarrow> state (the (pcbs s q)) = PROCESS_READY" if "q \<in> set xs" for q
    using that dom by (auto simp: ready_def)
  have fl: "(\<forall>q \<in> set xs. \<not> ready s q) \<and> ?p = NULL \<or>
      ?p \<in> set xs \<and> ready s ?p \<and> (\<forall>q \<in> set xs. ready s q \<longrightarrow> priority (the (pcbs s ?p)) \<le> priority (the (pcbs s q)))"
    using fold_take_better [OF _ nn, of "pcbs s"] dom rd by (auto simp: Let_def filter_empty_conv)
  have mem: "?p = NULL \<or> ?p \<in> set xs" using fl by blast
  obtain s' where s': "proc_schedule s = Some s'" "proc_ok s' xs"
    "if ?p \<noteq> NULL \<and> ready s ?p \<and> ?p \<noteq> current_process s then current_process s' = ?p else s' = s"
    using proc_schedule_chosen [OF assms(1) _ assms(2) ch mem] xs by blast
  then show ?thesis using fl nn by (cases "?p = NULL"; cases "?p = current_process s") auto
qed

theorem priority_choice_witness:
  "\<exists>s s'. proc_schedule (set_scheduler_type SCHEDULER_PRIORITY s) = Some s' \<and> ready s (current_process s')"
proof -
  obtain s c p k n where s: "proc_ok s [c, p]" "current_process s = c" "pcbs s p = Some n" "state n = PROCESS_READY"
    using two_processes by metis
  let ?s = "set_scheduler_type SCHEDULER_PRIORITY s"
  have "proc_ok ?s [c, p]" "current_process ?s \<in> set [c, p]" "current_scheduler ?s = SCHEDULER_PRIORITY"
    using s(1,2) by (auto simp: set_scheduler_type_def proc_ok_def plist_def)
  from priority_choice [OF this] show ?thesis using s by (auto simp: ready_def set_scheduler_type_def)
qed

text \<open>C8: What ending a process does. The process with the given pid (the first in the list) is
  unlinked and its control block and its own page directory are given back to the heap, nothing
  else: its stack stays allocated for ever. If it was the current process, \<open>current_process\<close>
  still points to the freed control block, and the next run of the round robin scheduler
  dereferences it.\<close>

theorem terminate_process_effect:
  assumes "proc_ok s (ys @ p # zs)" "pcbs s p = Some n" "pid n = k" "k \<noteq> 0"
    and "\<forall>y \<in> set ys. \<forall>n. pcbs s y = Some n \<longrightarrow> pid n \<noteq> k"
  shows "\<exists>s'. terminate_process k s = Some s' \<and> proc_ok s' (ys @ zs) \<and> pcbs s' p = None \<and>
    kheap_live (heap s') = kheap_live (heap s) - {p} - (if page_dir n = kernel_dir s then {} else {page_dir n}) \<and>
    current_process s' = current_process s \<and>
    (current_process s = p \<and> ys @ zs \<noteq> [] \<and> current_scheduler s' = SCHEDULER_ROUND_ROBIN \<longrightarrow> proc_schedule s' = None)"
proof -
  have dis: "distinct (ys @ p # zs)" using assms(1) by (simp add: proc_ok_def plist_def ring_def)
  have "ys @ p # zs \<noteq> []" by simp
  from find_pid_ok [OF assms(1) this, of k]
  obtain q where q: "find_pid (pcbs s) (process_list s) k (process_list s) = Some q" "q = p" "q \<noteq> NULL"
  proof (elim disjE exE conjE)
    fix ys' q zs' n'
    assume a: "ys @ p # zs = ys' @ q # zs'" "pcbs s q = Some n'" "pid n' = k" "q \<noteq> NULL"
      "\<forall>y \<in> set ys'. \<forall>n. pcbs s y = Some n \<longrightarrow> pid n \<noteq> k"
      "find_pid (pcbs s) (process_list s) k (process_list s) = Some q"
    have "p \<notin> set ys'" using a(5) assms(2,3) by auto
    moreover have "q \<notin> set ys" using assms(5) a(2,3) by auto
    ultimately have "q = p" using a(1) by (intro first_unique [of ys p zs ys' q zs'])
    then show thesis using that a by blast
  qed (use assms(2,3) that in auto)
  obtain s' where s': "end_process p s = Some s'" "proc_ok s' (ys @ zs)" "current_process s' = current_process s"
    "kheap_live (heap s') = kheap_live (heap s) - {p} - (if page_dir n = kernel_dir s then {} else {page_dir n})"
    using end_process_ok [OF assms(1,2)] by blast
  have t: "terminate_process k s = Some s'" using q s'(1) assms(4) by (simp add: terminate_process_def)
  have none: "pcbs s' p = None" using s'(2) dis by (auto simp: proc_ok_def domIff)
  have "proc_schedule s' = None" if "current_process s = p" "ys @ zs \<noteq> []" "current_scheduler s' = SCHEDULER_ROUND_ROBIN"
  proof -
    have "process_list s' \<noteq> NULL" using plist_nonnull s'(2) that(2) by (auto simp: proc_ok_def)
    then show ?thesis using none that s'(3) by (simp add: proc_schedule_def choose_process_def)
  qed
  then show ?thesis using t s' none by blast
qed

theorem terminate_process_effect_witness:
  "\<exists>s p n s'. pcbs s p = Some n \<and> pid n = 1 \<and> terminate_process 1 s = Some s' \<and> pcbs s' p = None"
proof -
  obtain s c p k n where s: "proc_ok s [c, p]" "pcbs s c = Some k" "pid k = 0" "pcbs s p = Some n" "pid n = 1"
    using two_processes by metis
  have "\<forall>y \<in> set [c]. \<forall>n. pcbs s y = Some n \<longrightarrow> pid n \<noteq> 1" using s(2,3) by simp
  then obtain s' where "terminate_process 1 s = Some s'" "pcbs s' p = None"
    using terminate_process_effect [of s "[c]" p "[]" n 1] s by force
  then show ?thesis using s by blast
qed

text \<open>Switching away from a process and back restores it. If the process has been switched away
  from and nothing has changed its control block and the word of its stack that holds EBP, then
  switching back gives the ESP and EBP it had, and CR3 the page of its page directory.\<close>

theorem switch_there_and_back:
  assumes "pcbs s (current_process s) = Some c" "pcbs s p = Some n" "p \<noteq> NULL" "p \<noteq> current_process s"
    and "current_process s \<noteq> NULL" "switch_process p s = Some s1"
    and "pcbs s2 = pcbs s1" "current_process s2 = p" "stk s2 (cpu_esp s - 24) = stk s1 (cpu_esp s - 24)"
    and "cpu_esp s2 \<noteq> cpu_esp s"
  shows "\<exists>s3. switch_process (current_process s) s2 = Some s3 \<and> current_process s3 = current_process s \<and>
    cpu_esp s3 = cpu_esp s \<and> cpu_ebp s3 = cpu_ebp s \<and> cpu_cr3 s3 = page_dir c AND 0xFFFFF000"
proof -
  let ?c = "c\<lparr>esp := cpu_esp s - 32, ebp := cpu_ebp s\<rparr>"
  have s1: "pcbs s1 = (pcbs s)(current_process s \<mapsto> ?c)" "stk s1 = (stk s)(cpu_esp s - 24 := cpu_ebp s)"
    using switch_process_ok [OF assms(1-4)] assms(6) by auto
  have m: "pcbs s2 (current_process s2) = Some n" "pcbs s2 (current_process s) = Some ?c"
    using assms(2,4,7,8) s1(1) by auto
  have "cpu_esp s - 32 + 8 = cpu_esp s - 24" by (simp add: algebra_simps)
  moreover have "cpu_esp s2 - 24 \<noteq> cpu_esp s - 24" using assms(10) by simp
  moreover have "stk s2 (cpu_esp s - 24) = cpu_ebp s" using assms(9) s1(2) by simp
  ultimately show ?thesis
    using switch_process_ok [OF m assms(5)] assms(4,8) by auto
qed

theorem switch_there_and_back_witness:
  "\<exists>s p s1 s3. current_process s \<noteq> p \<and> switch_process p s = Some s1 \<and>
     switch_process (current_process s) (s1\<lparr>cpu_esp := cpu_esp s + 4\<rparr>) = Some s3 \<and> cpu_esp s3 = cpu_esp s"
proof -
  obtain s c p k n where s: "proc_ok s [c, p]" "current_process s = c" "c \<noteq> p" "pcbs s c = Some k" "pcbs s p = Some n"
    using two_processes by metis
  have nn: "c \<noteq> NULL" "p \<noteq> NULL" using s(1) by (auto simp: proc_ok_def plist_def ring_def)
  obtain s1 where s1: "switch_process p s = Some s1" "current_process s1 = p"
    using switch_process_ok [of s k p n] s nn by auto
  show ?thesis
    using switch_there_and_back [of s k p n s1 "s1\<lparr>cpu_esp := cpu_esp s + 4\<rparr>"] s nn s1 by auto
qed

end
