(* ===== verification/Mmap.thy ===== *)
theory Mmap
  imports Paging
begin

text \<open>
  Memory maps: \<open>mmap\<close> and \<open>munmap\<close> at the end of \<^verbatim>\<open>kernel/proc/process.c\<close>, over the state of the
  frame allocator and the page tables of theory \<^verbatim>\<open>Paging\<close>. The parameters \<^verbatim>\<open>flags\<close>, \<^verbatim>\<open>fd\<close> and
  \<^verbatim>\<open>offset\<close> of \<^verbatim>\<open>mmap\<close> are not used by the source, and the messages it prints are left out.
\<close>

unbundle bit_operations_syntax

definition page_count :: "u32 \<Rightarrow> u32" where
  "page_count len = (len + PAGE_SIZE - 1) div PAGE_SIZE"

definition mmap_flags :: "u32 \<Rightarrow> u32" where
  "mmap_flags prot = PAGE_PRESENT OR (if prot AND 0x2 \<noteq> 0 then PAGE_WRITABLE else 0)
     OR (if prot AND 0x4 \<noteq> 0 then PAGE_USER else 0)"

text \<open>The loop of \<open>mmap\<close> over the remaining page indices; the flag tells whether it came to its end.\<close>

fun mmap_pages :: "nat list \<Rightarrow> addr \<Rightarrow> u32 \<Rightarrow> paging \<Rightarrow> bool \<times> paging" where
  "mmap_pages [] v prot s = (True, s)"
| "mmap_pages (i # is) v prot s =
     (let (frame, s) = alloc_frame s
      in if frame = 0 then (False, s)
         else mmap_pages is v prot
           (map_page (v + of_nat i * PAGE_SIZE) (frame * PAGE_SIZE) (mmap_flags prot) s))"

definition mmap :: "addr \<Rightarrow> u32 \<Rightarrow> u32 \<Rightarrow> paging \<Rightarrow> addr \<times> paging" where
  "mmap a len prot s =
     (let v = (if a = NULL then 0x80000000 else a);
          (ok, s) = mmap_pages [0..<unat (page_count len)] v prot s
      in if ok then (v, s) else (NULL, s))"

definition munmap_page :: "addr \<Rightarrow> paging \<Rightarrow> paging" where
  "munmap_page v s =
     (let frame = get_physical_addr v s div PAGE_SIZE;
          s = (if frame \<noteq> 0 then free_frame frame s else s)
      in unmap_page v s)"

definition munmap :: "addr \<Rightarrow> u32 \<Rightarrow> paging \<Rightarrow> paging" where
  "munmap a len s =
     fold (\<lambda>i. munmap_page (a + of_nat i * PAGE_SIZE)) [0..<unat (page_count len)] s"

subsection \<open>Mapping a range\<close>

lemma mmap_flags_small: "mmap_flags prot < 0x1000"
  by (simp add: mmap_flags_def PAGE_PRESENT_def PAGE_WRITABLE_def PAGE_USER_def)

lemma map_page_frames:
  assumes "paging_ok s" "fl < 0x1000"
  shows "card (frames_used (map_page v p fl s)) \<le> card (frames_used s) + 1"
proof -
  have pr: "frames_used (map_page v p fl t) = frames_used t" if "paging_ok t" "present (pde t (dir_idx v))" for t
    using write_pte(2) [OF that map_page_present [OF that(2), of p fl]] .
  consider "present (pde s (dir_idx v))" | "\<not> present (pde s (dir_idx v))" "frames_used s = {f. f < total_frames s}"
    | "\<not> present (pde s (dir_idx v))" "frames_used s \<noteq> {f. f < total_frames s}" by blast
  then show ?thesis
  proof cases
    case 1
    then show ?thesis using pr [OF assms(1)] by simp
  next
    case 2
    then show ?thesis using map_page_full [of s v p fl] assms(1) by (simp add: paging_ok_def)
  next
    case 3
    show ?thesis
      by (rule map_page_new [OF assms(1) 3 assms(2), where p = p]) (simp add: pr card_insert_if)
  qed
qed

lemma card_free_frames:
  assumes "card (frames_used s) < unat (total_frames s)"
  shows "frames_used s \<noteq> {f. f < total_frames s}"
proof
  assume "frames_used s = {f. f < total_frames s}"
  then have "card (frames_used s) = unat (total_frames s)" by (simp only: card_words_below)
  with assms show False by simp
qed

lemma frame_base: "f * PAGE_SIZE AND 0xFFFFF000 = f * PAGE_SIZE"
  using page_base [of "f * PAGE_SIZE"] frame_addr_aligned [of f]
  by (simp add: page_aligned_def word_unat_eq_iff)

definition mapped_at :: "addr \<Rightarrow> nat \<Rightarrow> addr" where "mapped_at v i = v + of_nat i * PAGE_SIZE"

lemma mmap_step:
  assumes ok: "paging_ok s" and room: "card (frames_used s) + 2 \<le> unat (total_frames s)"
  obtains f s1 s2 where "alloc_frame s = (f, s1)" "f \<noteq> 0" "s2 = map_page a (f * PAGE_SIZE) (mmap_flags prot) s1"
    "paging_ok s2" "translate s2 = (\<lambda>x. if page_of x = page_of a then Some (f * PAGE_SIZE) else translate s x)"
    "f \<notin> frames_used s" "insert f (frames_used s) \<subseteq> frames_used s2" "f \<notin> table_pages s2"
    "table_pages s2 - table_pages s \<subseteq> - frames_used s" "total_frames s2 = total_frames s"
    "card (frames_used s2) \<le> card (frames_used s) + 2"
proof -
  have pool: "frame_pool_ok s" using ok by (simp add: paging_ok_def)
  obtain f s1 where al: "alloc_frame s = (f, s1)" by (cases "alloc_frame s")
  have f0: "f \<noteq> 0" using fp.alloc_zero [OF pool] al card_free_frames [of s] room by auto
  note got = alloc_frame_got [OF pool al f0] and st = alloc_frame_structure [OF ok al f0]
  have tot: "total_frames s1 = total_frames s" by (simp add: got(3))
  have c1: "card (frames_used s1) = card (frames_used s) + 1" using got by simp
  have r1: "present (pde s1 (dir_idx a)) \<or> frames_used s1 \<noteq> {f. f < total_frames s1}"
    using card_free_frames [of s1] c1 room tot by simp
  note mp = map_page_translate [OF st(1) mmap_flags_small r1, of "f * PAGE_SIZE" prot]
  have tp: "table_pages s \<subseteq> frames_used s" using ok by (simp add: paging_ok_def)
  show thesis
  proof (rule that [OF al f0 refl mp(1)])
    show "translate (map_page a (f * PAGE_SIZE) (mmap_flags prot) s1) =
      (\<lambda>x. if page_of x = page_of a then Some (f * PAGE_SIZE) else translate s x)"
      using mp(2) frame_base [of f] st(2) by (simp only:)
    show "f \<notin> frames_used s" using got by simp
    show "insert f (frames_used s) \<subseteq> frames_used (map_page a (f * PAGE_SIZE) (mmap_flags prot) s1)"
      using mp(3) got by simp
    show "f \<notin> table_pages (map_page a (f * PAGE_SIZE) (mmap_flags prot) s1)"
      "table_pages (map_page a (f * PAGE_SIZE) (mmap_flags prot) s1) - table_pages s \<subseteq> - frames_used s"
      using mp(4) st(3) got tp by auto
    show "card (frames_used (map_page a (f * PAGE_SIZE) (mmap_flags prot) s1)) \<le> card (frames_used s) + 2"
      using map_page_frames [OF st(1) mmap_flags_small, of a "f * PAGE_SIZE" prot] c1 by simp
  qed (simp add: tot)
qed

lemma mmap_pages_ok:
  assumes "paging_ok s" "card (frames_used s) + 2 * length js \<le> unat (total_frames s)"
    and "distinct js" "inj_on (\<lambda>i. page_of (mapped_at v i)) (set js)"
  shows "\<exists>s' fr. mmap_pages js v prot s = (True, s') \<and> paging_ok s' \<and>
    (\<forall>x. (\<forall>i \<in> set js. page_of x \<noteq> page_of (mapped_at v i)) \<longrightarrow> translate s' x = translate s x) \<and>
    (\<forall>i \<in> set js. translate s' (mapped_at v i) = Some (fr i * PAGE_SIZE)) \<and>
    fr ` set js \<subseteq> frames_used s' - frames_used s - table_pages s' \<and> inj_on fr (set js) \<and>
    frames_used s \<subseteq> frames_used s' \<and> table_pages s' - table_pages s \<subseteq> - frames_used s"
  using assms
proof (induction js arbitrary: s)
  case Nil
  then show ?case by simp
next
  case (Cons i js)
  have "card (frames_used s) + 2 \<le> unat (total_frames s)" using Cons.prems(2) by simp
  from Cons.prems(1) this obtain f s1 s2 where
    s2: "alloc_frame s = (f, s1)" "f \<noteq> 0" "s2 = map_page (mapped_at v i) (f * PAGE_SIZE) (mmap_flags prot) s1"
    and ok: "paging_ok s2" and tr: "translate s2 = (\<lambda>x. if page_of x = page_of (mapped_at v i) then Some (f * PAGE_SIZE) else translate s x)"
    and f: "f \<notin> frames_used s" "insert f (frames_used s) \<subseteq> frames_used s2" "f \<notin> table_pages s2"
    and tp: "table_pages s2 - table_pages s \<subseteq> - frames_used s"
    and tot: "total_frames s2 = total_frames s" "card (frames_used s2) \<le> card (frames_used s) + 2"
    by (rule mmap_step)
  have run: "mmap_pages (i # js) v prot s = mmap_pages js v prot s2" using s2 by (simp add: mapped_at_def)
  have prems: "card (frames_used s2) + 2 * length js \<le> unat (total_frames s2)" "distinct js"
    "inj_on (\<lambda>i. page_of (mapped_at v i)) (set js)" "i \<notin> set js"
    using Cons.prems tot by simp_all
  have other: "page_of (mapped_at v i) \<noteq> page_of (mapped_at v j)" if "j \<in> set js" for j
    using Cons.prems(3,4) that by (auto dest: inj_onD)
  obtain s' fr where
    IH: "mmap_pages js v prot s2 = (True, s')" "paging_ok s'"
    "\<forall>x. (\<forall>i \<in> set js. page_of x \<noteq> page_of (mapped_at v i)) \<longrightarrow> translate s' x = translate s2 x"
    "\<forall>i \<in> set js. translate s' (mapped_at v i) = Some (fr i * PAGE_SIZE)"
    "fr ` set js \<subseteq> frames_used s' - frames_used s2 - table_pages s'" "inj_on fr (set js)"
    "frames_used s2 \<subseteq> frames_used s'" "table_pages s' - table_pages s2 \<subseteq> - frames_used s2"
    using Cons.IH [OF ok prems(1-3)] by blast
  define g where "g = fr(i := f)"
  have g: "g i = f" "\<And>j. j \<in> set js \<Longrightarrow> g j = fr j" using prems(4) by (auto simp: g_def)
  have im: "g ` set js = fr ` set js" using g(2) by (auto simp: image_def)
  have "f \<notin> table_pages s'" using IH(8) f by auto
  then have fresh: "g ` set (i # js) \<subseteq> frames_used s' - frames_used s - table_pages s'"
    using IH(5,7) f g(1) im by auto
  have "f \<notin> fr ` set js" using IH(5) f(2) by auto
  then have inj: "inj_on g (set (i # js))" using IH(6) im g by (simp add: inj_on_def)  (metis imageI)
  have t: "translate s' (mapped_at v i) = Some (f * PAGE_SIZE)" using IH(3) other tr by simp
  have rest: "translate s' x = translate s x" if "\<forall>j \<in> set (i # js). page_of x \<noteq> page_of (mapped_at v j)" for x
    using IH(3) tr that by simp
  have tps: "table_pages s' - table_pages s \<subseteq> - frames_used s" using IH(8) tp f(2) by blast
  show ?case
    by (intro exI [of _ s'] exI [of _ g] conjI)
      (use run IH(1,2,4,7) fresh inj t rest tps f(2) g in auto)
qed

lemma physical_page:
  assumes "translate s v = Some p"
  shows "get_physical_addr v s div PAGE_SIZE = page_of p"
proof -
  obtain e where e: "p = e AND 0xFFFFF000" using assms by (auto simp: translate_def split: if_splits)
  have c: "(0xFFFFF000 :: u32) = NOT (mask 12)" "(0xFFF :: u32) = mask 12" by (simp_all add: mask_eq_exp_minus_1)
  have "(e AND NOT (mask 12)) + (v AND mask 12) = (e AND NOT (mask 12)) OR (v AND mask 12)"
    by (rule disjunctive_add_eq_or) (auto intro!: bit_eqI simp: bit_simps)
  then have g: "get_physical_addr v s = (e AND NOT (mask 12)) OR (v AND mask 12)"
    using assms e c by (simp add: get_physical_addr_translate)
  have "drop_bit 12 ((e AND NOT (mask 12)) OR (v AND mask 12)) = drop_bit 12 (e AND NOT (mask 12))"
    by (intro bit_eqI) (auto simp: bit_simps)
  moreover have "(a :: u32) div PAGE_SIZE = drop_bit 12 a" for a by (simp add: PAGE_SIZE_def drop_bit_eq_div)
  ultimately show ?thesis using g e c by (simp add: page_of_def)
qed

lemma unmap_page_fields:
  "total_frames (unmap_page v s) = total_frames s" "frame_bitmap (unmap_page v s) = frame_bitmap s"
  "kernel_page_dir (unmap_page v s) = kernel_page_dir s"
  by (simp_all add: unmap_page_def Let_def)

lemma munmap_page_ok:
  assumes ok: "paging_ok s" and tr: "translate s v = Some p" and p0: "page_of p \<noteq> 0"
    and np: "page_of p \<notin> insert (page_of (kernel_page_dir s)) (bitmap_pages s \<union> table_pages s)"
  shows "paging_ok (munmap_page v s)" "frames_used (munmap_page v s) = frames_used s - {page_of p}"
    and "translate (munmap_page v s) = (\<lambda>x. if page_of x = page_of v then None else translate s x)"
    and "table_pages (munmap_page v s) = table_pages s"
    and "bitmap_pages (munmap_page v s) = bitmap_pages s" "kernel_page_dir (munmap_page v s) = kernel_page_dir s"
proof -
  let ?t = "free_frame (page_of p) s"
  have e: "munmap_page v s = unmap_page v ?t" using physical_page [OF tr] p0 by (simp add: munmap_page_def)
  note fr = free_frame_structure [OF ok p0 np]
  have bm: "bitmap_pages ?t = bitmap_pages s" by (simp add: bitmap_pages_def bitmap_cell_def)
  note un = unmap_page_translate [of ?t v p]
  have np': "page_of p \<notin> insert (page_of (kernel_page_dir ?t)) (bitmap_pages ?t \<union> table_pages ?t)"
    using np fr(4) bm by simp
  note un = unmap_page_translate [OF fr(1) _ p0 np', of v, unfolded fr(2,4,5), OF tr]
  show "paging_ok (munmap_page v s)" "frames_used (munmap_page v s) = frames_used s - {page_of p}"
    "translate (munmap_page v s) = (\<lambda>x. if page_of x = page_of v then None else translate s x)"
    "table_pages (munmap_page v s) = table_pages s"
    unfolding e using un by simp_all
  show "bitmap_pages (munmap_page v s) = bitmap_pages s" "kernel_page_dir (munmap_page v s) = kernel_page_dir s"
    unfolding e by (simp_all add: unmap_page_fields bitmap_pages_def bitmap_cell_def)
qed

lemma munmap_pages_ok:
  assumes "paging_ok s" "distinct js" "inj_on (\<lambda>i. page_of (mapped_at v i)) (set js)" "inj_on fr (set js)"
    and "\<forall>i \<in> set js. translate s (mapped_at v i) = Some (fr i * PAGE_SIZE)"
    and "\<forall>i \<in> set js. fr i < 0x100000 \<and> fr i \<notin> insert 0 (insert (page_of (kernel_page_dir s)) (bitmap_pages s \<union> table_pages s))"
  defines "s' \<equiv> fold (\<lambda>i. munmap_page (mapped_at v i)) js s"
  shows "paging_ok s' \<and> frames_used s' = frames_used s - fr ` set js \<and>
    translate s' = (\<lambda>x. if page_of x \<in> (\<lambda>i. page_of (mapped_at v i)) ` set js then None else translate s x)"
  using assms(1-6) unfolding s'_def
proof (induction js arbitrary: s)
  case Nil
  then show ?case by simp
next
  case (Cons i js)
  let ?t = "munmap_page (mapped_at v i) s"
  have pg: "page_of (fr i * PAGE_SIZE) = fr i" using Cons.prems(6) by (simp add: frame_addr_page)
  have tr: "translate s (mapped_at v i) = Some (fr i * PAGE_SIZE)" using Cons.prems(5) by simp
  have n: "page_of (fr i * PAGE_SIZE) \<noteq> 0"
    "page_of (fr i * PAGE_SIZE) \<notin> insert (page_of (kernel_page_dir s)) (bitmap_pages s \<union> table_pages s)"
    using Cons.prems(6) unfolding pg by simp_all
  note un = munmap_page_ok [OF Cons.prems(1) tr n, unfolded pg]
  have "i \<notin> set js" using Cons.prems(2) by simp
  have other: "page_of (mapped_at v j) \<noteq> page_of (mapped_at v i)" if "j \<in> set js" for j
    using inj_onD [OF Cons.prems(3), of j i] \<open>i \<notin> set js\<close> that by auto
  have "\<forall>j \<in> set js. translate ?t (mapped_at v j) = Some (fr j * PAGE_SIZE)"
    using Cons.prems(5) other un(3) by simp
  moreover have "\<forall>j \<in> set js. fr j < 0x100000 \<and>
      fr j \<notin> insert 0 (insert (page_of (kernel_page_dir ?t)) (bitmap_pages ?t \<union> table_pages ?t))"
    using Cons.prems(6) unfolding un(4-6) by simp
  moreover have "distinct js" "inj_on (\<lambda>i. page_of (mapped_at v i)) (set js)" "inj_on fr (set js)"
    using Cons.prems by simp_all
  ultimately have IH: "paging_ok (fold (\<lambda>i. munmap_page (mapped_at v i)) js ?t)"
    "frames_used (fold (\<lambda>i. munmap_page (mapped_at v i)) js ?t) = frames_used ?t - fr ` set js"
    "translate (fold (\<lambda>i. munmap_page (mapped_at v i)) js ?t) =
      (\<lambda>x. if page_of x \<in> (\<lambda>i. page_of (mapped_at v i)) ` set js then None else translate ?t x)"
    using Cons.IH [OF un(1)] by blast+
  have "frames_used ?t - fr ` set js = frames_used s - fr ` set (i # js)" unfolding un(2) by auto
  moreover have "(\<lambda>x. if page_of x \<in> (\<lambda>i. page_of (mapped_at v i)) ` set js then None else translate ?t x) =
      (\<lambda>x. if page_of x \<in> (\<lambda>i. page_of (mapped_at v i)) ` set (i # js) then None else translate s x)"
    unfolding un(3) by (rule ext) simp
  ultimately show ?case using IH by (simp only: fold_simps simp_thms)
qed

lemma div_mod_pages: "0 < b \<Longrightarrow> (a + k * b) mod (b * m) div b = (a div b + k) mod (m :: nat)"
  by (simp add: mod_mult2_eq add.commute)

lemma mod_shift_inj:
  assumes "(c + i) mod m = (c + j) mod m" "i < m" "j < (m :: nat)"
  shows "i = j"
proof -
  have le: "k = l" if "(c + k) mod m = (c + l) mod m" "k < m" "l \<le> k" for k l
  proof -
    have "c + l \<le> c + k" using that(3) by simp
    then have "m dvd (c + k) - (c + l)" using that(1) mod_eq_dvd_iff_nat by blast
    then have "m dvd k - l" by simp
    then have "k - l = 0" using that(2) nat_dvd_not_less [of "k - l" m] by (cases "k - l = 0") auto
    then show ?thesis using that by simp
  qed
  show ?thesis using le [of i j] le [of j i] assms by (cases "j \<le> i") simp_all
qed

lemma unat_page_mapped_at:
  assumes "i < 0x100000"
  shows "unat (page_of (mapped_at v i)) = (unat v div 4096 + i) mod 0x100000"
proof -
  have "unat (mapped_at v i) = (unat v + i * 4096) mod (4096 * 0x100000)"
    using assms by (simp add: mapped_at_def PAGE_SIZE_def unat_word_ariths unat_of_nat mod_simps)
  then show ?thesis unfolding unat_page_of by (simp only: div_mod_pages zero_less_numeral)
qed

lemma mapped_at_inj:
  assumes "n \<le> 0x100000"
  shows "inj_on (\<lambda>i. page_of (mapped_at v i)) {0..<n}"
proof (rule inj_onI)
  fix i j assume ij: "i \<in> {0..<n}" "j \<in> {0..<n}" and "page_of (mapped_at v i) = page_of (mapped_at v j)"
  then have "(unat v div 4096 + i) mod 0x100000 = (unat v div 4096 + j) mod 0x100000"
    using unat_page_mapped_at [of i v] unat_page_mapped_at [of j v] assms by simp
  then show "i = j" by (rule mod_shift_inj) (use ij assms in simp_all)
qed

lemma page_count_less: "unat (page_count len) \<le> 0x100000"
  using unat_u32_less [of "len + PAGE_SIZE - 1"] by (simp add: page_count_def PAGE_SIZE_def unat_div)

lemma mmap_pages_fields:
  "mmap_pages js v prot s = (b, s') \<Longrightarrow> bitmap_pages s' = bitmap_pages s \<and> kernel_page_dir s' = kernel_page_dir s"
proof (induction js arbitrary: s)
  case (Cons i js)
  obtain f t where t: "alloc_frame s = (f, t)" by (cases "alloc_frame s")
  then have "bitmap_pages t = bitmap_pages s" "kernel_page_dir t = kernel_page_dir s"
    by (cases s rule: alloc_frame_cases; simp add: bitmap_pages_def bitmap_cell_def; auto)+
  then show ?case using Cons t by (auto split: if_splits)
qed simp

text \<open>Page by page, over the page count of the code.\<close>

lemma mmap_munmap_pages:
  assumes "paging_ok s" "card (frames_used s) + 2 * unat (page_count len) \<le> unat (total_frames s)"
    and "v = (if a = NULL then 0x80000000 else a)"
  shows "\<exists>s' fr. mmap a len prot s = (v, s') \<and> paging_ok s' \<and> inj_on fr {0..<unat (page_count len)} \<and>
    (\<forall>i < unat (page_count len). translate s' (mapped_at v i) = Some (fr i * PAGE_SIZE) \<and> fr i \<notin> frames_used s) \<and>
    (\<forall>x. (\<forall>i < unat (page_count len). page_of x \<noteq> page_of (mapped_at v i)) \<longrightarrow> translate s' x = translate s x) \<and>
    paging_ok (munmap v len s') \<and>
    frames_used (munmap v len s') = frames_used s' - fr ` {0..<unat (page_count len)} \<and>
    (\<forall>i < unat (page_count len). translate (munmap v len s') (mapped_at v i) = None) \<and>
    (\<forall>x. (\<forall>i < unat (page_count len). page_of x \<noteq> page_of (mapped_at v i)) \<longrightarrow>
      translate (munmap v len s') x = translate s x)"
proof -
  define js where "js = [0..<unat (page_count len)]"
  have js: "set js = {0..<unat (page_count len)}" "distinct js" "length js = unat (page_count len)"
    by (simp_all add: js_def)
  have inj: "inj_on (\<lambda>i. page_of (mapped_at v i)) (set js)"
    unfolding js by (rule mapped_at_inj [OF page_count_less])
  obtain s' fr where s': "mmap_pages js v prot s = (True, s')" "paging_ok s'"
    "\<And>x. \<forall>i \<in> set js. page_of x \<noteq> page_of (mapped_at v i) \<Longrightarrow> translate s' x = translate s x"
    "\<forall>i \<in> set js. translate s' (mapped_at v i) = Some (fr i * PAGE_SIZE)"
    "fr ` set js \<subseteq> frames_used s' - frames_used s - table_pages s'" "inj_on fr (set js)"
    using mmap_pages_ok [OF assms(1) _ js(2) inj, of prot] assms(2) js(3) by auto
  have used: "insert 0 (insert (page_of (kernel_page_dir s')) (bitmap_pages s')) \<subseteq> frames_used s"
    using assms(1) mmap_pages_fields [OF s'(1)] by (simp add: paging_ok_def frame_pool_ok_def)
  have small: "frames_used s' \<subseteq> {f. f < 0x100000}"
    using s'(2) by (auto simp: paging_ok_def frame_pool_ok_def frames_used_def)
  have free: "\<forall>i \<in> set js. fr i < 0x100000 \<and>
      fr i \<notin> insert 0 (insert (page_of (kernel_page_dir s')) (bitmap_pages s' \<union> table_pages s'))"
    using s'(5) used small by auto
  have un: "munmap v len s' = fold (\<lambda>i. munmap_page (mapped_at v i)) js s'"
    by (simp add: munmap_def js_def mapped_at_def)
  have m: "mmap a len prot s = (v, s')" using s'(1) assms(3) by (simp add: mmap_def js_def Let_def)
  note mu = munmap_pages_ok [OF s'(2) js(2) inj s'(6,4) free, folded un]
  show ?thesis
  proof (intro exI [of _ s'] exI [of _ fr] conjI)
    show "\<forall>i < unat (page_count len). translate s' (mapped_at v i) = Some (fr i * PAGE_SIZE) \<and> fr i \<notin> frames_used s"
    proof (intro allI impI conjI)
      fix i assume "i < unat (page_count len)"
      then have i: "i \<in> set js" by (simp add: js)
      then show "translate s' (mapped_at v i) = Some (fr i * PAGE_SIZE)" using s'(4) by blast
      show "fr i \<notin> frames_used s" using s'(5) i by blast
    qed
    show "\<forall>x. (\<forall>i < unat (page_count len). page_of x \<noteq> page_of (mapped_at v i)) \<longrightarrow> translate s' x = translate s x"
      using s'(3) unfolding js by auto
    show "\<forall>x. (\<forall>i < unat (page_count len). page_of x \<noteq> page_of (mapped_at v i)) \<longrightarrow>
      translate (munmap v len s') x = translate s x"
      using mu s'(3) unfolding js by auto
    show "\<forall>i < unat (page_count len). translate (munmap v len s') (mapped_at v i) = None"
      using mu unfolding js by auto
  qed (use m s'(2,6) mu in \<open>simp_all add: js\<close>)
qed

subsection \<open>The pages of a range\<close>

text \<open>The pages that \<open>len\<close> bytes from the start of the page of \<open>v\<close> on lie in.\<close>

definition range_pages :: "addr \<Rightarrow> u32 \<Rightarrow> u32 set" where
  "range_pages v len = (\<lambda>k. page_of ((v AND 0xFFFFF000) + of_nat k)) ` {..<unat len}"

lemma translate_page: "page_of x = page_of y \<Longrightarrow> translate s x = translate s y"
  using idx_page [of x y] by (simp add: translate_def pte_def table_cell_def table_idx_def)

lemma unat_page_base_plus:
  assumes "k < 2 ^ 32"
  shows "unat (page_of ((v AND 0xFFFFF000) + of_nat k)) = (unat v div 4096 + k div 4096) mod 0x100000"
proof -
  have k: "unat (of_nat k :: u32) = k" using assms by (rule unat_of_nat_small)
  have e: "unat ((v AND 0xFFFFF000) + of_nat k) = (k + (unat v div 4096) * 4096) mod (4096 * 0x100000)"
    unfolding unat_word_ariths(1) k page_base by (subst add.commute) simp
  show ?thesis unfolding unat_page_of e by (simp only: div_mod_pages zero_less_numeral) (simp only: add.commute)
qed

lemma div_image: "(\<lambda>k. k div 4096) ` {..<n :: nat} = {0..<(n + 4095) div 4096}"
proof
  show "{0..<(n + 4095) div 4096} \<subseteq> (\<lambda>k. k div 4096) ` {..<n}"
  proof
    fix i assume "i \<in> {0..<(n + 4095) div 4096}"
    then have "i * 4096 < n" by auto
    then show "i \<in> (\<lambda>k. k div 4096) ` {..<n}" by (intro image_eqI [of _ _ "i * 4096"]) auto
  qed
qed auto

lemma range_pages_mapped: "range_pages v len = (\<lambda>i. page_of (mapped_at v i)) ` {0..<(unat len + 4095) div 4096}"
proof -
  have "page_of ((v AND 0xFFFFF000) + of_nat k) = page_of (mapped_at v (k div 4096))" if "k < unat len" for k
  proof -
    have "k < 2 ^ 32" using that unsigned_less [of len, where 'a = nat] by simp
    moreover from this have "k div 4096 < 0x100000" by simp
    ultimately show ?thesis by (simp only: word_unat_eq_iff unat_page_base_plus unat_page_mapped_at)
  qed
  then have "range_pages v len = (\<lambda>k. page_of (mapped_at v (k div 4096))) ` {..<unat len}"
    unfolding range_pages_def by (rule image_cong [OF refl]) simp
  then show ?thesis unfolding div_image [symmetric] image_image .
qed

lemma card_range_pages: "card (range_pages v len) = (unat len + 4095) div 4096"
proof -
  have "(unat len + 4095) div 4096 \<le> 0x100000" using unsigned_less [of len, where 'a = nat] by simp
  then show ?thesis unfolding range_pages_mapped using mapped_at_inj by (simp add: card_image)
qed

text \<open>The page count of the code is that of the range, unless the sum in it wraps around.\<close>

lemma page_count_range: "len < 0xFFFFF001 \<Longrightarrow> unat (page_count len) = (unat len + 4095) div 4096"
  using unat_plus_small [of len 4095]
  by (simp add: page_count_def PAGE_SIZE_def unat_div word_less_nat_alt add_diff_eq [symmetric])

lemma mmap_length_wraps: "0xFFFFF001 \<le> len \<Longrightarrow> mmap v len prot s = (if v = NULL then 0x80000000 else v, s)"
proof -
  assume l: "0xFFFFF001 \<le> len"
  have "unat (len + 4095) = (unat len + 4095) mod 2 ^ 32" by (simp add: unat_word_ariths)
  moreover have "2 ^ 32 \<le> unat len + 4095" "unat len + 4095 < 2 ^ 32 + 4096"
    using l unsigned_less [of len, where 'a = nat] by (simp_all add: word_le_nat_alt)
  then have "(unat len + 4095) mod 2 ^ 32 = unat len + 4095 - 2 ^ 32" by (simp add: mod_if)
  ultimately have "unat (len + 4095) div 4096 = 0" using unsigned_less [of len, where 'a = nat] by simp
  then have "unat (page_count len) = 0"
    by (simp add: page_count_def PAGE_SIZE_def unat_div add_diff_eq [symmetric])
  then show ?thesis by (simp add: mmap_def)
qed

subsection \<open>Property\<close>

text \<open>C9: \<open>mmap\<close> and \<open>munmap\<close> of a range, the pages that hold \<open>len\<close> bytes counted from the start of the page of the address.
  When at least twice as many frames are free as the range has pages (a page may need a page
  table of its own), \<open>mmap\<close> returns the address and maps every page of the range to a fresh frame of its
  own, leaving every other page as it was; \<open>munmap\<close> of the same range then removes exactly the pages of the range
  and releases exactly their frames, although it frees each of them twice. So, for a range of which
  no page was mapped before, the address space is again what it was; a page that was mapped loses its mapping.
  (No machine has so many frames that a length of \<open>0xFFFFF001\<close> or more meets the condition: for these the page
  count wraps to 0, see \<open>mmap_length_wraps\<close>.)\<close>

theorem mmap_munmap:
  assumes "paging_ok s" "card (frames_used s) + 2 * card (range_pages v len) \<le> unat (total_frames s)"
    and "v = (if a = NULL then 0x80000000 else a)"
  shows "\<exists>s' fr. mmap a len prot s = (v, s') \<and> paging_ok s' \<and> inj_on fr (range_pages v len) \<and>
    fr ` range_pages v len \<inter> frames_used s = {} \<and>
    (\<forall>x. translate s' x =
      (if page_of x \<in> range_pages v len then Some (fr (page_of x) * PAGE_SIZE) else translate s x)) \<and>
    paging_ok (munmap v len s') \<and> frames_used (munmap v len s') = frames_used s' - fr ` range_pages v len \<and>
    (\<forall>x. translate (munmap v len s') x = (if page_of x \<in> range_pages v len then None else translate s x)) \<and>
    ((\<forall>x. page_of x \<in> range_pages v len \<longrightarrow> translate s x = None) \<longrightarrow> translate (munmap v len s') = translate s)"
proof -
  let ?n = "(unat len + 4095) div 4096" and ?p = "\<lambda>i. page_of (mapped_at v i)"
  have "total_frames s \<le> 0x100000" using assms(1) by (simp add: paging_ok_def frame_pool_ok_def)
  then have "unat (total_frames s) \<le> 0x100000" by (simp add: word_le_nat_alt)
  then have "?n \<le> 0x80000" using assms(2) unfolding card_range_pages by linarith
  then have "unat len < 0xFFFFF001" by simp
  then have n: "unat (page_count len) = ?n" by (intro page_count_range) (simp add: word_less_nat_alt)
  have inj: "inj_on ?p {0..<?n}" using \<open>?n \<le> 0x80000\<close> by (intro mapped_at_inj) simp
  obtain s' f where s': "mmap a len prot s = (v, s')" "paging_ok s'" "inj_on f {0..<?n}"
    "\<forall>i < ?n. translate s' (mapped_at v i) = Some (f i * PAGE_SIZE) \<and> f i \<notin> frames_used s"
    "\<forall>x. (\<forall>i < ?n. page_of x \<noteq> ?p i) \<longrightarrow> translate s' x = translate s x"
    "paging_ok (munmap v len s')" "frames_used (munmap v len s') = frames_used s' - f ` {0..<?n}"
    "\<forall>i < ?n. translate (munmap v len s') (mapped_at v i) = None"
    "\<forall>x. (\<forall>i < ?n. page_of x \<noteq> ?p i) \<longrightarrow> translate (munmap v len s') x = translate s x"
    using mmap_munmap_pages [OF assms(1) _ assms(3), of len prot] assms(2) unfolding n card_range_pages by blast
  define fr where "fr = f \<circ> inv_into {0..<?n} ?p"
  have fr: "fr (?p i) = f i" if "i < ?n" for i using inv_into_f_f [OF inj, of i] that by (simp add: fr_def)
  have im: "fr ` range_pages v len = f ` {0..<?n}"
    unfolding range_pages_mapped image_image using fr by (intro image_cong) auto
  have "inj_on (fr \<circ> ?p) {0..<?n} = inj_on f {0..<?n}"
    by (rule inj_on_cong) (simp only: comp_apply fr atLeastLessThan_iff)
  then have "inj_on (fr \<circ> ?p) {0..<?n}" using s'(3) by (simp only:)
  then have ifr: "inj_on fr (range_pages v len)" unfolding range_pages_mapped by (rule inj_on_imageI)
  have tr: "translate s' x = (if page_of x \<in> range_pages v len then Some (fr (page_of x) * PAGE_SIZE) else translate s x) \<and>
    translate (munmap v len s') x = (if page_of x \<in> range_pages v len then None else translate s x)" for x
  proof (cases "\<exists>i < ?n. page_of x = ?p i")
    case True
    then obtain i where i: "i < ?n" "page_of x = ?p i" by blast
    then have "page_of x \<in> range_pages v len" unfolding range_pages_mapped by simp
    then show ?thesis using s'(4,8) i fr [OF i(1)] translate_page [OF i(2)] by simp
  next
    case False
    then have "page_of x \<notin> range_pages v len" unfolding range_pages_mapped by auto
    then show ?thesis using s'(5,9) False by simp
  qed
  have "translate (munmap v len s') = translate s" if "\<forall>x. page_of x \<in> range_pages v len \<longrightarrow> translate s x = None"
    by (rule ext) (use that tr in simp)
  then show ?thesis using s'(1,2,4,6,7) ifr tr im by (intro exI [of _ s'] exI [of _ fr]) auto
qed

theorem mmap_munmap_witness:
  "\<exists>s' f. mmap NULL 0x2001 3 small_machine = (0x80000000, s') \<and>
    translate s' 0x80002000 = Some f \<and> translate (munmap 0x80000000 0x2001 s') 0x80002000 = None"
proof -
  have n: "card (range_pages 0x80000000 0x2001) = 3" unfolding card_range_pages by simp
  have "card (frames_used small_machine) = 3" unfolding small_machine_used card_words_below by simp
  then have r: "card (frames_used small_machine) + 2 * card (range_pages 0x80000000 0x2001) \<le> unat (total_frames small_machine)"
    unfolding n small_machine_total by simp
  have "mapped_at 0x80000000 2 = 0x80002000" by (simp add: mapped_at_def PAGE_SIZE_def)
  then have "page_of 0x80002000 \<in> range_pages 0x80000000 0x2001"
    unfolding range_pages_mapped by (intro image_eqI [of _ _ 2]) simp_all
  moreover have "(0x80000000 :: addr) = (if NULL = NULL then 0x80000000 else NULL)" by simp
  from mmap_munmap [OF small_machine_ok r this, of 3] obtain s' fr where
    "mmap NULL 0x2001 3 small_machine = (0x80000000, s')"
    "\<forall>x. translate s' x = (if page_of x \<in> range_pages 0x80000000 0x2001 then Some (fr (page_of x) * PAGE_SIZE)
       else translate small_machine x)"
    "\<forall>x. translate (munmap 0x80000000 0x2001 s') x =
       (if page_of x \<in> range_pages 0x80000000 0x2001 then None else translate small_machine x)"
    by (elim exE conjE)
  ultimately show ?thesis by (metis (no_types))
qed

end
