(* ===== verification/Heap_Blocks.thy ===== *)
theory Heap_Blocks
  imports Kheap
begin

text \<open>
  The kernel heap of theory \<^verbatim>\<open>Kheap\<close> as an allocator of blocks with a size: the payload of a used
  chunk is at least as large as the request, payloads do not overlap, and allocating or releasing
  one block leaves the others. The file systems, which keep file data in heap blocks, rest on this
  interpretation.
\<close>

definition kheap_block :: "kheap \<Rightarrow> addr \<Rightarrow> nat \<Rightarrow> bool" where
  "kheap_block h p n \<longleftrightarrow> (\<exists>cs q s. heap_rep h cs \<and> (q, s, False) \<in> set cs \<and> p = q + 16 \<and> n + 16 \<le> unat s)"

lemma used_cons_chunk: "(r, u, False) \<in> set (cons_chunk c cs) \<longleftrightarrow> (r, u, False) \<in> set (c # cs)"
  by (cases "(c, cs)" rule: cons_chunk.cases) auto

lemma used_release:
  assumes "(r, u, False) \<in> set cs" "r \<noteq> p"
  shows "(r, u, False) \<in> set (release p cs)"
proof -
  have "(r, u, False) \<in> set (coalesce ds) \<longleftrightarrow> (r, u, False) \<in> set ds" for ds
    by (induction ds) (simp_all add: coalesce_def used_cons_chunk del: cons_chunk.simps)
  moreover have "(r, u, False) \<in> set (mark_free p cs)" using assms by (force simp: mark_free_def)
  ultimately show ?thesis by (simp add: release_def)
qed

lemma rep_tiles: "heap_rep h cs \<Longrightarrow> tiles 0xC0000000 cs 0xC1000000"
  using heap_repD(1) by (auto simp: heap_shape_def)

lemma chunks_apart:
  assumes "tiles a cs e" "(p, s, f) \<in> set cs" "(q, t, g) \<in> set cs" "p \<noteq> q"
  shows "unat p + unat s \<le> unat q \<or> unat q + unat t \<le> unat p"
  using assms
proof (induction cs arbitrary: a)
  case (Cons c cs)
  obtain r u k where c: "c = (r, u, k)" by (cases c)
  have t: "tiles (unat r + unat u) cs e" using Cons.prems(1) c by auto
  show ?case
    using Cons.IH [OF t] tiles_in(1) [OF t] Cons.prems(2-4) c by auto
qed simp

interpretation kb: sized_allocator kmalloc kfree kheap_ok kheap_live kheap_block "0xC0000000" "0xC1000000"
proof
  fix h p n assume b: "kheap_block h p n"
  then obtain cs q s where rep: "heap_rep h cs" and q: "(q, s, False) \<in> set cs" "p = q + 16" "n + 16 \<le> unat s"
    by (auto simp: kheap_block_def)
  show "p \<in> kheap_live h" using q rep by (auto simp: kheap_live_rep used_chunks_def)
  have "q \<in> chunk_addr ` set cs" using q(1) by force
  then show "0xC0000000 \<le> unat p \<and> unat p + n \<le> 0xC1000000"
    using rep_addr_bound [OF rep, of q] tiles_in [OF rep_tiles [OF rep] q(1)] q by simp
  show "kheap_block h p k" if "k \<le> n" for k
    using rep q that by (fastforce simp: kheap_block_def)
  fix r k assume "kheap_block h r k" "p \<noteq> r"
  then obtain ds v t where rep': "heap_rep h ds" and v: "(v, t, False) \<in> set ds" "r = v + 16" "k + 16 \<le> unat t"
    by (auto simp: kheap_block_def)
  have "ds = cs" using heap_rep_unique [OF rep' rep] .
  moreover have "v \<in> chunk_addr ` set ds" using v(1) by force
  ultimately show "unat p + n \<le> unat r \<or> unat r + k \<le> unat p"
    using chunks_apart [OF rep_tiles [OF rep] q(1), of v t False] v q \<open>p \<noteq> r\<close>
      rep_addr_bound(3) [OF rep, of v] rep_addr_bound(3) [OF rep \<open>q \<in> chunk_addr ` set cs\<close>] by auto
next
  fix h n p h' assume "kheap_ok h" and n: "n \<le> (0xFFFFFFE8 :: u32)" and a: "kmalloc n h = Some (p, h')"
  then obtain cs where rep: "heap_rep h cs" by (auto simp: kheap_ok_def)
  show "kheap_block h' p (unat n)" if "p \<noteq> NULL"
    using rep n
  proof (cases rule: kmalloc_cases)
    case (fit q s xs ys h2)
    let ?n = "align_size n + 16"
    have "unat n + 16 \<le> unat ?n" using align_size_bounds(2) [OF n] by simp
    moreover have "unat ?n \<le> unat s" using fit(3) by (simp add: word_le_nat_alt)
    moreover have "\<exists>u. (q, u, False) \<in> set (cut_chunk ?n (q, s, True)) \<and> (u = s \<or> u = ?n)"
      by (auto simp: cut_chunk_def)
    ultimately show ?thesis using fit a unfolding kheap_block_def by fastforce
  qed (use that a in simp)
  fix q k assume "kheap_block h q k"
  then obtain r u where r: "(r, u, False) \<in> set cs" "q = r + 16" "k + 16 \<le> unat u"
    using heap_rep_unique [OF rep] by (auto simp: kheap_block_def)
  show "kheap_block h' q k"
    using rep n
  proof (cases rule: kmalloc_cases)
    case null
    then show ?thesis using a r rep by (auto simp: kheap_block_def)
  next
    case (fit p' s xs ys h2)
    have "(r, u, False) \<in> set (xs @ cut_chunk (align_size n + 16) (p', s, True) @ ys)" using r(1) fit(2) by auto
    moreover have "h' = h2" using fit(4) a by simp
    ultimately show ?thesis using fit(5) r(2,3) unfolding kheap_block_def by blast
  qed
next
  fix h p h' q k assume "kheap_ok h" "p \<in> kheap_live h" and f: "kfree p h = Some h'" "kheap_block h q k" "q \<noteq> p"
  then obtain cs v s where rep: "heap_rep h cs" and v: "p = v + 16" "(v, s, False) \<in> set cs"
    using kheap_live_rep by (auto simp: kheap_ok_def used_chunks_def)
  obtain xs ys where "cs = xs @ (v, s, False) # ys" using v(2) by (meson split_list)
  from kfree_refines [OF rep this] have rep': "heap_rep h' (release v cs)" using v f(1) by auto
  obtain r u where r: "(r, u, False) \<in> set cs" "q = r + 16" "k + 16 \<le> unat u"
    using f(2) heap_rep_unique [OF rep] by (auto simp: kheap_block_def)
  have "(r, u, False) \<in> set (release v cs)" using used_release [OF r(1), of v] f(3) v(1) r(2) by auto
  then show "kheap_block h' q k" using rep' r unfolding kheap_block_def by blast
qed

end
