(* ===== verification/Ramfs.thy ===== *)
theory Ramfs
  imports Heap_Blocks Ring Cstring
begin

text \<open>
  The RAM file system: \<^verbatim>\<open>kernel/fs/ramfs.c\<close>, \<^verbatim>\<open>include/fs/ramfs.h\<close> and the types of
  \<^verbatim>\<open>include/fs/vfs.h\<close>.

  Inodes and directory entries are records in two stores, indexed by the addresses that the kernel
  heap gives them; the entries of a directory form a circular doubly linked list. File data and
  the caller's buffers are bytes of one memory. Names are strings, compared with \<open>=\<close> (theory
  \<^verbatim>\<open>Cstring\<close> shows that this is what \<^verbatim>\<open>strcmp\<close> decides); a name that does not fit the field
  \<^verbatim>\<open>name[256]\<close> is undefined behaviour. \<open>None\<close> is undefined behaviour (a NULL or freed pointer)
  throughout. \<^verbatim>\<open>off_t\<close> and \<^verbatim>\<open>size_t\<close> are 32 bits wide and compared unsigned, as C does for these
  operands; a returned \<open>int\<close> or \<open>ssize_t\<close> is an \<open>int\<close> with \<open>- 1\<close> for the error and, for a count, its
  unsigned value.
\<close>

unbundle bit_operations_syntax

subsection \<open>Data\<close>

datatype file_type = FILE_TYPE_REGULAR | FILE_TYPE_DIRECTORY | FILE_TYPE_CHAR_DEVICE
  | FILE_TYPE_BLOCK_DEVICE | FILE_TYPE_SYMLINK | FILE_TYPE_SOCKET | FILE_TYPE_FIFO

record inode =
  inode_no :: u32
  itype :: file_type
  isize :: u32
  permissions :: u32
  uid :: u32
  gid :: u32
  atime :: u32
  mtime :: u32
  ctime :: u32
  private_data :: addr

record ramfs_dir_entry =
  ename :: string
  einode :: addr
  enext :: addr
  eprev :: addr

record ramfs_inode =
  base :: inode
  entries :: addr
  data :: addr
  data_size :: u32
  data_capacity :: u32

text \<open>The members of \<open>ramfs_file_ops\<close> are fixed; a file points to that table or to none.\<close>

datatype file_operations = No_file_ops | Ramfs_file_ops

record file_t =
  f_inode :: addr
  f_flags :: int
  f_offset :: u32
  f_ops :: file_operations
  f_private_data :: addr

record ramfs =
  fheap :: kheap
  inodes :: "addr \<rightharpoonup> ramfs_inode"
  dirents :: "addr \<rightharpoonup> ramfs_dir_entry"
  bytes :: memory
  next_inode :: u32

definition sizeof_ramfs_inode :: u32 where "sizeof_ramfs_inode = 56"
definition sizeof_ramfs_dir_entry :: u32 where "sizeof_ramfs_dir_entry = 268"

subsection \<open>Allocation\<close>

definition alloc_mem :: "u32 \<Rightarrow> ramfs \<Rightarrow> (addr \<times> ramfs) option" where
  "alloc_mem n s = do { (p, h) \<leftarrow> kmalloc n (fheap s); Some (p, s\<lparr>fheap := h\<rparr>) }"

text \<open>\<open>kfree\<close> of an inode or an entry also ends its life in the store.\<close>

definition free_mem :: "addr \<Rightarrow> ramfs \<Rightarrow> ramfs option" where
  "free_mem p s = do { h \<leftarrow> kfree p (fheap s);
     Some (s\<lparr>fheap := h, inodes := (inodes s)(p := None), dirents := (dirents s)(p := None)\<rparr>) }"

text \<open>\<open>strcpy\<close> into \<^verbatim>\<open>name[256]\<close>.\<close>

definition entry_name :: "string \<Rightarrow> string option" where
  "entry_name n = (if length n < 256 then Some n else None)"

definition new_inode :: "u32 \<Rightarrow> file_type \<Rightarrow> addr \<Rightarrow> ramfs_inode" where
  "new_inode no t p = \<lparr>base = \<lparr>inode_no = no, itype = t, isize = 0, permissions = 493, uid = 0, gid = 0,
     atime = 0, mtime = 0, ctime = 0, private_data = p\<rparr>,
     entries = NULL, data = NULL, data_size = 0, data_capacity = 0\<rparr>"

definition ramfs_alloc_inode :: "file_type \<Rightarrow> ramfs \<Rightarrow> (addr \<times> ramfs) option" where
  "ramfs_alloc_inode t s = do {
     (p, s) \<leftarrow> alloc_mem sizeof_ramfs_inode s;
     if p = NULL then Some (NULL, s)
     else Some (p, s\<lparr>inodes := (inodes s)(p \<mapsto> new_inode (next_inode s) t p), next_inode := next_inode s + 1\<rparr>) }"

definition set_entries :: "addr \<Rightarrow> addr \<Rightarrow> ramfs \<Rightarrow> ramfs option" where
  "set_entries d e s = do { i \<leftarrow> inodes s d; Some (s\<lparr>inodes := (inodes s)(d \<mapsto> i\<lparr>entries := e\<rparr>)\<rparr>) }"

definition dot_pair :: "addr \<Rightarrow> addr \<Rightarrow> addr \<Rightarrow> addr \<Rightarrow> ramfs \<Rightarrow> ramfs" where
  "dot_pair dot dotdot this up s = s\<lparr>dirents := (dirents s)
     (dot \<mapsto> \<lparr>ename = ''.'', einode = this, enext = dotdot, eprev = dotdot\<rparr>,
      dotdot \<mapsto> \<lparr>ename = ''..'', einode = up, enext = dot, eprev = dot\<rparr>)\<rparr>"

definition ramfs_create_root :: "ramfs \<Rightarrow> (addr \<times> ramfs) option" where
  "ramfs_create_root s = do {
     (root, s) \<leftarrow> ramfs_alloc_inode FILE_TYPE_DIRECTORY s;
     if root = NULL then Some (NULL, s)
     else do {
       (dot, s) \<leftarrow> alloc_mem sizeof_ramfs_dir_entry s;
       (dotdot, s) \<leftarrow> alloc_mem sizeof_ramfs_dir_entry s;
       if dot = NULL \<or> dotdot = NULL
       then do {
         s \<leftarrow> free_mem dot s;
         s \<leftarrow> free_mem dotdot s;
         s \<leftarrow> free_mem root s;
         Some (NULL, s) }
       else do {
         s \<leftarrow> set_entries root dot (dot_pair dot dotdot root root s);
         Some (root, s) } } }"

subsection \<open>Directories\<close>

text \<open>The do-while loop of \<open>ramfs_find_entry\<close>.\<close>

partial_function (option) find_name ::
  "(addr \<rightharpoonup> ramfs_dir_entry) \<Rightarrow> addr \<Rightarrow> string \<Rightarrow> addr \<Rightarrow> addr option" where
  "find_name m first nm e = do {
     n \<leftarrow> m e;
     if ename n = nm then Some e
     else if enext n \<noteq> first then find_name m first nm (enext n) else Some NULL }"

definition ramfs_find_entry :: "addr \<Rightarrow> string \<Rightarrow> ramfs \<Rightarrow> addr option" where
  "ramfs_find_entry d nm s = do {
     i \<leftarrow> inodes s d;
     if entries i = NULL then Some NULL else find_name (dirents s) (entries i) nm (entries i) }"

definition set_enext :: "addr \<Rightarrow> ramfs_dir_entry \<Rightarrow> ramfs_dir_entry" where "set_enext p n = n\<lparr>enext := p\<rparr>"
definition set_eprev :: "addr \<Rightarrow> ramfs_dir_entry \<Rightarrow> ramfs_dir_entry" where "set_eprev p n = n\<lparr>eprev := p\<rparr>"

definition link_entry :: "addr \<Rightarrow> addr \<Rightarrow> addr \<Rightarrow> string \<Rightarrow> ramfs \<Rightarrow> ramfs option" where
  "link_entry d e ino nm s = do {
     i \<leftarrow> inodes s d;
     if entries i \<noteq> NULL
     then do {
       h \<leftarrow> dirents s (entries i);
       let m = (dirents s)(e \<mapsto> \<lparr>ename = nm, einode = ino, enext = entries i, eprev = eprev h\<rparr>);
       m \<leftarrow> mod_node (eprev h) (set_enext e) m;
       m \<leftarrow> mod_node (entries i) (set_eprev e) m;
       Some (s\<lparr>dirents := m\<rparr>) }
     else set_entries d e
       (s\<lparr>dirents := (dirents s)(e \<mapsto> \<lparr>ename = nm, einode = ino, enext = e, eprev = e\<rparr>)\<rparr>) }"

definition ramfs_create :: "addr \<Rightarrow> string \<Rightarrow> file_type \<Rightarrow> ramfs \<Rightarrow> ((int \<times> addr) \<times> ramfs) option" where
  "ramfs_create parent nm t s = do {
     i \<leftarrow> inodes s parent;
     let d = private_data (base i);
     if itype (base i) \<noteq> FILE_TYPE_DIRECTORY then Some ((- 1, NULL), s)
     else do {
       found \<leftarrow> ramfs_find_entry d nm s;
       if found \<noteq> NULL then Some ((- 1, NULL), s)
       else do {
         (ino, s) \<leftarrow> ramfs_alloc_inode t s;
         if ino = NULL then Some ((- 1, NULL), s)
         else do {
           (e, s) \<leftarrow> alloc_mem sizeof_ramfs_dir_entry s;
           if e = NULL then do { s \<leftarrow> free_mem ino s; Some ((- 1, NULL), s) }
           else do {
             nm \<leftarrow> entry_name nm;
             s \<leftarrow> link_entry d e ino nm s;
             Some ((0, ino), s) } } } } }"

definition ramfs_mkdir :: "addr \<Rightarrow> string \<Rightarrow> ramfs \<Rightarrow> (int \<times> ramfs) option" where
  "ramfs_mkdir parent nm s = do {
     ((ret, result), s) \<leftarrow> ramfs_create parent nm FILE_TYPE_DIRECTORY s;
     if ret < 0 then Some (ret, s)
     else do {
       i \<leftarrow> inodes s result;
       let d = private_data (base i);
       (dot, s) \<leftarrow> alloc_mem sizeof_ramfs_dir_entry s;
       (dotdot, s) \<leftarrow> alloc_mem sizeof_ramfs_dir_entry s;
       if dot = NULL \<or> dotdot = NULL
       then do {
         s \<leftarrow> free_mem dot s;
         s \<leftarrow> free_mem dotdot s;
         Some (- 1, s) }
       else do {
         s \<leftarrow> set_entries d dot (dot_pair dot dotdot result parent s);
         Some (0, s) } } }"

text \<open>Taking an entry out of the directory, common to \<open>ramfs_rmdir\<close> and \<open>ramfs_unlink\<close>.\<close>

definition unlink_entry :: "addr \<Rightarrow> addr \<Rightarrow> ramfs \<Rightarrow> ramfs option" where
  "unlink_entry d e s = do {
     n \<leftarrow> dirents s e;
     m \<leftarrow> mod_node (eprev n) (set_enext (enext n)) (dirents s);
     n \<leftarrow> m e;
     m \<leftarrow> mod_node (enext n) (set_eprev (eprev n)) m;
     i \<leftarrow> inodes s d;
     n \<leftarrow> m e;
     let s = s\<lparr>dirents := m\<rparr>;
     if entries i = e then set_entries d (if enext n \<noteq> e then enext n else NULL) s else Some s }"

definition ramfs_rmdir :: "addr \<Rightarrow> string \<Rightarrow> ramfs \<Rightarrow> (int \<times> ramfs) option" where
  "ramfs_rmdir parent nm s = do {
     i \<leftarrow> inodes s parent;
     let d = private_data (base i);
     if itype (base i) \<noteq> FILE_TYPE_DIRECTORY then Some (- 1, s)
     else do {
       e \<leftarrow> ramfs_find_entry d nm s;
       if e = NULL then Some (- 1, s)
       else do {
         n \<leftarrow> dirents s e;
         i \<leftarrow> inodes s (einode n);
         let dir = private_data (base i);
         if itype (base i) \<noteq> FILE_TYPE_DIRECTORY then Some (- 1, s)
         else do {
           j \<leftarrow> inodes s dir;
           full \<leftarrow> (if entries j \<noteq> NULL
             then do { f \<leftarrow> dirents s (entries j); Some (enext f \<noteq> eprev f \<or> ename f \<noteq> ''.'') }
             else Some False);
           if full then Some (- 1, s)
           else do {
             s \<leftarrow> unlink_entry d e s;
             s \<leftarrow> free_mem e s;
             s \<leftarrow> free_mem dir s;
             Some (0, s) } } } } }"

definition ramfs_unlink :: "addr \<Rightarrow> string \<Rightarrow> ramfs \<Rightarrow> (int \<times> ramfs) option" where
  "ramfs_unlink parent nm s = do {
     i \<leftarrow> inodes s parent;
     let d = private_data (base i);
     if itype (base i) \<noteq> FILE_TYPE_DIRECTORY then Some (- 1, s)
     else do {
       e \<leftarrow> ramfs_find_entry d nm s;
       if e = NULL then Some (- 1, s)
       else do {
         n \<leftarrow> dirents s e;
         i \<leftarrow> inodes s (einode n);
         if itype (base i) \<noteq> FILE_TYPE_REGULAR then Some (- 1, s)
         else do {
           s \<leftarrow> unlink_entry d e s;
           n \<leftarrow> dirents s e;
           i \<leftarrow> inodes s (einode n);
           let f = private_data (base i);
           j \<leftarrow> inodes s f;
           s \<leftarrow> (if data j \<noteq> NULL then free_mem (data j) s else Some s);
           s \<leftarrow> free_mem e s;
           s \<leftarrow> free_mem f s;
           Some (0, s) } } } }"

subsection \<open>Files\<close>

definition ramfs_open :: "addr \<Rightarrow> file_t \<Rightarrow> int \<times> file_t" where
  "ramfs_open ino f = (0, f\<lparr>f_inode := ino, f_offset := 0, f_ops := Ramfs_file_ops, f_private_data := NULL\<rparr>)"

definition ramfs_close :: "file_t \<Rightarrow> int" where "ramfs_close f = 0"

definition ramfs_read :: "file_t \<Rightarrow> addr \<Rightarrow> u32 \<Rightarrow> u32 \<Rightarrow> ramfs \<Rightarrow> (int \<times> ramfs) option" where
  "ramfs_read f buf count offset s = do {
     i \<leftarrow> inodes s (f_inode f);
     if itype (base i) \<noteq> FILE_TYPE_REGULAR then Some (- 1, s)
     else do {
       r \<leftarrow> inodes s (private_data (base i));
       let available = (if offset < data_size r then data_size r - offset else 0);
       let read_count = (if count < available then count else available);
       let s = (if 0 < read_count
                then s\<lparr>bytes := memcpy buf (data r + offset) read_count (bytes s)\<rparr> else s);
       Some (uint read_count, s) } }"

text \<open>The buffer for \<open>new_size\<close> bytes: the old one, or a larger one with the old data.\<close>

definition grow_data :: "addr \<Rightarrow> u32 \<Rightarrow> ramfs \<Rightarrow> (bool \<times> ramfs) option" where
  "grow_data p new_size s = do {
     r \<leftarrow> inodes s p;
     if data_capacity r < new_size
     then do {
       let new_capacity = (new_size + 4095) AND NOT 4095;
       (new_data, s) \<leftarrow> alloc_mem new_capacity s;
       if new_data = NULL then Some (False, s)
       else do {
         s \<leftarrow> (if data r \<noteq> NULL
           then free_mem (data r) (s\<lparr>bytes := memcpy new_data (data r) (data_size r) (bytes s)\<rparr>)
           else Some s);
         Some (True, s\<lparr>inodes := (inodes s)(p \<mapsto> r\<lparr>data := new_data, data_capacity := new_capacity\<rparr>)\<rparr>) } }
     else Some (True, s) }"

definition ramfs_write :: "file_t \<Rightarrow> addr \<Rightarrow> u32 \<Rightarrow> u32 \<Rightarrow> ramfs \<Rightarrow> (int \<times> ramfs) option" where
  "ramfs_write f buf count offset s = do {
     i \<leftarrow> inodes s (f_inode f);
     let p = private_data (base i);
     if itype (base i) \<noteq> FILE_TYPE_REGULAR then Some (- 1, s)
     else do {
       let new_size = offset + count;
       (ok, s) \<leftarrow> grow_data p new_size s;
       if \<not> ok then Some (- 1, s)
       else do {
         r \<leftarrow> inodes s p;
         let s = s\<lparr>bytes := memcpy (data r + offset) buf count (bytes s)\<rparr>;
         if data_size r < new_size
         then do {
           let s = s\<lparr>inodes := (inodes s)(p \<mapsto> r\<lparr>data_size := new_size\<rparr>)\<rparr>;
           j \<leftarrow> inodes s (f_inode f);
           Some (uint count,
             s\<lparr>inodes := (inodes s)(f_inode f \<mapsto> j\<lparr>base := (base j)\<lparr>isize := new_size\<rparr>\<rparr>)\<rparr>) }
         else Some (uint count, s) } } }"

text \<open>\<open>ramfs_readdir\<close>: the entries' names, each with its zero byte, as one long string from which
  \<open>count\<close> bytes at \<open>offset\<close> are wanted. The loop gives the entry that reaches past \<open>offset\<close> and how far
  into its name that is.\<close>

partial_function (option) readdir_from ::
  "(addr \<rightharpoonup> ramfs_dir_entry) \<Rightarrow> addr \<Rightarrow> u32 \<Rightarrow> u32 \<Rightarrow> addr \<Rightarrow> (string \<times> u32) option option" where
  "readdir_from m first offset current_offset e = do {
     n \<leftarrow> m e;
     let entry_size = of_nat (length (ename n)) + 1;
     if offset < current_offset + entry_size
     then Some (Some (ename n, offset - current_offset))
     else if enext n \<noteq> first
     then readdir_from m first offset (current_offset + entry_size) (enext n)
     else Some None }"

definition put_chars :: "addr \<Rightarrow> string \<Rightarrow> memory \<Rightarrow> memory" where
  "put_chars p cs m = (\<lambda>a. if unat (a - p) < length cs then of_char (cs ! unat (a - p)) else m a)"

definition ramfs_readdir :: "addr \<Rightarrow> addr \<Rightarrow> u32 \<Rightarrow> u32 \<Rightarrow> ramfs \<Rightarrow> (int \<times> ramfs) option" where
  "ramfs_readdir ino buf count offset s = do {
     i \<leftarrow> inodes s ino;
     if itype (base i) \<noteq> FILE_TYPE_DIRECTORY then Some (- 1, s)
     else do {
       r \<leftarrow> inodes s (private_data (base i));
       if entries r = NULL then Some (0, s)
       else do {
         hit \<leftarrow> readdir_from (dirents s) (entries r) offset 0 (entries r);
         (case hit of None \<Rightarrow> Some (0, s)
          | Some (nm, skip) \<Rightarrow>
             let entry_size = of_nat (length nm) + 1;
                 copy_size = entry_size - skip;
                 copy_size = (if count < copy_size then count else copy_size);
                 text = take (unat copy_size) (drop (unat skip) (nm @ [CHR 0x00]))
             in Some (uint copy_size, s\<lparr>bytes := put_chars buf text (bytes s)\<rparr>)) } } }"

end
