(* ===== verification/Area.thy ===== *)
theory Area
  imports Cstring
begin

text \<open>
  Areas of memory: the bytes from an address on as a list, and what \<^verbatim>\<open>memcpy\<close> between areas that do
  not overlap does to them. The file systems use these lemmas for the data of files.
\<close>

definition area :: "memory \<Rightarrow> addr \<Rightarrow> nat \<Rightarrow> u8 list" where
  "area m p n = map (\<lambda>k. m (p + of_nat k)) [0..<n]"

definition disjoint_areas :: "addr \<Rightarrow> nat \<Rightarrow> addr \<Rightarrow> nat \<Rightarrow> bool" where
  "disjoint_areas p n q k \<longleftrightarrow> unat p + n \<le> unat q \<or> unat q + k \<le> unat p"

lemma length_area [simp]: "length (area m p n) = n"
  by (simp add: area_def)

lemma nth_area [simp]: "k < n \<Longrightarrow> area m p n ! k = m (p + of_nat k)"
  by (simp add: area_def)

lemma area_0 [simp]: "area m p 0 = []"
  by (simp add: area_def)

lemma area_cong: "(\<And>k. k < n \<Longrightarrow> m' (p + of_nat k) = m (p + of_nat k)) \<Longrightarrow> area m' p n = area m p n"
  by (simp add: area_def)

lemma take_area: "take k (area m p n) = area m p (min k n)"
  by (intro nth_equalityI) auto

lemma drop_area: "drop k (area m p n) = area m (p + of_nat k) (n - k)"
  by (intro nth_equalityI) (auto simp: ac_simps)

lemma unat_offset: "unat p + k < 2 ^ 32 \<Longrightarrow> unat (p + of_nat k :: addr) = unat p + k"
  by (simp add: unat_plus_small unat_of_nat_small)

lemma disjoint_apart:
  assumes "disjoint_areas d n s n" "unat d + n \<le> 2 ^ 32" "unat s + n \<le> 2 ^ 32"
  shows "apart d s n"
  using assms(1) unfolding disjoint_areas_def
proof
  assume "unat d + n \<le> unat s"
  then show ?thesis using assms(3) by (intro apart_below) auto
next
  assume le: "unat s + n \<le> unat d"
  show ?thesis unfolding apart_def
  proof (intro allI impI)
    fix i j assume ij: "i < j \<and> j < n"
    then have "unat (s + of_nat j) = unat s + j" "unat (d + of_nat i) = unat d + i"
      using assms(2,3) by (auto intro!: unat_offset)
    then show "d + of_nat i \<noteq> s + of_nat j" using ij le by auto
  qed
qed

lemma in_area_iff:
  assumes "unat p + unat n \<le> 2 ^ 32"
  shows "a - p < (n :: u32) \<longleftrightarrow> unat p \<le> unat a \<and> unat a < unat p + unat n"
proof (cases "p \<le> a")
  case True
  then have "unat (a - p) = unat a - unat p" by (rule unat_minus_le)
  then show ?thesis using True by (auto simp: word_less_nat_alt word_le_nat_alt)
next
  case False
  have "unat (a - p) = 2 ^ 32 + unat a - unat p"
    using False unat_sub_if' [of a p] unat_u32_less [of a] by (simp add: word_le_nat_alt)
  then show ?thesis using False assms by (auto simp: word_less_nat_alt word_le_nat_alt)
qed

text \<open>Copying between disjoint areas.\<close>

lemma memcpy_disjoint:
  assumes "disjoint_areas d (unat n) s (unat n)" "unat d + unat n \<le> 2 ^ 32" "unat s + unat n \<le> 2 ^ 32"
  shows "memcpy d s n m a =
    (if unat d \<le> unat a \<and> unat a < unat d + unat n then m (s + (a - d)) else m a)"
  using memcpy_apply [OF disjoint_apart [OF assms]] in_area_iff [OF assms(2)] by simp

lemma area_memcpy_other:
  assumes "disjoint_areas d (unat n) s (unat n)" "unat d + unat n \<le> 2 ^ 32" "unat s + unat n \<le> 2 ^ 32"
    and "disjoint_areas d (unat n) p k" "unat p + k \<le> 2 ^ 32"
  shows "area (memcpy d s n m) p k = area m p k"
proof (rule area_cong)
  fix j assume "j < k"
  then have "unat (p + of_nat j) = unat p + j" using assms(5) by (intro unat_offset) simp
  then show "memcpy d s n m (p + of_nat j) = m (p + of_nat j)"
    using \<open>j < k\<close> assms(4) unfolding memcpy_disjoint [OF assms(1-3)] disjoint_areas_def by auto
qed

text \<open>Writing \<open>n\<close> bytes at \<open>off\<close> into an area of which \<open>len\<close> bytes are in use, \<open>off \<le> len\<close>.\<close>

lemma area_write:
  assumes dj: "disjoint_areas (p + of_nat off) (unat n) s (unat n)"
    and sz: "off \<le> len" "unat p + max len (off + unat n) \<le> 2 ^ 32" "unat s + unat n \<le> 2 ^ 32" "unat p + off < 2 ^ 32"
  shows "area (memcpy (p + of_nat off) s n m) p (max len (off + unat n)) =
    take off (area m p len) @ area m s (unat n) @ drop (off + unat n) (area m p len)"
proof (rule nth_equalityI)
  show "length (area (memcpy (p + of_nat off) s n m) p (max len (off + unat n))) =
    length (take off (area m p len) @ area m s (unat n) @ drop (off + unat n) (area m p len))"
    using sz(1) by simp
  fix k assume "k < length (area (memcpy (p + of_nat off) s n m) p (max len (off + unat n)))"
  then have k: "k < max len (off + unat n)" by simp
  have u: "unat (p + of_nat k) = unat p + k" "unat (p + of_nat off) = unat p + off"
    using k sz by (auto intro!: unat_offset)
  have top: "unat (p + of_nat off) + unat n \<le> 2 ^ 32" using u sz(2) by simp
  have e: "p + of_nat k - (p + of_nat off) = of_nat (k - off)" if "off \<le> k" using that by simp
  have "area (memcpy (p + of_nat off) s n m) p (max len (off + unat n)) ! k =
      (if off \<le> k \<and> k < off + unat n then m (s + (p + of_nat k - (p + of_nat off))) else m (p + of_nat k))"
    using k u by (simp only: nth_area memcpy_disjoint [OF dj top sz(3)]) simp
  then show "area (memcpy (p + of_nat off) s n m) p (max len (off + unat n)) ! k =
    (take off (area m p len) @ area m s (unat n) @ drop (off + unat n) (area m p len)) ! k"
    using k e sz(1) by (auto simp: nth_append min_def)
qed

end
