(* ===== verification/Ramfs_Files.thy ===== *)
theory Ramfs_Files
  imports Ramfs Area
begin

text \<open>
  File data of the RAM file system: the contents of a file as a list of bytes, the invariant that
  every file owns a heap block as large as its capacity, and \<open>ramfs_read\<close> and \<open>ramfs_write\<close> as
  operations on the list of bytes.
\<close>

unbundle bit_operations_syntax

subsection \<open>The invariant\<close>

definition fcontent :: "ramfs \<Rightarrow> ramfs_inode \<Rightarrow> u8 list" where
  "fcontent s r = area (bytes s) (data r) (unat (data_size r))"

definition file_ok :: "ramfs \<Rightarrow> addr \<Rightarrow> ramfs_inode \<Rightarrow> bool" where
  "file_ok s p r \<longleftrightarrow> private_data (base r) = p \<and> data_size r \<le> data_capacity r \<and> isize (base r) = data_size r \<and>
     (if data r = NULL then data_capacity r = 0
      else kheap_block (fheap s) (data r) (unat (data_capacity r)) \<and> data r \<notin> dom (inodes s) \<union> dom (dirents s))"

definition store_ok :: "ramfs \<Rightarrow> bool" where
  "store_ok s \<longleftrightarrow> kheap_ok (fheap s) \<and> dom (inodes s) \<union> dom (dirents s) \<subseteq> kheap_live (fheap s) \<and>
     dom (inodes s) \<inter> dom (dirents s) = {} \<and>
     (\<forall>p r. inodes s p = Some r \<longrightarrow> file_ok s p r) \<and>
     (\<forall>p q r r'. inodes s p = Some r \<longrightarrow> inodes s q = Some r' \<longrightarrow> data r = data r' \<longrightarrow> data r \<noteq> NULL \<longrightarrow> p = q)"

lemma store_okD:
  assumes "store_ok s"
  shows "kheap_ok (fheap s)" "dom (inodes s) \<union> dom (dirents s) \<subseteq> kheap_live (fheap s)"
    "dom (inodes s) \<inter> dom (dirents s) = {}" "inodes s p = Some r \<Longrightarrow> file_ok s p r"
    "inodes s p = Some r \<Longrightarrow> inodes s q = Some r' \<Longrightarrow> data r = data r' \<Longrightarrow> data r \<noteq> NULL \<Longrightarrow> p = q"
  using assms unfolding store_ok_def by blast+

lemma data_not_dom:
  assumes "store_ok s" "inodes s p = Some r"
  shows "data r \<notin> dom (inodes s) \<union> dom (dirents s)"
proof (cases "data r = NULL")
  case True
  then show ?thesis
    using store_okD(2) [OF assms(1)] kh.null_not_live [OF store_okD(1) [OF assms(1)]] by (metis in_mono)
next
  case False
  then show ?thesis using store_okD(4) [OF assms] by (simp add: file_ok_def)
qed

lemma no_data: "store_ok s \<Longrightarrow> inodes s p = Some r \<Longrightarrow> data r = NULL \<Longrightarrow> data_size r = 0"
  using store_okD(4) by (fastforce simp: file_ok_def)

lemma data_block:
  "store_ok s \<Longrightarrow> inodes s p = Some r \<Longrightarrow> data r \<noteq> NULL \<Longrightarrow>
   kheap_block (fheap s) (data r) (unat (data_capacity r))"
  using store_okD(4) by (fastforce simp: file_ok_def)

text \<open>Giving the file at \<open>p\<close> another data block: \<open>d\<close> is the block (\<open>NULL\<close> for none) that is given back.\<close>

lemma store_ok_replace:
  assumes ok: "store_ok s" and r: "inodes s p = Some r"
    and h: "kheap_ok h" "kheap_live h = insert nd (kheap_live (fheap s) - {data r})" "kheap_block h nd (unat cap)"
    and keeps: "\<And>q k. kheap_block (fheap s) q k \<Longrightarrow> q \<noteq> data r \<Longrightarrow> kheap_block h q k"
    and nd: "nd \<noteq> NULL" "nd \<notin> kheap_live (fheap s)" and cap: "data_size r \<le> cap"
    and s'_def: "s' = s\<lparr>fheap := h, bytes := m, inodes := (inodes s)(p \<mapsto> r\<lparr>data := nd, data_capacity := cap\<rparr>)\<rparr>"
  shows "store_ok s'"
  unfolding store_ok_def
proof (intro conjI allI impI)
  have dom: "dom (inodes s') = dom (inodes s)" using r by (auto simp: s'_def)
  note dr = data_not_dom [OF ok r]
  show "kheap_ok (fheap s')" using h(1) by (simp add: s'_def)
  show "dom (inodes s') \<union> dom (dirents s') \<subseteq> kheap_live (fheap s')"
    using store_okD(2) [OF ok] dr dom h(2) by (auto simp: s'_def)
  show "dom (inodes s') \<inter> dom (dirents s') = {}" using store_okD(3) [OF ok] dom by (simp add: s'_def)
  have other: "data t \<noteq> data r \<and> data t \<noteq> nd" if "inodes s q = Some t" "q \<noteq> p" "data t \<noteq> NULL" for q t
  proof -
    have "kheap_block (fheap s) (data t) (unat (data_capacity t))"
      using store_okD(4) [OF ok that(1)] that(3) by (simp add: file_ok_def)
    then have "data t \<in> kheap_live (fheap s)" by (rule kb.blk_live)
    moreover have "data t \<noteq> data r" using store_okD(5) [OF ok that(1) r _ that(3)] that(2) by blast
    ultimately show ?thesis using nd(2) by metis
  qed
  fix q t assume t: "inodes s' q = Some t"
  show "file_ok s' q t"
  proof (cases "q = p")
    case True
    then have "t = r\<lparr>data := nd, data_capacity := cap\<rparr>" using t by (simp add: s'_def)
    moreover have "nd \<notin> dom (inodes s') \<union> dom (dirents s')"
      using nd(2) store_okD(2) [OF ok] unfolding dom by (auto simp: s'_def)
    moreover have "file_ok s p r" using store_okD(4) [OF ok r] .
    ultimately show ?thesis using True nd(1) h(3) cap by (simp add: file_ok_def) (simp add: s'_def)
  next
    case False
    then have t': "inodes s q = Some t" using t by (simp add: s'_def)
    have f: "file_ok s q t" using store_okD(4) [OF ok t'] .
    show ?thesis
      using f other [OF t' False] keeps [of "data t"] unfolding file_ok_def dom
      by (cases "data t = NULL") (auto simp: s'_def)
  qed
  fix q' t' assume t2: "inodes s' q' = Some t'" "data t = data t'" "data t \<noteq> NULL"
  have i: "q \<noteq> p \<Longrightarrow> inodes s q = Some t" "q' \<noteq> p \<Longrightarrow> inodes s q' = Some t'"
    "q = p \<Longrightarrow> data t = nd" "q' = p \<Longrightarrow> data t' = nd"
    using t t2(1) by (auto simp: s'_def)
  show "q = q'"
    using i t2(2,3) store_okD(5) [OF ok, of q t q' t'] other [of q t] other [of q' t'] by metis
qed

text \<open>Changing the size and the bytes of the file at \<open>p\<close>.\<close>

lemma store_ok_resize:
  assumes ok: "store_ok s" and r: "inodes s p = Some r" and n: "n \<le> data_capacity r"
  shows "store_ok (s\<lparr>bytes := m, inodes := (inodes s)(p \<mapsto> r\<lparr>data_size := n, base := (base r)\<lparr>isize := n\<rparr>\<rparr>)\<rparr>)" (is "store_ok ?s")
  unfolding store_ok_def
proof (intro conjI allI impI)
  have dom: "dom (inodes ?s) = dom (inodes s)" "dom (dirents ?s) = dom (dirents s)" using r by auto
  show "kheap_ok (fheap ?s)" "dom (inodes ?s) \<union> dom (dirents ?s) \<subseteq> kheap_live (fheap ?s)"
    "dom (inodes ?s) \<inter> dom (dirents ?s) = {}"
    using store_okD(1-3) [OF ok] unfolding dom by simp_all
  fix q t assume t: "inodes ?s q = Some t"
  have "file_ok s q (if q = p then r else t)" using store_okD(4) [OF ok] r t by (cases "q = p") auto
  then show "file_ok ?s q t" using t n unfolding file_ok_def dom by (cases "q = p") auto
  fix q' t' assume t2: "inodes ?s q' = Some t'" "data t = data t'" "data t \<noteq> NULL"
  have old: "\<exists>u. inodes s x = Some u \<and> data u = data v" if "inodes ?s x = Some v" for x v
    using that r by (cases "x = p") auto
  show "q = q'" using store_okD(5) [OF ok, of q _ q'] old [OF t] old [OF t2(1)] t2(2,3) by metis
qed

subsection \<open>Growing the data block\<close>

lemma free_mem_data:
  assumes "kfree p (fheap s) = Some h" "p \<notin> dom (inodes s) \<union> dom (dirents s)"
  shows "free_mem p s = Some (s\<lparr>fheap := h\<rparr>)"
proof -
  have "(inodes s)(p := None) = inodes s" "(dirents s)(p := None) = dirents s"
    using assms(2) by (auto simp: fun_upd_idem_iff domIff)
  then show ?thesis using assms(1) by (simp add: free_mem_def)
qed

lemma block_bounds:
  assumes "kheap_block h p n"
  shows "0xC0000000 \<le> unat p" "unat p + n \<le> 0xC1000000" "unat p + n \<le> 2 ^ 32"
  using kb.blk_range [OF assms] by auto

text \<open>What growing does to the block of the file at \<open>p\<close>; \<open>grown\<close> relates the states before and after it.\<close>

definition grown :: "addr \<Rightarrow> u32 \<Rightarrow> ramfs \<Rightarrow> ramfs_inode \<Rightarrow> ramfs \<Rightarrow> ramfs_inode \<Rightarrow> bool" where
  "grown p n s r s' r' \<longleftrightarrow> store_ok s' \<and> inodes s' = (inodes s)(p \<mapsto> r') \<and> dirents s' = dirents s \<and>
     n \<le> data_capacity r' \<and> (data r' = NULL \<longrightarrow> n = 0) \<and> data_size r' = data_size r \<and> base r' = base r \<and>
     fcontent s' r' = fcontent s r \<and>
     (\<forall>q t. q \<noteq> p \<longrightarrow> inodes s q = Some t \<longrightarrow> fcontent s' t = fcontent s t) \<and>
     (\<forall>a. unat a < 0xC0000000 \<longrightarrow> bytes s' a = bytes s a)"

lemma round_up_page:
  assumes "unat n \<le> 0xFFFFE000"
  shows "n \<le> (n + 4095) AND NOT 4095" "(n + 4095) AND NOT 4095 \<le> (0xFFFFFFE8 :: u32)"
proof -
  have c: "(4095 :: u32) = mask 12" by (simp add: mask_eq_exp_minus_1)
  have u: "unat (n + 4095) = unat n + 4095" using assms by (simp add: unat_plus_small)
  have "unat ((n + 4095) AND NOT (mask 12)) = (unat n + 4095) div 4096 * 4096"
    using unat_and_not_mask_u32 [of "n + 4095" 12] u by simp
  moreover have "unat n \<le> (unat n + 4095) div 4096 * 4096" "(unat n + 4095) div 4096 * 4096 \<le> 0xFFFFE000"
  proof -
    show "unat n \<le> (unat n + 4095) div 4096 * 4096"
      using div_mult_mod_eq [of "unat n + 4095" 4096] mod_less_divisor [of 4096 "unat n + 4095"] by linarith
    have "(unat n + 4095) div 4096 \<le> (0xFFFFE000 + 4095) div 4096" using assms by (intro div_le_mono) simp
    then show "(unat n + 4095) div 4096 * 4096 \<le> 0xFFFFE000" by simp
  qed
  ultimately show "n \<le> (n + 4095) AND NOT 4095" "(n + 4095) AND NOT 4095 \<le> (0xFFFFFFE8 :: u32)"
    unfolding word_le_nat_alt c by simp_all
qed

lemma grow_data_ok:
  assumes ok: "store_ok s" and r: "inodes s p = Some r" and n: "unat n \<le> 0xFFFFE000"
  shows "grow_data p n s = Some (False, s) \<or>
    (\<exists>s' r'. grow_data p n s = Some (True, s') \<and> grown p n s r s' r')"
proof (cases "data_capacity r < n")
  case False
  then have "grown p n s r s r"
    using ok r store_okD(4) [OF ok r] by (auto simp: grown_def file_ok_def fun_upd_idem_iff word_gt_0 split: if_splits)
  then show ?thesis using False r by (auto simp: grow_data_def)
next
  case True
  let ?cap = "(n + 4095) AND NOT 4095"
  note cap = round_up_page [OF n]
  have cs: "data_size r \<le> ?cap"
    using store_okD(4) [OF ok r] True cap(1) unfolding file_ok_def by (meson order.strict_implies_order order.trans)
  note h0 = store_okD(1) [OF ok]
  from h0 cap(2) show ?thesis
  proof (cases rule: kh.allocE)
    case null
    then show ?thesis using True r by (simp add: grow_data_def alloc_mem_def)
  next
    case (fresh nd h1)
    let ?r' = "r\<lparr>data := nd, data_capacity := ?cap\<rparr>"
    have other: "disjoint_areas nd (unat ?cap) q k" if "kheap_block (fheap s) q k" for q k
      using kb.fresh_apart [OF h0 cap(2) fresh(1,2) that] by (simp add: disjoint_areas_def)
    have nb: "kheap_block h1 nd (unat ?cap)" using kb.alloc_blk [OF h0 cap(2) fresh(1,2)] .
    note nr = block_bounds [OF nb]
    show ?thesis
    proof (cases "data r = NULL")
      case True
      let ?s = "s\<lparr>fheap := h1, bytes := bytes s, inodes := (inodes s)(p \<mapsto> ?r')\<rparr>"
      have "store_ok ?s"
        by (rule store_ok_replace [OF ok r fresh(3) _ nb _ fresh(2,4) cs refl])
          (use fresh(5) True kh.null_not_live [OF h0] kb.alloc_keeps [OF h0 cap(2) fresh(1)] in auto)
      moreover have "data_size r = 0" using store_okD(4) [OF ok r] True by (auto simp: file_ok_def)
      ultimately have "grown p n s r ?s ?r'"
        using cap(1) fresh(2) by (simp add: grown_def fcontent_def)
      then show ?thesis
        using True \<open>data_capacity r < n\<close> r fresh by (auto simp: grow_data_def alloc_mem_def Let_def)
    next
      case False
      note db = data_block [OF ok r False]
      let ?m = "memcpy nd (data r) (data_size r) (bytes s)"
      obtain h2 where h2: "kfree (data r) h1 = Some h2" "kheap_ok h2"
        "kheap_live h2 = insert nd (kheap_live (fheap s) - {data r})" "kheap_block h2 nd (unat ?cap)"
        "\<forall>q k. kheap_block (fheap s) q k \<longrightarrow> q \<noteq> data r \<longrightarrow> kheap_block h2 q k"
        using kb.replace_block [OF h0 cap(2) fresh(1,2) kb.blk_live [OF db]] by blast
      let ?s = "s\<lparr>fheap := h2, bytes := ?m, inodes := (inodes s)(p \<mapsto> ?r')\<rparr>"
      have st: "store_ok ?s"
        by (rule store_ok_replace [OF ok r h2(2-4) _ fresh(2,4) cs refl]) (use h2(5) in blast)
      have apart: "disjoint_areas nd (unat (data_size r)) q k" if "kheap_block (fheap s) q k" for q k
        using other [OF that] cs by (auto simp: disjoint_areas_def word_le_nat_alt)
      have ds: "kheap_block (fheap s) (data r) (unat (data_size r))"
        using kb.blk_le [OF db] store_okD(4) [OF ok r] by (simp add: file_ok_def word_le_nat_alt)
      have nds: "unat nd + unat (data_size r) \<le> 2 ^ 32" using nr cs by (simp add: word_le_nat_alt)
      note cp = apart [OF ds] nds block_bounds(3) [OF ds]
      have same: "area ?m q k = area (bytes s) q k" if "kheap_block (fheap s) q k" for q k
        by (rule area_memcpy_other [OF cp apart [OF that] block_bounds(3) [OF that]])
      have new: "area ?m nd (unat (data_size r)) = fcontent s r"
        using area_write [of nd 0 "data_size r" "data r" 0 "bytes s"] cp unat_u32_less [of nd] by (simp add: fcontent_def)
      have files: "fcontent ?s t = fcontent s t" if "inodes s q = Some t" "q \<noteq> p" for q t
        using same [OF kb.blk_le [OF data_block [OF ok that(1)]]] store_okD(4) [OF ok that(1)]
          no_data [OF ok that(1)]
        by (cases "data t = NULL") (simp_all add: fcontent_def file_ok_def word_le_nat_alt)
      have low: "?m a = bytes s a" if "unat a < 0xC0000000" for a
        unfolding memcpy_disjoint [OF cp] using that nr(1) by simp
      have "grown p n s r ?s ?r'"
        using st cap(1) fresh(2) new files low by (simp add: grown_def fcontent_def)
      moreover have "free_mem (data r) (s\<lparr>fheap := h1, bytes := ?m\<rparr>) = Some (s\<lparr>fheap := h2, bytes := ?m\<rparr>)"
        using free_mem_data [of "data r" "s\<lparr>fheap := h1, bytes := ?m\<rparr>" h2] h2(1) data_not_dom [OF ok r] by simp
      ultimately show ?thesis
        using False \<open>data_capacity r < n\<close> r fresh by (auto simp: grow_data_def alloc_mem_def Let_def)
    qed
  qed
qed

subsection \<open>Writing and reading\<close>

text \<open>The bytes that \<open>memcpy\<close> puts into the block of a file, and the files after it.\<close>

lemma write_bytes:
  assumes ok: "store_ok s" and r: "inodes s p = Some r" and off: "offset \<le> data_size r"
    and n: "unat offset + unat count \<le> unat (data_capacity r)" and d: "data r = NULL \<longrightarrow> count = 0"
    and buf: "unat buf + unat count \<le> 0xC0000000"
  defines "m \<equiv> memcpy (data r + offset) buf count (bytes s)"
  shows "area m (data r) (max (unat (data_size r)) (unat offset + unat count)) =
      take (unat offset) (fcontent s r) @ area (bytes s) buf (unat count) @ drop (unat offset + unat count) (fcontent s r)"
    and "\<forall>q t. q \<noteq> p \<longrightarrow> inodes s q = Some t \<longrightarrow> area m (data t) (unat (data_size t)) = fcontent s t"
proof -
  have fo: "unat offset \<le> unat (data_size r)" "unat (data_size r) \<le> unat (data_capacity r)"
    using off store_okD(4) [OF ok r] by (simp_all add: file_ok_def word_le_nat_alt)
  show "area m (data r) (max (unat (data_size r)) (unat offset + unat count)) =
      take (unat offset) (fcontent s r) @ area (bytes s) buf (unat count) @ drop (unat offset + unat count) (fcontent s r)"
  proof (cases "count = 0")
    case True
    then show ?thesis using fo(1) by (simp add: m_def memcpy_def fcontent_def max_def)
  next
    case False
    then have b: "kheap_block (fheap s) (data r) (unat (data_capacity r))" using data_block [OF ok r] d by blast
    note bb = block_bounds [OF b]
    have "unat (data r + of_nat (unat offset)) = unat (data r) + unat offset" using bb n by (intro unat_offset) simp
    then have dj: "disjoint_areas (data r + of_nat (unat offset)) (unat count) buf (unat count)"
      using bb(1) buf by (simp add: disjoint_areas_def)
    show ?thesis
      using area_write [OF dj fo(1), of "bytes s"] bb fo n buf by (simp add: m_def fcontent_def)
  qed
  show "\<forall>q t. q \<noteq> p \<longrightarrow> inodes s q = Some t \<longrightarrow> area m (data t) (unat (data_size t)) = fcontent s t"
  proof (intro allI impI)
    fix q t assume q: "q \<noteq> p" "inodes s q = Some t"
    show "area m (data t) (unat (data_size t)) = fcontent s t"
    proof (cases "count = 0 \<or> data t = NULL")
      case True
      then show ?thesis
        using store_okD(4) [OF ok q(2)] by (auto simp: m_def memcpy_def fcontent_def file_ok_def)
    next
      case False
      then have b: "kheap_block (fheap s) (data r) (unat (data_capacity r))"
        "kheap_block (fheap s) (data t) (unat (data_capacity t))"
        using data_block [OF ok r] data_block [OF ok q(2)] d by blast+
      have "data r \<noteq> data t" using store_okD(5) [OF ok q(2) r] q(1) False by auto
      from kb.blk_disjoint [OF b this] have ap: "unat (data r) + unat (data_capacity r) \<le> unat (data t) \<or>
        unat (data t) + unat (data_capacity t) \<le> unat (data r)" .
      note bb = block_bounds [OF b(1)] and bt = block_bounds [OF b(2)]
      have u: "unat (data r + offset) = unat (data r) + unat offset" using bb n by (intro unat_plus_small) simp
      have ts: "unat (data_size t) \<le> unat (data_capacity t)"
        using store_okD(4) [OF ok q(2)] by (simp add: file_ok_def word_le_nat_alt)
      show ?thesis unfolding m_def fcontent_def
        by (rule area_memcpy_other) (use u ap n bb bt ts buf in \<open>auto simp: disjoint_areas_def\<close>)
    qed
  qed
qed

text \<open>The file at \<open>p\<close> has been written, the others have been left alone.\<close>

definition wrote :: "addr \<Rightarrow> u8 list \<Rightarrow> ramfs \<Rightarrow> ramfs \<Rightarrow> bool" where
  "wrote p c s s' \<longleftrightarrow> store_ok s' \<and> dirents s' = dirents s \<and> (\<forall>q. q \<noteq> p \<longrightarrow> inodes s' q = inodes s q) \<and>
     (\<exists>r r'. inodes s p = Some r \<and> inodes s' p = Some r' \<and> fcontent s' r' = c \<and>
        base r' = (base r)\<lparr>isize := of_nat (length c)\<rparr>) \<and>
     (\<forall>q t. q \<noteq> p \<longrightarrow> inodes s q = Some t \<longrightarrow> fcontent s' t = fcontent s t)"

lemma ramfs_write_ok:
  assumes ok: "store_ok s" and r: "inodes s p = Some r" "itype (base r) = FILE_TYPE_REGULAR" "f_inode f = p"
    and off: "offset \<le> data_size r" and n: "unat offset + unat count \<le> 0xFFFFE000"
    and buf: "unat buf + unat count \<le> 0xC0000000"
  shows "ramfs_write f buf count offset s = Some (- 1, s) \<or>
    (\<exists>s'. ramfs_write f buf count offset s = Some (uint count, s') \<and>
      wrote p (take (unat offset) (fcontent s r) @ area (bytes s) buf (unat count) @
        drop (unat offset + unat count) (fcontent s r)) s s')"
proof -
  let ?n = "offset + count" and ?c = "take (unat offset) (fcontent s r) @ area (bytes s) buf (unat count) @
        drop (unat offset + unat count) (fcontent s r)"
  have pd: "private_data (base r) = p" using store_okD(4) [OF ok r(1)] by (simp add: file_ok_def)
  have un: "unat ?n = unat offset + unat count" using n by (simp add: unat_plus_small)
  then have "unat ?n \<le> 0xFFFFE000" using n by simp
  from grow_data_ok [OF ok r(1) this] show ?thesis
  proof (elim disjE exE conjE)
    assume "grow_data p ?n s = Some (False, s)"
    then show ?thesis using r pd by (simp add: ramfs_write_def)
  next
    fix s1 r1 assume g: "grow_data p ?n s = Some (True, s1)" "grown p ?n s r s1 r1"
    then have ok1: "store_ok s1" and r1: "inodes s1 p = Some r1" "inodes s1 = (inodes s)(p \<mapsto> r1)" "dirents s1 = dirents s"
      and cap: "?n \<le> data_capacity r1" "data r1 = NULL \<longrightarrow> ?n = 0"
      and eq: "data_size r1 = data_size r" "base r1 = base r" "fcontent s1 r1 = fcontent s r"
      and others: "\<forall>q t. q \<noteq> p \<longrightarrow> inodes s q = Some t \<longrightarrow> fcontent s1 t = fcontent s t"
      and low: "\<forall>a. unat a < 0xC0000000 \<longrightarrow> bytes s1 a = bytes s a"
      by (simp_all add: grown_def)
    have "data r1 = NULL \<longrightarrow> count = 0" using cap(2) un by (auto simp: unat_eq_0)
    moreover have "unat offset + unat count \<le> unat (data_capacity r1)" using cap(1) un by (simp add: word_le_nat_alt)
    moreover have "offset \<le> data_size r1" using off eq(1) by simp
    ultimately have w: "area (memcpy (data r1 + offset) buf count (bytes s1)) (data r1)
          (max (unat (data_size r)) (unat offset + unat count)) =
        take (unat offset) (fcontent s r) @ area (bytes s1) buf (unat count) @ drop (unat offset + unat count) (fcontent s r)"
      "\<forall>q t. q \<noteq> p \<longrightarrow> inodes s1 q = Some t \<longrightarrow>
        area (memcpy (data r1 + offset) buf count (bytes s1)) (data t) (unat (data_size t)) = fcontent s1 t"
      using write_bytes [OF ok1 r1(1) _ _ _ buf, of offset] unfolding eq by blast+
    have ar: "area (bytes s1) buf (unat count) = area (bytes s) buf (unat count)"
      by (rule area_cong) (use low buf in \<open>simp add: unat_offset\<close>)
    let ?m = "memcpy (data r1 + offset) buf count (bytes s1)"
    let ?sz = "if data_size r < ?n then ?n else data_size r"
    let ?r2 = "r1\<lparr>data_size := ?sz, base := (base r1)\<lparr>isize := ?sz\<rparr>\<rparr>"
    let ?s2 = "s1\<lparr>bytes := ?m, inodes := (inodes s1)(p \<mapsto> ?r2)\<rparr>"
    have sz: "unat ?sz = max (unat (data_size r)) (unat offset + unat count)" using un by (auto simp: word_less_nat_alt)
    have fk: "file_ok s1 p r1" using store_okD(4) [OF ok1 r1(1)] .
    have "?sz \<le> data_capacity r1" using cap(1) fk eq(1) by (simp add: file_ok_def)
    then have ok2: "store_ok ?s2" by (rule store_ok_resize [OF ok1 r1(1)])
    have c2: "fcontent ?s2 ?r2 = ?c" using w(1) ar sz by (simp add: fcontent_def)
    have "length (fcontent ?s2 ?r2) = unat ?sz" by (simp add: fcontent_def)
    then have len: "length ?c = unat ?sz" unfolding c2 .
    have "wrote p ?c s ?s2"
      unfolding wrote_def
      using ok2 c2 len r(1) r1 eq w(2) others by (auto simp: fcontent_def)
    moreover have "ramfs_write f buf count offset s = Some (uint count, ?s2)"
    proof (cases "data_size r < ?n")
      case True
      then show ?thesis using g(1) r pd r1(1) eq by (simp add: ramfs_write_def Let_def)
    next
      case False
      have "?r2 = r1" using False fk eq by (simp add: file_ok_def)
      moreover have "(inodes s1)(p \<mapsto> r1) = inodes s1" using r1(1) by auto
      ultimately show ?thesis using False g(1) r pd r1(1) eq by (simp add: ramfs_write_def Let_def)
    qed
    ultimately show ?thesis by blast
  qed
qed

lemma ramfs_read_ok:
  assumes ok: "store_ok s" and r: "inodes s p = Some r" "itype (base r) = FILE_TYPE_REGULAR" "f_inode f = p"
    and buf: "unat buf + unat count \<le> 0xC0000000"
    and d_def: "d = take (unat count) (drop (unat offset) (fcontent s r))"
  shows "\<exists>m. ramfs_read f buf count offset s = Some (int (length d), s\<lparr>bytes := m\<rparr>) \<and>
    area m buf (length d) = d \<and> (\<forall>a. a - buf \<ge> of_nat (length d) \<longrightarrow> m a = bytes s a)"
proof -
  let ?av = "if offset < data_size r then data_size r - offset else 0"
  let ?k = "if count < ?av then count else ?av"
  let ?m = "if 0 < ?k then memcpy buf (data r + offset) ?k (bytes s) else bytes s"
  have fk: "file_ok s p r" using store_okD(4) [OF ok r(1)] .
  have "unat ?av = unat (data_size r) - unat offset" by (auto simp: unat_minus_le word_less_nat_alt word_le_nat_alt)
  then have k: "unat ?k = length d" by (auto simp: d_def fcontent_def word_less_nat_alt)
  have pd: "private_data (base r) = p" using fk by (simp add: file_ok_def)
  have run: "ramfs_read f buf count offset s = Some (uint ?k, s\<lparr>bytes := ?m\<rparr>)"
    using r pd by (simp add: ramfs_read_def Let_def)
  have m: "area ?m buf (length d) = d \<and> (\<forall>a. a - buf \<ge> of_nat (length d) \<longrightarrow> ?m a = bytes s a)"
  proof (cases "0 < ?k")
    case False
    then have "?k = 0" by (simp add: word_gt_0)
    then show ?thesis using k by (simp add: word_gt_0)
  next
    case True
    have kc: "unat offset + length d \<le> unat (data_capacity r)" "length d \<le> unat count"
      using True k fk by (auto simp: d_def fcontent_def file_ok_def word_le_nat_alt word_less_nat_alt split: if_splits)
    then have "data r \<noteq> NULL" using True k fk by (auto simp: file_ok_def word_less_nat_alt)
    note bb = block_bounds [OF data_block [OF ok r(1) this]]
    have u: "unat (data r + offset) = unat (data r) + unat offset" using bb kc by (intro unat_plus_small) simp
    have dj: "disjoint_areas buf (unat ?k) (data r + offset) (unat ?k)" "unat buf + unat ?k \<le> 2 ^ 32"
      "unat (data r + offset) + unat ?k \<le> 2 ^ 32"
      unfolding k using buf kc bb u by (auto simp: disjoint_areas_def)
    have "area (memcpy buf (data r + offset) ?k (bytes s)) buf (unat ?k) = area (bytes s) (data r + offset) (unat ?k)"
      using area_write [of buf 0 ?k "data r + offset" 0 "bytes s"] dj unat_u32_less [of buf] by simp
    moreover have "area (bytes s) (data r + offset) (unat ?k) = d"
      unfolding k unfolding d_def fcontent_def drop_area by (simp add: take_area min.commute)
    moreover have kd: "?k = of_nat (length d)" unfolding k [symmetric] by (simp only: of_nat_unat ucast_id)
    moreover have "unat (of_nat (length d) :: u32) = length d" using k unfolding kd .
    ultimately show ?thesis
      using True memcpy_disjoint [OF dj, of "bytes s"] in_area_iff [OF dj(2)] by (simp add: k not_less [symmetric])
  qed
  have uk: "uint ?k = int (length d)" using k by (metis uint_nat)
  have "ramfs_read f buf count offset s = Some (int (length d), s\<lparr>bytes := ?m\<rparr>)" using run unfolding uk .
  then show ?thesis using m by blast
qed

subsection \<open>New inodes\<close>

lemma sizeof_fs_small: "sizeof_ramfs_inode \<le> 0xFFFFFFE8" "sizeof_ramfs_dir_entry \<le> 0xFFFFFFE8"
  by (simp_all add: sizeof_ramfs_inode_def sizeof_ramfs_dir_entry_def)

text \<open>Allocating anything leaves the store well formed: the new address is neither an inode nor an entry
  nor the data of a file.\<close>

lemma file_ok_heap:
  assumes "file_ok s p r" "\<And>q k. kheap_block (fheap s) q k \<Longrightarrow> kheap_block h q k"
  shows "file_ok (s\<lparr>fheap := h\<rparr>) p r"
  using assms by (auto simp: file_ok_def split: if_splits)

lemma alloc_mem_ok:
  assumes ok: "store_ok s" and n: "n \<le> 0xFFFFFFE8"
  obtains (null) "alloc_mem n s = Some (NULL, s)"
  | (fresh) p s' where "alloc_mem n s = Some (p, s')" "p \<noteq> NULL" "store_ok s'" "p \<notin> kheap_live (fheap s)"
      "kheap_live (fheap s') = insert p (kheap_live (fheap s))" "inodes s' = inodes s" "dirents s' = dirents s"
      "bytes s' = bytes s" "next_inode s' = next_inode s" "p \<notin> dom (inodes s) \<union> dom (dirents s)"
      "\<And>q r. inodes s q = Some r \<Longrightarrow> data r \<noteq> p" "kheap_block (fheap s') p (unat n)"
      "\<And>q k. kheap_block (fheap s) q k \<Longrightarrow> kheap_block (fheap s') q k"
proof -
  note h0 = store_okD(1) [OF ok]
  from h0 n show thesis
  proof (cases rule: kh.allocE)
    case null
    then show thesis using that(1) by (simp add: alloc_mem_def)
  next
    case (fresh p h)
    let ?s = "s\<lparr>fheap := h\<rparr>"
    have keeps: "kheap_block h q k" if "kheap_block (fheap s) q k" for q k
      by (rule kb.alloc_keeps [OF h0 n fresh(1) that])
    have "store_ok ?s"
      unfolding store_ok_def
      using store_okD [OF ok] file_ok_heap [OF _ keeps] fresh(3,5) by (auto simp del: domIff)
    moreover have "data r \<noteq> p" if "inodes s q = Some r" for q r
      using kb.blk_live [OF data_block [OF ok that]] fresh(2,4) by blast
    moreover have "p \<notin> dom (inodes s) \<union> dom (dirents s)" using store_okD(2) [OF ok] fresh(4) by blast
    ultimately show thesis
      using that(2) [of p ?s] fresh keeps kb.alloc_blk [OF h0 n fresh(1,2)] by (simp add: alloc_mem_def)
  qed
qed

text \<open>A new inode or entry at a live address that is not in use.\<close>

lemma store_ok_new_inode:
  assumes ok: "store_ok s" and p: "p \<in> kheap_live (fheap s)" "p \<notin> dom (inodes s) \<union> dom (dirents s)"
    and d: "\<And>q r. inodes s q = Some r \<Longrightarrow> data r \<noteq> p" and i: "file_ok s p i" "data i = NULL"
  shows "store_ok (s\<lparr>inodes := (inodes s)(p \<mapsto> i), next_inode := k\<rparr>)" (is "store_ok ?s")
  unfolding store_ok_def
proof (intro conjI allI impI)
  show "kheap_ok (fheap ?s)" "dom (inodes ?s) \<union> dom (dirents ?s) \<subseteq> kheap_live (fheap ?s)"
    "dom (inodes ?s) \<inter> dom (dirents ?s) = {}"
    using store_okD(1-3) [OF ok] p by auto
  fix q t assume t: "inodes ?s q = Some t"
  show "file_ok ?s q t"
  proof (cases "q = p")
    case True
    then show ?thesis using t i by (auto simp: file_ok_def)
  next
    case False
    then have "inodes s q = Some t" using t by simp
    then show ?thesis using store_okD(4) [OF ok] d by (fastforce simp: file_ok_def)
  qed
  fix q' t' assume t2: "inodes ?s q' = Some t'" "data t = data t'" "data t \<noteq> NULL"
  show "q = q'" using t t2 i(2) store_okD(5) [OF ok, of q t q' t'] by (auto split: if_splits)
qed

lemma store_ok_new_entries:
  assumes ok: "store_ok s" and p: "dom m - dom (dirents s) \<subseteq> kheap_live (fheap s) - dom (inodes s)"
    and d: "\<And>q r. inodes s q = Some r \<Longrightarrow> data r \<notin> dom m"
  shows "store_ok (s\<lparr>dirents := m\<rparr>)" (is "store_ok ?s")
  unfolding store_ok_def
proof (intro conjI allI impI)
  have "dom m \<subseteq> kheap_live (fheap s)" "dom (inodes s) \<inter> dom m = {}"
    using store_okD(2,3) [OF ok] p by blast+
  then show "kheap_ok (fheap ?s)" "dom (inodes ?s) \<union> dom (dirents ?s) \<subseteq> kheap_live (fheap ?s)"
    "dom (inodes ?s) \<inter> dom (dirents ?s) = {}"
    using store_okD(1,2) [OF ok] by simp_all
  fix q t assume t: "inodes ?s q = Some t"
  then show "file_ok ?s q t" using store_okD(4) [OF ok, of q t] d by (auto simp: file_ok_def)
  fix q' t' assume t2: "inodes ?s q' = Some t'" "data t = data t'" "data t \<noteq> NULL"
  show "q = q'" using t t2 store_okD(5) [OF ok, of q t q' t'] by simp
qed

lemma ramfs_alloc_inode_ok:
  assumes ok: "store_ok s"
  obtains (null) "ramfs_alloc_inode t s = Some (NULL, s)"
  | (fresh) p s' where "ramfs_alloc_inode t s = Some (p, s')" "p \<noteq> NULL" "store_ok s'"
      "inodes s' = (inodes s)(p \<mapsto> new_inode (next_inode s) t p)" "p \<notin> dom (inodes s) \<union> dom (dirents s)"
      "dirents s' = dirents s" "bytes s' = bytes s" "p \<notin> kheap_live (fheap s)"
      "kheap_live (fheap s') = insert p (kheap_live (fheap s))"
  using ok sizeof_fs_small(1)
proof (cases rule: alloc_mem_ok)
  case null
  then show thesis using that(1) by (simp add: ramfs_alloc_inode_def)
next
  case (fresh p s')
  let ?i = "new_inode (next_inode s') t p"
  have "file_ok s' p ?i" "data ?i = NULL" by (simp_all add: file_ok_def new_inode_def)
  then have "store_ok (s'\<lparr>inodes := (inodes s')(p \<mapsto> ?i), next_inode := next_inode s' + 1\<rparr>)"
    using fresh by (intro store_ok_new_inode [OF fresh(3)]) auto
  then show thesis
    using that(2) fresh by (simp add: ramfs_alloc_inode_def)
qed

subsection \<open>Properties\<close>

definition ramfs0 :: ramfs where
  "ramfs0 = \<lparr>fheap = init_kheap kheap_boot, inodes = Map.empty, dirents = Map.empty,
     bytes = (\<lambda>a. ucast a), next_inode = 1\<rparr>"

lemma ramfs0_ok: "store_ok ramfs0"
  by (simp add: store_ok_def ramfs0_def kheap_ok_init)

lemma alloc_inode_room:
  assumes "heap_room (fheap s) r" "4096 \<le> r"
  shows "\<exists>p s'. ramfs_alloc_inode t s = Some (p, s') \<and> p \<noteq> NULL \<and> heap_room (fheap s') (r - 72)"
proof -
  have n: "unat (align_size sizeof_ramfs_inode + 16) = 72" "sizeof_ramfs_inode \<noteq> 0"
    by (simp_all add: align_size_def sizeof_ramfs_inode_def)
  obtain p h where "kmalloc sizeof_ramfs_inode (fheap s) = Some (p, h)" "p \<noteq> NULL" "heap_room h (r - 72)"
    using kmalloc_room [OF assms(1) n(2) sizeof_fs_small(1)] n(1) assms(2) by auto
  then show ?thesis by (simp add: ramfs_alloc_inode_def alloc_mem_def)
qed

lemma one_file:
  obtains s p r where "store_ok s" "inodes s p = Some r" "itype (base r) = FILE_TYPE_REGULAR" "data_size r = 0"
    "data_capacity r = 0" "data r = NULL" "heap_room (fheap s) (0x1000000 - 72)"
proof -
  have "heap_room (fheap ramfs0) 0x1000000" using heap_room_init by (simp add: ramfs0_def)
  then obtain p s where s: "ramfs_alloc_inode FILE_TYPE_REGULAR ramfs0 = Some (p, s)" "p \<noteq> NULL"
    "heap_room (fheap s) (0x1000000 - 72)"
    using alloc_inode_room [of ramfs0 "0x1000000" FILE_TYPE_REGULAR] by auto
  show thesis
  proof (rule ramfs_alloc_inode_ok [OF ramfs0_ok, where t = FILE_TYPE_REGULAR])
    fix q s' assume "ramfs_alloc_inode FILE_TYPE_REGULAR ramfs0 = Some (q, s')" "store_ok s'"
      "inodes s' = (inodes ramfs0)(q \<mapsto> new_inode (next_inode ramfs0) FILE_TYPE_REGULAR q)"
    then show thesis using that [of s p] s by (simp add: new_inode_def)
  qed (use s in simp)
qed

definition open_file :: "addr \<Rightarrow> file_t" where
  "open_file p = \<lparr>f_inode = p, f_flags = 0, f_offset = 0, f_ops = Ramfs_file_ops, f_private_data = NULL\<rparr>"

lemma small_write:
  assumes "store_ok s" "inodes s p = Some r" "itype (base r) = FILE_TYPE_REGULAR" "data_size r = 0"
    "data_capacity r = 0" "data r = NULL" "heap_room (fheap s) (0x1000000 - 72)"
  shows "ramfs_write (open_file p) 0x1000 5 0 s \<noteq> Some (- 1, s)"
proof -
  have c: "((5 :: u32) + 4095) AND NOT 4095 = 4096" by simp
  have "unat (align_size 4096 + 16) = 4112" by (simp add: align_size_def)
  then obtain nd h where "kmalloc 4096 (fheap s) = Some (nd, h)" "nd \<noteq> NULL"
    using kmalloc_room [OF assms(7), of 4096] by auto
  moreover have "private_data (base r) = p" using store_okD(4) [OF assms(1,2)] by (simp add: file_ok_def)
  ultimately show ?thesis
    using assms(2-6) c by (simp add: ramfs_write_def grow_data_def alloc_mem_def open_file_def Let_def)
qed

text \<open>C11: \<open>ramfs_write\<close> on a regular file replaces the bytes of its contents from \<open>offset\<close> on (at most at
  its end) by those of the buffer, extending it where needed, whether or not the data moves to a
  larger block; the inode and the contents of every other file and all directories stay as they
  are and the store stays well formed. The only failure, lack of heap memory, changes nothing. The offset is
  not behind the end of the file, offset and count do not wrap around, and the buffer lies outside the heap.\<close>

theorem ramfs_write_refines:
  assumes "store_ok s" "inodes s p = Some r" "itype (base r) = FILE_TYPE_REGULAR" "f_inode f = p"
    and "offset \<le> data_size r" "unat offset + unat count \<le> 0xFFFFE000" "unat buf + unat count \<le> 0xC0000000"
  shows "ramfs_write f buf count offset s = Some (- 1, s) \<or>
    (\<exists>s'. ramfs_write f buf count offset s = Some (uint count, s') \<and>
      wrote p (take (unat offset) (fcontent s r) @ area (bytes s) buf (unat count) @
        drop (unat offset + unat count) (fcontent s r)) s s')"
  using assms by (rule ramfs_write_ok)

theorem ramfs_write_refines_witness:
  "\<exists>s p r s' r'. inodes s p = Some r \<and> store_ok s \<and>
    ramfs_write (open_file p) 0x1000 5 0 s = Some (5, s') \<and> inodes s' p = Some r' \<and>
    fcontent s' r' = area (bytes s) 0x1000 5"
proof -
  obtain s p r where s: "store_ok s" "inodes s p = Some r" "itype (base r) = FILE_TYPE_REGULAR" "data_size r = 0"
    "data_capacity r = 0" "data r = NULL" "heap_room (fheap s) (0x1000000 - 72)"
    by (rule one_file)
  have c: "fcontent s r = []" using s(4) by (simp add: fcontent_def)
  have a: "f_inode (open_file p) = p" "0 \<le> data_size r" "unat (0 :: u32) + unat (5 :: u32) \<le> 0xFFFFE000"
    "unat (0x1000 :: addr) + unat (5 :: u32) \<le> 0xC0000000" by (simp_all add: open_file_def)
  obtain s' where s': "ramfs_write (open_file p) 0x1000 5 0 s = Some (5, s')" "wrote p (area (bytes s) 0x1000 5) s s'"
    using ramfs_write_refines [OF s(1-3) a] small_write [OF s] c by auto
  then obtain r' where "inodes s' p = Some r'" "fcontent s' r' = area (bytes s) 0x1000 5"
    by (auto simp: wrote_def)
  then show ?thesis using s(1,2) s'(1) by blast
qed

text \<open>C13: What has been written is read back. After \<open>ramfs_write\<close> has returned a count, \<open>ramfs_read\<close> of
  the same range returns that count and fills its buffer with the bytes the writer's buffer held. The offset of the
  write is not behind the end of the file, offset and count do not wrap around, and both buffers lie
  outside the heap.\<close>

theorem ramfs_read_after_write:
  assumes "store_ok s" "inodes s p = Some r" "itype (base r) = FILE_TYPE_REGULAR" "f_inode f = p"
    and "offset \<le> data_size r" "unat offset + unat count \<le> 0xFFFFE000" "unat buf + unat count \<le> 0xC0000000"
    and "ramfs_write f buf count offset s = Some (n, s')" "0 \<le> n" "unat buf' + unat count \<le> 0xC0000000"
  shows "n = uint count \<and> (\<exists>s''. ramfs_read f buf' count offset s' = Some (n, s'') \<and>
    area (bytes s'') buf' (unat count) = area (bytes s) buf (unat count))"
proof -
  let ?a = "area (bytes s) buf (unat count)" and ?c = "fcontent s r"
  have le: "unat offset \<le> length ?c" using assms(5) by (simp add: fcontent_def word_le_nat_alt)
  have w: "n = uint count" "wrote p (take (unat offset) ?c @ ?a @ drop (unat offset + unat count) ?c) s s'"
    using ramfs_write_ok [OF assms(1-7)] assms(8,9) by auto
  then obtain r' where r': "store_ok s'" "inodes s' p = Some r'" "itype (base r') = FILE_TYPE_REGULAR"
    and c: "fcontent s' r' = take (unat offset) ?c @ ?a @ drop (unat offset + unat count) ?c"
    using assms(2,3) by (auto simp: wrote_def)
  have d: "take (unat count) (drop (unat offset) (fcontent s' r')) = ?a" unfolding c using le by simp
  have "int (length ?a) = uint count" by simp
  then show ?thesis
    using ramfs_read_ok [OF r' assms(4,10) d [symmetric]] w(1) by auto
qed

theorem ramfs_read_after_write_witness:
  "\<exists>p s s' s''. ramfs_write (open_file p) 0x1000 5 0 s = Some (5, s') \<and>
    ramfs_read (open_file p) 0x2000 5 0 s' = Some (5, s'') \<and> area (bytes s'') 0x2000 5 = area (bytes s) 0x1000 5"
proof -
  obtain s p r where s: "store_ok s" "inodes s p = Some r" "itype (base r) = FILE_TYPE_REGULAR" "data_size r = 0"
    "data_capacity r = 0" "data r = NULL" "heap_room (fheap s) (0x1000000 - 72)"
    by (rule one_file)
  have a: "f_inode (open_file p) = p" "0 \<le> data_size r" "unat (0 :: u32) + unat (5 :: u32) \<le> 0xFFFFE000"
    "unat (0x1000 :: addr) + unat (5 :: u32) \<le> 0xC0000000" "unat (0x2000 :: addr) + unat (5 :: u32) \<le> 0xC0000000"
    by (simp_all add: open_file_def)
  obtain s' where w: "ramfs_write (open_file p) 0x1000 5 0 s = Some (5, s')"
    using ramfs_write_ok [OF s(1-3) a(1-4)] small_write [OF s] by auto
  from ramfs_read_after_write [OF s(1-3) a(1-4) w _ a(5)] obtain s'' where
    "ramfs_read (open_file p) 0x2000 5 0 s' = Some (5, s'')" "area (bytes s'') 0x2000 5 = area (bytes s) 0x1000 5"
    by auto
  then show ?thesis using w by blast
qed

end
