(* ===== verification/Ramfs_Dirs.thy ===== *)
theory Ramfs_Dirs
  imports Ramfs_Files
begin

text \<open>
  Directories of the RAM file system: a directory holds a list of entries; finding, creating and
  removing entries as operations on that list.
\<close>

interpretation de: ring_node enext eprev set_enext set_eprev
  by unfold_locales (simp_all add: set_enext_def set_eprev_def)

subsection \<open>The entries of a directory\<close>

text \<open>\<open>dir_ptr s h xs\<close>: the list with head pointer \<open>h\<close> holds the entries \<open>xs\<close>. \<open>dir_list s d xs\<close>: the inode at \<open>d\<close>
  is a directory with these entries.\<close>

definition dir_ptr :: "(addr \<rightharpoonup> ramfs_dir_entry) \<Rightarrow> addr \<Rightarrow> addr list \<Rightarrow> bool" where
  "dir_ptr m h xs \<longleftrightarrow> (if xs = [] then h = NULL else h = hd xs \<and> ring enext eprev m xs)"

definition dir_list :: "ramfs \<Rightarrow> addr \<Rightarrow> addr list \<Rightarrow> bool" where
  "dir_list s d xs \<longleftrightarrow> (\<exists>i. inodes s d = Some i \<and> itype (base i) = FILE_TYPE_DIRECTORY \<and>
     private_data (base i) = d \<and> dir_ptr (dirents s) (entries i) xs)"

text \<open>What an entry holds, without its links; and the first entry of a list with a given name.\<close>

definition ent_of :: "(addr \<rightharpoonup> ramfs_dir_entry) \<Rightarrow> addr \<Rightarrow> (string \<times> addr) option" where
  "ent_of m e = map_option (\<lambda>n. (ename n, einode n)) (m e)"

definition lookup_in :: "(addr \<rightharpoonup> ramfs_dir_entry) \<Rightarrow> addr list \<Rightarrow> string \<Rightarrow> addr" where
  "lookup_in m xs nm = (case find (\<lambda>e. map_option fst (ent_of m e) = Some nm) xs of None \<Rightarrow> NULL | Some e \<Rightarrow> e)"

lemma find_name_seg:
  assumes "dseg enext eprev m b (e # es) first" "first \<notin> set es"
  shows "find_name m first nm e = Some (lookup_in m (e # es) nm)"
  using assms
proof (induction es arbitrary: b e)
  case Nil
  then show ?case by (auto simp: find_name.simps lookup_in_def ent_of_def)
next
  case (Cons f fs)
  then obtain n where n: "m e = Some n" "enext n = f" by auto
  have "dseg enext eprev m e (f # fs) first" "first \<notin> set fs" "f \<noteq> first" using Cons.prems by auto
  from Cons.IH [OF this(1,2)] this(3) show ?case
    using n by (subst find_name.simps) (simp add: lookup_in_def ent_of_def)
qed

lemma find_entry_list:
  assumes "dir_list s d xs"
  shows "ramfs_find_entry d nm s = Some (lookup_in (dirents s) xs nm)"
proof -
  obtain i where i: "inodes s d = Some i" "dir_ptr (dirents s) (entries i) xs" using assms by (auto simp: dir_list_def)
  show ?thesis
  proof (cases xs)
    case Nil
    then show ?thesis using i by (simp add: ramfs_find_entry_def dir_ptr_def lookup_in_def)
  next
    case (Cons x ys)
    have r: "ring enext eprev (dirents s) (x # ys)" "entries i = x" using i(2) Cons by (auto simp: dir_ptr_def)
    then have "x \<noteq> NULL" "x \<notin> set ys" "dseg enext eprev (dirents s) (last (x # ys)) (x # ys) x"
      by (auto simp: ring_def)
    then show ?thesis using find_name_seg i(1) r(2) Cons by (simp add: ramfs_find_entry_def)
  qed
qed

lemma lookup_cong: "(\<And>e. e \<in> set xs \<Longrightarrow> ent_of m' e = ent_of m e) \<Longrightarrow> lookup_in m' xs nm = lookup_in m xs nm"
  by (induction xs) (simp_all add: lookup_in_def)

lemma lookup_append:
  "lookup_in m (xs @ ys) nm = (if \<exists>e \<in> set xs. map_option fst (ent_of m e) = Some nm then lookup_in m xs nm else lookup_in m ys nm)"
  by (induction xs) (auto simp: lookup_in_def)

lemma lookup_null:
  assumes "NULL \<notin> set xs"
  shows "lookup_in m xs nm = NULL \<longleftrightarrow> (\<forall>e \<in> set xs. map_option fst (ent_of m e) \<noteq> Some nm)"
  using assms by (induction xs) (auto simp: lookup_in_def)

lemma dir_ptr_set: "dir_ptr m h xs \<Longrightarrow> NULL \<notin> set xs \<and> distinct xs \<and> set xs \<subseteq> dom m"
  using ring_dom by (fastforce simp: dir_ptr_def ring_def split: if_splits)

lemma dir_list_set: "dir_list s d xs \<Longrightarrow> NULL \<notin> set xs \<and> distinct xs \<and> set xs \<subseteq> dom (dirents s)"
  unfolding dir_list_def using dir_ptr_set by blast

text \<open>A list is not affected by changes elsewhere.\<close>

lemma dir_ptr_cong: "dir_ptr m h xs \<Longrightarrow> (\<And>e. e \<in> set xs \<Longrightarrow> m' e = m e) \<Longrightarrow> dir_ptr m' h xs"
  unfolding dir_ptr_def using ring_cong [of enext eprev m xs m'] by (auto split: if_splits)

subsection \<open>Linking and unlinking an entry\<close>

lemma link_entry_ok:
  assumes d: "inodes s d = Some i" "dir_ptr (dirents s) (entries i) xs" and e: "e \<notin> dom (dirents s)" "e \<noteq> NULL"
  shows "\<exists>m. link_entry d e ino nm s = Some (s\<lparr>dirents := m, inodes := (inodes s)(d \<mapsto> i\<lparr>entries := hd (xs @ [e])\<rparr>)\<rparr>) \<and>
    dir_ptr m (hd (xs @ [e])) (xs @ [e]) \<and> ent_of m e = Some (nm, ino) \<and>
    (\<forall>q. q \<noteq> e \<longrightarrow> ent_of m q = ent_of (dirents s) q) \<and> (\<forall>q. q \<notin> set (e # xs) \<longrightarrow> m q = dirents s q)"
proof (cases "xs = []")
  case True
  let ?m = "(dirents s)(e \<mapsto> \<lparr>ename = nm, einode = ino, enext = e, eprev = e\<rparr>)"
  have "ring enext eprev ?m [e]" using e(2) by (intro de.ring_single) auto
  then show ?thesis using True d e
    by (intro exI [of _ ?m]) (simp add: link_entry_def set_entries_def dir_ptr_def ent_of_def)
next
  case False
  have r: "ring enext eprev (dirents s) xs" and h: "entries i = hd xs" using d False by (auto simp: dir_ptr_def)
  have sx: "e \<notin> set xs" using ring_dom [OF r] e(1) by blast
  obtain nh where nh: "dirents s (hd xs) = Some nh" "eprev nh = last xs" "hd xs \<noteq> NULL"
    using r False by (cases xs) (auto simp: ring_def)
  let ?n = "\<lparr>ename = nm, einode = ino, enext = hd xs, eprev = last xs\<rparr>"
  let ?m1 = "(dirents s)(e \<mapsto> ?n)"
  have r1: "ring enext eprev ?m1 xs" by (rule ring_cong [OF r]) (use sx in auto)
  obtain m where m: "(do { m \<leftarrow> mod_node (last xs) (set_enext e) ?m1; mod_node (hd xs) (set_eprev e) m }) = Some m"
    "ring enext eprev m (xs @ [e])" "m e = ?m1 e" "\<forall>q. q \<notin> {hd xs, last xs} \<longrightarrow> m q = ?m1 q"
    using de.ring_insert [OF r1 sx e(2), of ?n] by auto
  have same: "i\<lparr>entries := hd (xs @ [e])\<rparr> = i" using h False by simp
  obtain m0 where m0: "mod_node (last xs) (set_enext e) ?m1 = Some m0" "mod_node (hd xs) (set_eprev e) m0 = Some m"
    using m(1) by (auto simp: bind_eq_Some_conv)
  have "link_entry d e ino nm s = Some (s\<lparr>dirents := m\<rparr>)"
    using m0 d(1) nh h by (simp add: link_entry_def)
  moreover have "(inodes s)(d \<mapsto> i) = inodes s" using d(1) by auto
  ultimately have run: "link_entry d e ino nm s = Some (s\<lparr>dirents := m, inodes := (inodes s)(d \<mapsto> i\<lparr>entries := hd (xs @ [e])\<rparr>)\<rparr>)"
    unfolding same by simp
  have card: "ent_of m q = ent_of ?m1 q" for q
    unfolding ent_of_def
    using mod_node_keeps [OF m0(1), of "\<lambda>n. (ename n, einode n)" q] mod_node_keeps [OF m0(2), of "\<lambda>n. (ename n, einode n)" q]
    by (simp add: set_enext_def set_eprev_def)
  have hl: "hd xs \<in> set xs" "last xs \<in> set xs" using False by simp_all
  have "m q = dirents s q" if "q \<notin> set (e # xs)" for q
  proof -
    have "q \<notin> {hd xs, last xs}" "q \<noteq> e" using that hl by auto
    then show ?thesis using m(4) by simp
  qed
  moreover have "ent_of m e = Some (nm, ino)" using m(3) by (simp add: ent_of_def)
  moreover have "ent_of m q = ent_of (dirents s) q" if "q \<noteq> e" for q
    unfolding card using that by (simp add: ent_of_def)
  moreover have "dir_ptr m (hd (xs @ [e])) (xs @ [e])" using m(2) by (simp add: dir_ptr_def)
  ultimately show ?thesis using run by blast
qed

lemma unlink_entry_ok:
  assumes d: "inodes s d = Some i" "dir_ptr (dirents s) (entries i) (ys @ e # zs)"
  shows "\<exists>m h. unlink_entry d e s = Some (s\<lparr>dirents := m, inodes := (inodes s)(d \<mapsto> i\<lparr>entries := h\<rparr>)\<rparr>) \<and>
    dir_ptr m h (ys @ zs) \<and> dom m = dom (dirents s) \<and> (\<forall>q. ent_of m q = ent_of (dirents s) q)"
proof -
  have r: "ring enext eprev (dirents s) (ys @ e # zs)" and h: "entries i = hd (ys @ e # zs)"
    using d by (auto simp: dir_ptr_def)
  have dd: "distinct (ys @ e # zs)" using r by (simp add: ring_def)
  obtain n where n: "dirents s e = Some n" using ring_dom [OF r] by auto
  show ?thesis
  proof (cases "ys @ zs = []")
    case True
    then have a: "enext n = e" "eprev n = e" using de.ring_alone [of "dirents s" e n] r n by simp_all
    have s: "set_enext e n = n" "set_eprev e n = n" using a by (simp_all add: set_enext_def set_eprev_def)
    have m: "(dirents s)(e \<mapsto> n) = dirents s" using n by auto
    have "unlink_entry d e s = Some (s\<lparr>dirents := dirents s, inodes := (inodes s)(d \<mapsto> i\<lparr>entries := NULL\<rparr>)\<rparr>)"
      using True n d(1) h a by (simp add: unlink_entry_def mod_node_def s m set_entries_def)
    then show ?thesis using True by (intro exI [of _ "dirents s"] exI [of _ NULL]) (simp add: dir_ptr_def)
  next
    case False
    obtain m where m: "(do { m \<leftarrow> mod_node (eprev n) (set_enext (enext n)) (dirents s);
          mod_node (enext n) (set_eprev (eprev n)) m }) = Some m"
      "ring enext eprev m (ys @ zs)" "m e = dirents s e" "enext n \<noteq> e" "enext n = hd (zs @ ys)"
      using de.ring_remove [OF r False n] by auto
    obtain m1 where m1: "mod_node (eprev n) (set_enext (enext n)) (dirents s) = Some m1"
      "mod_node (enext n) (set_eprev (eprev n)) m1 = Some m"
      using m(1) by (auto simp: bind_eq_Some_conv)
    have m1e: "m1 e = Some n"
      using m1(2) m(3,4) n by (auto simp: mod_node_def bind_eq_Some_conv split: if_splits)
    let ?h = "if entries i = e then enext n else entries i"
    have "(inodes s)(d \<mapsto> i\<lparr>entries := ?h\<rparr>) = (if entries i = e then (inodes s)(d \<mapsto> i\<lparr>entries := enext n\<rparr>) else inodes s)"
      using d(1) by auto
    then have run: "unlink_entry d e s = Some (s\<lparr>dirents := m, inodes := (inodes s)(d \<mapsto> i\<lparr>entries := ?h\<rparr>)\<rparr>)"
      using n m1 m1e m(3,4) d(1) by (simp add: unlink_entry_def set_entries_def)
    have "dir_ptr m ?h (ys @ zs)"
      using m(2,5) False dd h by (cases ys) (auto simp: dir_ptr_def)
    moreover have "ent_of m q = ent_of (dirents s) q" for q
      unfolding ent_of_def
      using mod_node_keeps [OF m1(1), of "\<lambda>n. (ename n, einode n)" q] mod_node_keeps [OF m1(2), of "\<lambda>n. (ename n, einode n)" q]
      by (simp add: set_enext_def set_eprev_def)
    moreover have "dom m = dom (dirents s)" using mod_node_dom [OF m1(1)] mod_node_dom [OF m1(2)] by simp
    ultimately show ?thesis using run by blast
  qed
qed

subsection \<open>The store\<close>

lemma store_ok_relink:
  assumes ok: "store_ok s" and d: "inodes s d = Some i" and m: "dom m = dom (dirents s)"
  shows "store_ok (s\<lparr>dirents := m, inodes := (inodes s)(d \<mapsto> i\<lparr>entries := h\<rparr>)\<rparr>)" (is "store_ok ?s")
  unfolding store_ok_def
proof (intro conjI allI impI)
  have dom: "dom (inodes ?s) = dom (inodes s)" "dom (dirents ?s) = dom (dirents s)" using d m by auto
  show "kheap_ok (fheap ?s)" "dom (inodes ?s) \<union> dom (dirents ?s) \<subseteq> kheap_live (fheap ?s)"
    "dom (inodes ?s) \<inter> dom (dirents ?s) = {}"
    using store_okD(1-3) [OF ok] unfolding dom by simp_all
  have old: "\<exists>u. inodes s x = Some u \<and> data u = data v \<and> (file_ok s x u \<longrightarrow> file_ok ?s x v)"
    if "inodes ?s x = Some v" for x v
    using that d unfolding file_ok_def dom by (cases "x = d") auto
  fix q t assume t: "inodes ?s q = Some t"
  show "file_ok ?s q t" using old [OF t] store_okD(4) [OF ok] by blast
  fix q' t' assume t2: "inodes ?s q' = Some t'" "data t = data t'" "data t \<noteq> NULL"
  show "q = q'" using store_okD(5) [OF ok, of q _ q'] old [OF t] old [OF t2(1)] t2(2,3) by metis
qed

lemma free_mem_step:
  assumes "kheap_ok (fheap s)" "p \<in> kheap_live (fheap s)"
  obtains h where "free_mem p s = Some (s\<lparr>fheap := h, inodes := (inodes s)(p := None), dirents := (dirents s)(p := None)\<rparr>)"
    "kheap_ok h" "kheap_live h = kheap_live (fheap s) - {p}"
    "\<And>q k. kheap_block (fheap s) q k \<Longrightarrow> q \<noteq> p \<Longrightarrow> kheap_block h q k"
proof -
  obtain h where h: "kfree p (fheap s) = Some h" "kheap_ok h" "kheap_live h = kheap_live (fheap s) - {p}"
    using kh.dealloc_live [OF assms] by blast
  show thesis
    using that [of h] h kb.dealloc_keeps [OF assms h(1)] by (simp add: free_mem_def)
qed

text \<open>Ending the lives of the file at \<open>p\<close>, its data and the entry at \<open>e\<close>.\<close>

lemma store_ok_remove:
  assumes ok: "store_ok s" and p: "inodes s p = Some r" and e: "e \<in> dom (dirents s)"
    and h: "kheap_ok h" "kheap_live h = kheap_live (fheap s) - {data r} - {e} - {p}"
    and keeps: "\<And>q k. kheap_block (fheap s) q k \<Longrightarrow> q \<notin> {data r, e, p} \<Longrightarrow> kheap_block h q k"
  shows "store_ok (s\<lparr>fheap := h, inodes := (inodes s)(p := None), dirents := (dirents s)(e := None)\<rparr>)" (is "store_ok ?s")
  unfolding store_ok_def
proof (intro conjI allI impI)
  note dr = data_not_dom [OF ok p]
  have dom: "dom (inodes ?s) = dom (inodes s) - {p}" "dom (dirents ?s) = dom (dirents s) - {e}" by auto
  have pe: "p \<in> dom (inodes s)" using p by blast
  show "kheap_ok (fheap ?s)" using h(1) by simp
  show "dom (inodes ?s) \<union> dom (dirents ?s) \<subseteq> kheap_live (fheap ?s)"
    unfolding dom using store_okD(2,3) [OF ok] dr e pe h(2) by (simp del: domIff) blast
  show "dom (inodes ?s) \<inter> dom (dirents ?s) = {}" unfolding dom using store_okD(3) [OF ok] by blast
  have old: "inodes s x = Some v \<and> x \<noteq> p" if "inodes ?s x = Some v" for x v
    using that by (auto split: if_splits)
  fix q t assume t: "inodes ?s q = Some t"
  show "file_ok ?s q t"
  proof (cases "data t = NULL")
    case True
    then show ?thesis using store_okD(4) [OF ok, of q t] old [OF t] by (auto simp: file_ok_def)
  next
    case False
    have dt: "data t \<notin> dom (inodes s) \<union> dom (dirents s)" using data_not_dom [OF ok] old [OF t] by blast
    have "data t \<noteq> data r" using store_okD(5) [OF ok _ p _ False] old [OF t] by blast
    then have "data t \<notin> {data r, e, p}" using dt e pe by blast
    then have "kheap_block h (data t) (unat (data_capacity t))"
      using keeps data_block [OF ok _ False] old [OF t] by blast
    then show ?thesis using store_okD(4) [OF ok, of q t] old [OF t] False dt unfolding file_ok_def dom by simp
  qed
  fix q' t' assume t2: "inodes ?s q' = Some t'" "data t = data t'" "data t \<noteq> NULL"
  show "q = q'" using store_okD(5) [OF ok, of q t q' t'] old [OF t] old [OF t2(1)] t2(2,3) by blast
qed

text \<open>Ending the life of an entry or of an inode without data.\<close>

lemma store_ok_drop:
  assumes ok: "store_ok s" and p: "p \<in> dom (inodes s) \<union> dom (dirents s)" "\<And>r. inodes s p = Some r \<Longrightarrow> data r = NULL"
    and h: "kheap_ok h" "kheap_live h = kheap_live (fheap s) - {p}"
    and keeps: "\<And>q k. kheap_block (fheap s) q k \<Longrightarrow> q \<noteq> p \<Longrightarrow> kheap_block h q k"
  shows "store_ok (s\<lparr>fheap := h, inodes := (inodes s)(p := None), dirents := (dirents s)(p := None)\<rparr>)" (is "store_ok ?s")
  unfolding store_ok_def
proof (intro conjI allI impI)
  have dom: "dom (inodes ?s) = dom (inodes s) - {p}" "dom (dirents ?s) = dom (dirents s) - {p}" by auto
  show "kheap_ok (fheap ?s)" using h(1) by simp
  show "dom (inodes ?s) \<union> dom (dirents ?s) \<subseteq> kheap_live (fheap ?s)"
    unfolding dom using store_okD(2) [OF ok] h(2) by (simp del: domIff) blast
  show "dom (inodes ?s) \<inter> dom (dirents ?s) = {}" unfolding dom using store_okD(3) [OF ok] by blast
  have old: "inodes s x = Some v \<and> x \<noteq> p" if "inodes ?s x = Some v" for x v
    using that by (auto split: if_splits)
  fix q t assume t: "inodes ?s q = Some t"
  show "file_ok ?s q t"
  proof (cases "data t = NULL")
    case True
    then show ?thesis using store_okD(4) [OF ok, of q t] old [OF t] by (auto simp: file_ok_def)
  next
    case False
    have dt: "data t \<notin> dom (inodes s) \<union> dom (dirents s)" using data_not_dom [OF ok] old [OF t] by blast
    then have "kheap_block h (data t) (unat (data_capacity t))"
      using keeps data_block [OF ok _ False] old [OF t] p(1) by blast
    then show ?thesis using store_okD(4) [OF ok, of q t] old [OF t] False dt unfolding file_ok_def dom by simp
  qed
  fix q' t' assume t2: "inodes ?s q' = Some t'" "data t = data t'" "data t \<noteq> NULL"
  show "q = q'" using store_okD(5) [OF ok, of q t q' t'] old [OF t] old [OF t2(1)] t2(2,3) by blast
qed

lemma free_mem_drop:
  assumes ok: "store_ok s" and p: "p \<in> dom (inodes s) \<union> dom (dirents s)" "\<And>r. inodes s p = Some r \<Longrightarrow> data r = NULL"
  obtains s' where "free_mem p s = Some s'" "store_ok s'" "inodes s' = (inodes s)(p := None)"
    "dirents s' = (dirents s)(p := None)" "kheap_live (fheap s') = kheap_live (fheap s) - {p}" "bytes s' = bytes s"
proof -
  have live: "p \<in> kheap_live (fheap s)" using store_okD(2) [OF ok] p(1) by blast
  show thesis
  proof (rule free_mem_step [OF store_okD(1) [OF ok] live])
    fix h assume h: "free_mem p s = Some (s\<lparr>fheap := h, inodes := (inodes s)(p := None), dirents := (dirents s)(p := None)\<rparr>)"
      "kheap_ok h" "kheap_live h = kheap_live (fheap s) - {p}"
      "\<And>q k. kheap_block (fheap s) q k \<Longrightarrow> q \<noteq> p \<Longrightarrow> kheap_block h q k"
    show thesis using that [OF h(1)] store_ok_drop [OF ok p h(2-4)] h(3) by simp
  qed
qed

subsection \<open>Creating a file\<close>

definition created :: "addr \<Rightarrow> addr list \<Rightarrow> string \<Rightarrow> file_type \<Rightarrow> addr \<Rightarrow> ramfs \<Rightarrow> ramfs \<Rightarrow> bool" where
  "created d xs nm t ino s s' \<longleftrightarrow> (\<exists>e. dir_list s' d (xs @ [e]) \<and> e \<notin> set xs \<and> ent_of (dirents s') e = Some (nm, ino) \<and>
     inodes s' ino = Some (new_inode (next_inode s) t ino) \<and> ino \<notin> dom (inodes s) \<and>
     (\<forall>q. q \<noteq> e \<longrightarrow> ent_of (dirents s') q = ent_of (dirents s) q) \<and>
     (\<forall>q. q \<notin> {d, ino} \<longrightarrow> inodes s' q = inodes s q) \<and>
     (\<forall>d' ys. d' \<noteq> d \<longrightarrow> dir_list s d' ys \<longrightarrow> set ys \<inter> set xs = {} \<longrightarrow> dir_list s' d' ys))"

lemma in_dom_card: "q \<in> dom m \<longleftrightarrow> ent_of m q \<noteq> None"
  by (auto simp: ent_of_def)

lemma card_dom:
  assumes "\<And>q. q \<noteq> e \<Longrightarrow> ent_of m q = ent_of m' q" "ent_of m e \<noteq> None"
  shows "dom m = insert e (dom m')"
proof (rule set_eqI)
  fix q show "q \<in> dom m \<longleftrightarrow> q \<in> insert e (dom m')"
    unfolding insert_iff in_dom_card using assms by (cases "q = e") simp_all
qed

lemma ramfs_create_ok:
  assumes ok: "store_ok s" and l: "dir_list s d xs" and nm: "length nm < 256" "lookup_in (dirents s) xs nm = NULL"
  obtains (failed) s' where "ramfs_create d nm t s = Some ((- 1, NULL), s')" "store_ok s'" "inodes s' = inodes s"
      "dirents s' = dirents s" "kheap_live (fheap s') = kheap_live (fheap s)"
  | (made) ino s' where "ramfs_create d nm t s = Some ((0, ino), s')" "store_ok s'" "created d xs nm t ino s s'"
proof -
  obtain i where i: "inodes s d = Some i" "itype (base i) = FILE_TYPE_DIRECTORY" "private_data (base i) = d"
    "dir_ptr (dirents s) (entries i) xs" using l by (auto simp: dir_list_def)
  have nf: "ramfs_find_entry d nm s = Some NULL" using find_entry_list [OF l] nm(2) by simp
  show thesis
  proof (rule ramfs_alloc_inode_ok [OF ok, where t = t])
    assume "ramfs_alloc_inode t s = Some (NULL, s)"
    then show thesis using failed [of s] ok i nf by (simp add: ramfs_create_def)
  next
    fix ino s1 assume a: "ramfs_alloc_inode t s = Some (ino, s1)" "ino \<noteq> NULL" "store_ok s1"
      "inodes s1 = (inodes s)(ino \<mapsto> new_inode (next_inode s) t ino)" "ino \<notin> dom (inodes s) \<union> dom (dirents s)"
      "dirents s1 = dirents s" "bytes s1 = bytes s" "ino \<notin> kheap_live (fheap s)"
      "kheap_live (fheap s1) = insert ino (kheap_live (fheap s))"
    show thesis
    proof (rule alloc_mem_ok [OF a(3) sizeof_fs_small(2)])
      assume null: "alloc_mem sizeof_ramfs_dir_entry s1 = Some (NULL, s1)"
      have "ino \<in> dom (inodes s1) \<union> dom (dirents s1)" "\<And>r. inodes s1 ino = Some r \<Longrightarrow> data r = NULL"
        by (auto simp: a(4) new_inode_def)
      then obtain s2 where s2: "free_mem ino s1 = Some s2" "store_ok s2" "inodes s2 = (inodes s1)(ino := None)"
        "dirents s2 = (dirents s1)(ino := None)" "kheap_live (fheap s2) = kheap_live (fheap s1) - {ino}"
        by (rule free_mem_drop [OF a(3)])
      have "inodes s2 = inodes s" "dirents s2 = dirents s" unfolding s2(3,4) a(4,6) using a(5) by auto
      moreover have "kheap_live (fheap s2) = kheap_live (fheap s)" using s2(5) a(8,9) by simp
      moreover have "ramfs_create d nm t s = Some ((- 1, NULL), s2)"
        using i nf a(1,2) null s2(1) by (simp add: ramfs_create_def)
      ultimately show thesis using failed s2(2) by blast
    next
      fix e s2 assume e: "alloc_mem sizeof_ramfs_dir_entry s1 = Some (e, s2)" "e \<noteq> NULL" "store_ok s2"
        "e \<notin> kheap_live (fheap s1)" "kheap_live (fheap s2) = insert e (kheap_live (fheap s1))"
        "inodes s2 = inodes s1" "dirents s2 = dirents s1" "e \<notin> dom (inodes s1) \<union> dom (dirents s1)"
        "\<And>q r. inodes s1 q = Some r \<Longrightarrow> data r \<noteq> e"
      have nd: "ino \<noteq> d" using a(5) i(1) by auto
      have i2: "inodes s2 d = Some i" "dir_ptr (dirents s2) (entries i) xs" "e \<notin> dom (dirents s2)"
        using i e nd a by auto
      from link_entry_ok [OF i2 e(2), of ino nm] obtain m where
        m: "link_entry d e ino nm s2 = Some (s2\<lparr>dirents := m, inodes := (inodes s2)(d \<mapsto> i\<lparr>entries := hd (xs @ [e])\<rparr>)\<rparr>)"
        "dir_ptr m (hd (xs @ [e])) (xs @ [e])" "ent_of m e = Some (nm, ino)"
        "\<forall>q. q \<noteq> e \<longrightarrow> ent_of m q = ent_of (dirents s2) q" "\<forall>q. q \<notin> set (e # xs) \<longrightarrow> m q = dirents s2 q"
        by blast
      let ?s = "s2\<lparr>dirents := m, inodes := (inodes s2)(d \<mapsto> i\<lparr>entries := hd (xs @ [e])\<rparr>)\<rparr>"
      have dm: "dom m = insert e (dom (dirents s2))" using m(3,4) by (intro card_dom) auto
      have ok2: "store_ok (s2\<lparr>dirents := m\<rparr>)"
      proof (rule store_ok_new_entries [OF e(3)])
        show "dom m - dom (dirents s2) \<subseteq> kheap_live (fheap s2) - dom (inodes s2)" using dm e(5,6,8) by auto
        show "data r \<notin> dom m" if "inodes s2 q = Some r" for q r
          using that dm data_not_dom [OF e(3) that] e(6,9) by simp
      qed
      have "store_ok ?s" using store_ok_relink [OF ok2, of d i m] i2(1) by simp
      moreover have "created d xs nm t ino s ?s"
        unfolding created_def
      proof (intro exI [of _ e] conjI allI impI)
        show "dir_list ?s d (xs @ [e])" using i(2,3) m(2) by (simp add: dir_list_def)
        show "e \<notin> set xs" using dir_ptr_set [OF i(4)] e(7,8) a(6) by auto
        show "ent_of (dirents ?s) e = Some (nm, ino)" using m(3) by simp
        show "inodes ?s ino = Some (new_inode (next_inode s) t ino)" using nd e(6) a(4) by simp
        show "ino \<notin> dom (inodes s)" using a(5) by simp
        show "ent_of (dirents ?s) q = ent_of (dirents s) q" if "q \<noteq> e" for q using m(4) that e(7) a(6) by simp
        show "inodes ?s q = inodes s q" if "q \<notin> {d, ino}" for q using that e(6) a(4) by simp
        fix d' ys assume d': "d' \<noteq> d" "dir_list s d' ys" "set ys \<inter> set xs = {}"
        then obtain j where j: "inodes s d' = Some j" "itype (base j) = FILE_TYPE_DIRECTORY" "private_data (base j) = d'"
          "dir_ptr (dirents s) (entries j) ys" by (auto simp: dir_list_def)
        have "d' \<noteq> ino" using j(1) a(5) by auto
        have "dir_ptr m (entries j) ys"
        proof (rule dir_ptr_cong [OF j(4)])
          fix q assume "q \<in> set ys"
          then have "q \<in> dom (dirents s)" "q \<notin> set xs" using dir_ptr_set [OF j(4)] d'(3) by auto
          then have "q \<notin> set (e # xs)" using e(7,8) a(6) by auto
          then show "m q = dirents s q" using m(5) e(7) a(6) by simp
        qed
        then show "dir_list ?s d' ys" using j(1-3) \<open>d' \<noteq> ino\<close> d'(1) e(6) a(4) by (simp add: dir_list_def)
      qed
      moreover have "ramfs_create d nm t s = Some ((0, ino), ?s)"
        using i nf a(1,2) e(1,2) m(1) nm(1) by (simp add: ramfs_create_def entry_name_def)
      ultimately show thesis using made by blast
    qed
  qed
qed

subsection \<open>Removing a file\<close>

lemma fun_upd_None_same: "p \<notin> dom m \<Longrightarrow> m(p := None) = m"
  by (auto simp: fun_upd_idem_iff)

lemma ramfs_unlink_ok:
  assumes ok: "store_ok s" and l: "dir_list s d (ys @ e # zs)" and e: "ent_of (dirents s) e = Some (nm, p)"
    and first: "\<forall>y \<in> set ys. map_option fst (ent_of (dirents s) y) \<noteq> Some nm"
    and p: "inodes s p = Some r" "itype (base r) = FILE_TYPE_REGULAR"
  obtains s' where "ramfs_unlink d nm s = Some (0, s')" "store_ok s'" "dir_list s' d (ys @ zs)"
    "kheap_live (fheap s') = kheap_live (fheap s) - {data r} - {e} - {p}" "inodes s' p = None" "dirents s' e = None"
    "\<And>q. q \<notin> {d, p} \<Longrightarrow> inodes s' q = inodes s q" "\<And>q. q \<noteq> e \<Longrightarrow> ent_of (dirents s') q = ent_of (dirents s) q"
    "bytes s' = bytes s"
proof -
  obtain i where i: "inodes s d = Some i" "itype (base i) = FILE_TYPE_DIRECTORY" "private_data (base i) = d"
    "dir_ptr (dirents s) (entries i) (ys @ e # zs)" using l by (auto simp: dir_list_def)
  have pd: "p \<noteq> d" using p i by auto
  have pp: "private_data (base r) = p" using store_okD(4) [OF ok p(1)] by (simp add: file_ok_def)
  have "lookup_in (dirents s) (ys @ e # zs) nm = e"
    using first e by (auto simp: lookup_append) (simp add: lookup_in_def)
  then have fe: "ramfs_find_entry d nm s = Some e" "e \<noteq> NULL"
    using find_entry_list [OF l, of nm] dir_ptr_set [OF i(4)] by auto
  obtain n where n: "dirents s e = Some n" "ename n = nm" "einode n = p" using e by (auto simp: ent_of_def)
  from unlink_entry_ok [OF i(1,4)] obtain m h where
    m: "unlink_entry d e s = Some (s\<lparr>dirents := m, inodes := (inodes s)(d \<mapsto> i\<lparr>entries := h\<rparr>)\<rparr>)"
    "dir_ptr m h (ys @ zs)" "dom m = dom (dirents s)" "\<forall>q. ent_of m q = ent_of (dirents s) q" by blast
  let ?s1 = "s\<lparr>dirents := m, inodes := (inodes s)(d \<mapsto> i\<lparr>entries := h\<rparr>)\<rparr>"
  have ok1: "store_ok ?s1" by (rule store_ok_relink [OF ok i(1) m(3)])
  have p1: "inodes ?s1 p = Some r" using p(1) pd by simp
  obtain n1 where n1: "m e = Some n1" "einode n1 = p" using m(4) e by (auto simp: ent_of_def dest!: spec [of _ e])
  have pin: "p \<in> dom (inodes ?s1)" using p1 by blast
  moreover have "e \<in> dom (dirents ?s1)" using n1(1) by auto
  ultimately have ed: "e \<in> dom (dirents ?s1)" "e \<notin> dom (inodes ?s1)" "p \<notin> dom (dirents ?s1)" "e \<noteq> p"
    using store_okD(3) [OF ok1] by blast+
  have lv: "e \<in> kheap_live (fheap ?s1)" "p \<in> kheap_live (fheap ?s1)" using store_okD(2) [OF ok1] ed(1) pin by blast+
  note dr = data_not_dom [OF ok1 p1]
  have ne: "data r \<noteq> e" "data r \<noteq> p" using dr ed(1) p1 by auto
  have "\<exists>h1. (if data r \<noteq> NULL then free_mem (data r) ?s1 else Some ?s1) = Some (?s1\<lparr>fheap := h1\<rparr>) \<and> kheap_ok h1 \<and>
      kheap_live h1 = kheap_live (fheap s) - {data r} \<and>
      (\<forall>q k. kheap_block (fheap s) q k \<longrightarrow> q \<noteq> data r \<longrightarrow> kheap_block h1 q k)"
  proof (cases "data r = NULL")
    case True
    then show ?thesis
      using store_okD(1) [OF ok] kh.null_not_live [OF store_okD(1) [OF ok]] by (intro exI [of _ "fheap s"]) simp
  next
    case False
    have lr: "data r \<in> kheap_live (fheap s)" using kb.blk_live [OF data_block [OF ok p(1) False]] .
    obtain h1 where h1: "kfree (data r) (fheap s) = Some h1" "kheap_ok h1" "kheap_live h1 = kheap_live (fheap s) - {data r}"
      using kh.dealloc_live [OF store_okD(1) [OF ok] lr] by blast
    have "free_mem (data r) ?s1 = Some (?s1\<lparr>fheap := h1\<rparr>)" using h1(1) dr by (intro free_mem_data) simp_all
    then show ?thesis using False h1 kb.dealloc_keeps [OF store_okD(1) [OF ok] lr h1(1)] by auto
  qed
  then obtain h1 where h1: "(if data r \<noteq> NULL then free_mem (data r) ?s1 else Some ?s1) = Some (?s1\<lparr>fheap := h1\<rparr>)"
    "kheap_ok h1" "kheap_live h1 = kheap_live (fheap s) - {data r}"
    "\<And>q k. kheap_block (fheap s) q k \<Longrightarrow> q \<noteq> data r \<Longrightarrow> kheap_block h1 q k" by blast
  obtain h2 where h2: "kfree e h1 = Some h2" "kheap_ok h2" "kheap_live h2 = kheap_live h1 - {e}"
    "\<And>q k. kheap_block h1 q k \<Longrightarrow> q \<noteq> e \<Longrightarrow> kheap_block h2 q k"
    using kh.dealloc_live [OF h1(2), of e] kb.dealloc_keeps [OF h1(2), of e] lv(1) h1(3) ne by auto
  obtain h3 where h3: "kfree p h2 = Some h3" "kheap_ok h3" "kheap_live h3 = kheap_live h2 - {p}"
    "\<And>q k. kheap_block h2 q k \<Longrightarrow> q \<noteq> p \<Longrightarrow> kheap_block h3 q k"
    using kh.dealloc_live [OF h2(2), of p] kb.dealloc_keeps [OF h2(2), of p] lv(2) h1(3) h2(3) ne ed(4) by auto
  let ?s' = "?s1\<lparr>fheap := h3, inodes := (inodes ?s1)(p := None), dirents := (dirents ?s1)(e := None)\<rparr>"
  have fr: "free_mem e (?s1\<lparr>fheap := h1\<rparr>) = Some (?s1\<lparr>fheap := h2, dirents := (dirents ?s1)(e := None)\<rparr>)"
    "free_mem p (?s1\<lparr>fheap := h2, dirents := (dirents ?s1)(e := None)\<rparr>) = Some ?s'"
    using h2(1) h3(1) fun_upd_None_same [OF ed(2)] fun_upd_None_same [of p "m(e := None)"] ed(3)
    by (simp_all add: free_mem_def)
  have "store_ok ?s'"
    by (rule store_ok_remove [OF ok1 p1 ed(1) h3(2)]) (use h1 h2 h3 in auto)
  moreover have "ramfs_unlink d nm s = Some (0, ?s')"
    using i fe n p pp pd m(1) n1 p1 h1(1) fr by (simp add: ramfs_unlink_def)
  moreover have "dir_list ?s' d (ys @ zs)"
  proof -
    have "distinct (ys @ e # zs)" using dir_ptr_set [OF i(4)] by blast
    then have "dir_ptr (m(e := None)) h (ys @ zs)" by (intro dir_ptr_cong [OF m(2)]) auto
    then show ?thesis using i(2,3) pd by (simp add: dir_list_def)
  qed
  moreover have "kheap_live (fheap ?s') = kheap_live (fheap s) - {data r} - {e} - {p}" using h1(3) h2(3) h3(3) by simp
  moreover have "ent_of (dirents ?s') q = ent_of (dirents s) q" if "q \<noteq> e" for q
    using m(4) that by (simp add: ent_of_def)
  ultimately show thesis using that [of ?s'] by simp
qed

subsection \<open>The root directory\<close>

lemma alloc_entry_room:
  assumes "heap_room (fheap s) r" "4096 \<le> r"
  shows "\<exists>p s'. alloc_mem sizeof_ramfs_dir_entry s = Some (p, s') \<and> p \<noteq> NULL \<and> heap_room (fheap s') (r - 288)"
proof -
  have n: "unat (align_size sizeof_ramfs_dir_entry + 16) = 288" "sizeof_ramfs_dir_entry \<noteq> 0"
    by (simp_all add: align_size_def sizeof_ramfs_dir_entry_def)
  obtain p h where "kmalloc sizeof_ramfs_dir_entry (fheap s) = Some (p, h)" "p \<noteq> NULL" "heap_room h (r - 288)"
    using kmalloc_room [OF assms(1) n(2) sizeof_fs_small(2)] n(1) assms(2) by auto
  then show ?thesis by (simp add: alloc_mem_def)
qed

text \<open>Two fresh entries, as for a new directory.\<close>

lemma two_entries:
  assumes "store_ok s" "alloc_mem sizeof_ramfs_dir_entry s = Some (a, s1)" "a \<noteq> NULL"
    "alloc_mem sizeof_ramfs_dir_entry s1 = Some (b, s2)" "b \<noteq> NULL"
  shows "store_ok s2" "a \<noteq> b" "inodes s2 = inodes s" "dirents s2 = dirents s"
    "{a, b} \<subseteq> kheap_live (fheap s2)" "{a, b} \<inter> (dom (inodes s) \<union> dom (dirents s)) = {}"
    "\<And>q r. inodes s q = Some r \<Longrightarrow> data r \<notin> {a, b}"
proof -
  have s1: "store_ok s1" "inodes s1 = inodes s" "dirents s1 = dirents s" "a \<notin> dom (inodes s) \<union> dom (dirents s)"
    "\<And>q r. inodes s q = Some r \<Longrightarrow> data r \<noteq> a" "a \<in> kheap_live (fheap s1)"
    by (rule alloc_mem_ok [OF assms(1) sizeof_fs_small(2)]; use assms(2,3) in simp)+
  have s2: "store_ok s2" "inodes s2 = inodes s1" "dirents s2 = dirents s1" "b \<notin> dom (inodes s1) \<union> dom (dirents s1)"
    "\<And>q r. inodes s1 q = Some r \<Longrightarrow> data r \<noteq> b" "kheap_live (fheap s2) = insert b (kheap_live (fheap s1))"
    "b \<notin> kheap_live (fheap s1)"
    by (rule alloc_mem_ok [OF s1(1) sizeof_fs_small(2)]; use assms(4,5) in simp)+
  show "store_ok s2" "a \<noteq> b" "inodes s2 = inodes s" "dirents s2 = dirents s"
    "{a, b} \<subseteq> kheap_live (fheap s2)" "{a, b} \<inter> (dom (inodes s) \<union> dom (dirents s)) = {}"
    "\<And>q r. inodes s q = Some r \<Longrightarrow> data r \<notin> {a, b}"
    using s1 s2 by auto
qed

lemma dot_pair_ok:
  assumes ok: "store_ok s" and d: "inodes s d = Some i" "itype (base i) = FILE_TYPE_DIRECTORY"
    and ab: "a \<noteq> b" "a \<noteq> NULL" "b \<noteq> NULL" "{a, b} \<subseteq> kheap_live (fheap s)"
      "{a, b} \<inter> (dom (inodes s) \<union> dom (dirents s)) = {}" "\<And>q r. inodes s q = Some r \<Longrightarrow> data r \<notin> {a, b}"
  obtains s' where "set_entries d a (dot_pair a b d u s) = Some s'" "store_ok s'" "dir_list s' d [a, b]"
    "ent_of (dirents s') a = Some (''.'', d)" "ent_of (dirents s') b = Some (''..'', u)"
    "\<And>q. q \<noteq> d \<Longrightarrow> inodes s' q = inodes s q" "\<And>q. q \<notin> {a, b} \<Longrightarrow> dirents s' q = dirents s q" "fheap s' = fheap s"
proof -
  let ?m = "(dirents s)(a \<mapsto> \<lparr>ename = ''.'', einode = d, enext = b, eprev = b\<rparr>,
      b \<mapsto> \<lparr>ename = ''..'', einode = u, enext = a, eprev = a\<rparr>)"
  let ?s = "s\<lparr>dirents := ?m, inodes := (inodes s)(d \<mapsto> i\<lparr>entries := a\<rparr>)\<rparr>"
  have dm: "dom ?m = {a, b} \<union> dom (dirents s)" by auto
  have ok1: "store_ok (s\<lparr>dirents := ?m\<rparr>)"
  proof (rule store_ok_new_entries [OF ok])
    show "dom ?m - dom (dirents s) \<subseteq> kheap_live (fheap s) - dom (inodes s)"
      unfolding dm using ab(4,5) by blast
    show "data r \<notin> dom ?m" if "inodes s q = Some r" for q r
      unfolding dm using ab(6) [OF that] data_not_dom [OF ok that] by blast
  qed
  have "store_ok ?s" using store_ok_relink [OF ok1, of d i ?m a] d(1) by simp
  moreover have "ring enext eprev ?m [a, b]" using ab(1-3) by (simp add: ring_def)
  then have "dir_list ?s d [a, b]"
    using d store_okD(4) [OF ok d(1)] by (simp add: dir_list_def dir_ptr_def file_ok_def)
  moreover have "set_entries d a (dot_pair a b d u s) = Some ?s"
    using d(1) by (simp add: set_entries_def dot_pair_def)
  ultimately show thesis using that [of ?s] ab(1) by (simp add: ent_of_def)
qed

lemma root_dir:
  obtains s d a b where "ramfs_create_root ramfs0 = Some (d, s)" "store_ok s" "dir_list s d [a, b]"
    "ent_of (dirents s) a = Some (''.'', d)" "ent_of (dirents s) b = Some (''..'', d)"
    "heap_room (fheap s) (0x1000000 - 648)"
proof -
  have "heap_room (fheap ramfs0) 0x1000000" using heap_room_init by (simp add: ramfs0_def)
  then obtain d s1 where s1: "ramfs_alloc_inode FILE_TYPE_DIRECTORY ramfs0 = Some (d, s1)" "d \<noteq> NULL"
    "heap_room (fheap s1) (0x1000000 - 72)"
    using alloc_inode_room [of ramfs0 "0x1000000" FILE_TYPE_DIRECTORY] by auto
  have ok1: "store_ok s1" "inodes s1 d = Some (new_inode 1 FILE_TYPE_DIRECTORY d)"
    by (rule ramfs_alloc_inode_ok [OF ramfs0_ok, where t = FILE_TYPE_DIRECTORY]; use s1 in \<open>simp add: ramfs0_def\<close>)+
  obtain a s2 where s2: "alloc_mem sizeof_ramfs_dir_entry s1 = Some (a, s2)" "a \<noteq> NULL" "heap_room (fheap s2) (0x1000000 - 72 - 288)"
    using alloc_entry_room [OF s1(3)] by auto
  obtain b s3 where s3: "alloc_mem sizeof_ramfs_dir_entry s2 = Some (b, s3)" "b \<noteq> NULL" "heap_room (fheap s3) (0x1000000 - 72 - 288 - 288)"
    using alloc_entry_room [OF s2(3)] by auto
  note te = two_entries [OF ok1(1) s2(1,2) s3(1,2)]
  have d: "inodes s3 d = Some (new_inode 1 FILE_TYPE_DIRECTORY d)" using ok1(2) te(3) by simp
  have ty: "itype (base (new_inode 1 FILE_TYPE_DIRECTORY d)) = FILE_TYPE_DIRECTORY" by (simp add: new_inode_def)
  have fresh: "{a, b} \<inter> (dom (inodes s3) \<union> dom (dirents s3)) = {}" "\<And>q r. inodes s3 q = Some r \<Longrightarrow> data r \<notin> {a, b}"
    unfolding te(3,4) by (rule te(6), rule te(7))
  obtain s where s: "set_entries d a (dot_pair a b d d s3) = Some s" "store_ok s" "dir_list s d [a, b]"
    "ent_of (dirents s) a = Some (''.'', d)" "ent_of (dirents s) b = Some (''..'', d)" "fheap s = fheap s3"
    by (rule dot_pair_ok [OF te(1) d ty te(2) s2(2) s3(2) te(5) fresh, where u = d]) (assumption | rule that)+
  have "ramfs_create_root ramfs0 = Some (d, s)" using s1 s2 s3 s(1) by (simp add: ramfs_create_root_def)
  moreover have "heap_room (fheap s) (0x1000000 - 648)" using s3(3) s(6) by simp
  ultimately show thesis using that s by blast
qed

subsection \<open>Properties\<close>

text \<open>Creating in a directory: the name exists, memory runs out, or it is appended.\<close>

lemma ramfs_create_in_dir:
  assumes "store_ok s" "dir_list s d xs" "length nm < 256"
  shows "\<exists>ret ino s'. ramfs_create d nm t s = Some ((ret, ino), s') \<and> store_ok s' \<and>
    (if ramfs_find_entry d nm s \<noteq> Some NULL then ret = - 1 \<and> s' = s
     else if ret = - 1
     then inodes s' = inodes s \<and> dirents s' = dirents s \<and> kheap_live (fheap s') = kheap_live (fheap s)
     else ret = 0 \<and> created d xs nm t ino s s' \<and>
       (\<exists>e. ramfs_find_entry d nm s' = Some e \<and> ent_of (dirents s') e = Some (nm, ino)) \<and>
       (\<forall>nm'. nm' \<noteq> nm \<longrightarrow> ramfs_find_entry d nm' s' = ramfs_find_entry d nm' s))"
proof (cases "lookup_in (dirents s) xs nm = NULL")
  case False
  obtain i where i: "inodes s d = Some i" "itype (base i) = FILE_TYPE_DIRECTORY" "private_data (base i) = d"
    using assms(2) by (auto simp: dir_list_def)
  then have "ramfs_create d nm t s = Some ((- 1, NULL), s)"
    using False find_entry_list [OF assms(2), of nm] by (simp add: ramfs_create_def)
  then show ?thesis using False find_entry_list [OF assms(2), of nm] assms(1) by auto
next
  case True
  note nf = find_entry_list [OF assms(2)]
  show ?thesis
  proof (rule ramfs_create_ok [OF assms True, where t = t])
    fix s' assume "ramfs_create d nm t s = Some ((- 1, NULL), s')" "store_ok s'" "inodes s' = inodes s"
      "dirents s' = dirents s" "kheap_live (fheap s') = kheap_live (fheap s)"
    then show ?thesis using nf [of nm] True by auto
  next
    fix ino s' assume c: "ramfs_create d nm t s = Some ((0, ino), s')" "store_ok s'" "created d xs nm t ino s s'"
    then obtain e where e: "dir_list s' d (xs @ [e])" "e \<notin> set xs" "ent_of (dirents s') e = Some (nm, ino)"
      "\<forall>q. q \<noteq> e \<longrightarrow> ent_of (dirents s') q = ent_of (dirents s) q" by (auto simp: created_def)
    have "lookup_in (dirents s') xs nm' = lookup_in (dirents s) xs nm'" for nm'
      by (rule lookup_cong) (use e(2,4) in auto)
    moreover have "NULL \<notin> set xs" using dir_list_set [OF assms(2)] by blast
    ultimately have "lookup_in (dirents s') (xs @ [e]) nm = e"
      "nm' \<noteq> nm \<Longrightarrow> lookup_in (dirents s') (xs @ [e]) nm' = lookup_in (dirents s) xs nm'" for nm'
      using True lookup_null [of xs "dirents s'"] e(3) by (auto simp: lookup_append) (auto simp: lookup_in_def)
    then have "ramfs_find_entry d nm s' = Some e"
      "\<forall>nm'. nm' \<noteq> nm \<longrightarrow> ramfs_find_entry d nm' s' = ramfs_find_entry d nm' s"
      using find_entry_list [OF e(1)] nf by auto
    then show ?thesis using c e(3) nf [of nm] True by auto
  qed
qed

text \<open>C15: \<open>ramfs_create\<close>. When the parent is not a directory, or is one that has the name already, it returns
  \<open>- 1\<close> and changes nothing. Otherwise it either fails for want of memory and leaves inodes, entries and the
  heap's live blocks as they were, or it appends one entry with a new inode of the given type: the name is
  then found and leads to that inode, every other name is found as before, and all other directories and
  files are untouched. Names of 256 or more characters, which overrun the entry, are left out.\<close>

theorem ramfs_create_lookup:
  assumes "store_ok s" "inodes s d = Some i" "itype (base i) = FILE_TYPE_DIRECTORY \<longrightarrow> dir_list s d xs"
    and "length nm < 256"
  shows "\<exists>ret ino s'. ramfs_create d nm t s = Some ((ret, ino), s') \<and> store_ok s' \<and>
    (if itype (base i) \<noteq> FILE_TYPE_DIRECTORY \<or> ramfs_find_entry d nm s \<noteq> Some NULL then ret = - 1 \<and> s' = s
     else if ret = - 1
     then inodes s' = inodes s \<and> dirents s' = dirents s \<and> kheap_live (fheap s') = kheap_live (fheap s)
     else ret = 0 \<and> created d xs nm t ino s s' \<and>
       (\<exists>e. ramfs_find_entry d nm s' = Some e \<and> ent_of (dirents s') e = Some (nm, ino)) \<and>
       (\<forall>nm'. nm' \<noteq> nm \<longrightarrow> ramfs_find_entry d nm' s' = ramfs_find_entry d nm' s))"
proof (cases "itype (base i) = FILE_TYPE_DIRECTORY")
  case True
  then show ?thesis using ramfs_create_in_dir [OF assms(1) _ assms(4), of d xs t] assms(3) by simp
next
  case False
  then have "ramfs_create d nm t s = Some ((- 1, NULL), s)" using assms(2) by (simp add: ramfs_create_def)
  then show ?thesis using False assms(1) by auto
qed

lemma create_room:
  assumes "heap_room (fheap s) (0x1000000 - 648)" "dir_list s d xs" "lookup_in (dirents s) xs nm = NULL"
  shows "ramfs_create d nm t s \<noteq> Some ((- 1, ino), s')"
proof -
  obtain i where i: "inodes s d = Some i" "itype (base i) = FILE_TYPE_DIRECTORY" "private_data (base i) = d"
    using assms(2) by (auto simp: dir_list_def)
  obtain p s1 where s1: "ramfs_alloc_inode t s = Some (p, s1)" "p \<noteq> NULL" "heap_room (fheap s1) (0x1000000 - 648 - 72)"
    using alloc_inode_room [OF assms(1), of t] by auto
  obtain e s2 where s2: "alloc_mem sizeof_ramfs_dir_entry s1 = Some (e, s2)" "e \<noteq> NULL"
    using alloc_entry_room [OF s1(3)] by auto
  show ?thesis
    using i s1 s2 find_entry_list [OF assms(2), of nm] assms(3) by (auto simp: ramfs_create_def bind_eq_Some_conv)
qed

theorem ramfs_create_lookup_witness:
  "\<exists>s d ino s' e. ramfs_create_root ramfs0 = Some (d, s) \<and> ramfs_find_entry d ''f'' s = Some NULL \<and>
    ramfs_create d ''f'' FILE_TYPE_REGULAR s = Some ((0, ino), s') \<and> ramfs_find_entry d ''f'' s' = Some e \<and>
    ent_of (dirents s') e = Some (''f'', ino)"
proof -
  obtain s d a b where s: "ramfs_create_root ramfs0 = Some (d, s)" "store_ok s" "dir_list s d [a, b]"
    "ent_of (dirents s) a = Some (''.'', d)" "ent_of (dirents s) b = Some (''..'', d)"
    "heap_room (fheap s) (0x1000000 - 648)" by (rule root_dir)
  have l: "lookup_in (dirents s) [a, b] ''f'' = NULL" using s(4,5) by (simp add: lookup_in_def)
  note nf = find_entry_list [OF s(3), of "''f''"] and cr = create_room [OF s(6,3) l]
  have len: "length ''f'' < 256" by simp
  obtain i where i: "inodes s d = Some i" "itype (base i) = FILE_TYPE_DIRECTORY" using s(3) by (auto simp: dir_list_def)
  obtain ret ino s' where
    c: "ramfs_create d ''f'' FILE_TYPE_REGULAR s = Some ((ret, ino), s')"
    "ret \<noteq> - 1 \<longrightarrow> ret = 0 \<and> (\<exists>e. ramfs_find_entry d ''f'' s' = Some e \<and> ent_of (dirents s') e = Some (''f'', ino))"
    using ramfs_create_lookup [OF s(2) i(1) _ len, of "[a, b]" FILE_TYPE_REGULAR] s(3) i(2) nf l by (auto split: if_splits)
  then show ?thesis using cr [of FILE_TYPE_REGULAR ino s'] s(1) nf l by auto
qed

text \<open>Unlinking an entry that is there.\<close>

lemma ramfs_unlink_entry:
  assumes "store_ok s" "dir_list s d (ys @ e # zs)" "ent_of (dirents s) e = Some (nm, p)" "inodes s p = Some r"
    and "\<forall>y \<in> set ys. map_option fst (ent_of (dirents s) y) \<noteq> Some nm"
  shows "\<exists>s'. ramfs_unlink d nm s = Some (if itype (base r) = FILE_TYPE_REGULAR then 0 else - 1, s') \<and> store_ok s' \<and>
    (if itype (base r) \<noteq> FILE_TYPE_REGULAR then s' = s
     else dir_list s' d (ys @ zs) \<and> inodes s' p = None \<and> dirents s' e = None \<and>
       kheap_live (fheap s') = kheap_live (fheap s) - {data r, e, p} \<and>
       (\<forall>q. q \<notin> {d, p} \<longrightarrow> inodes s' q = inodes s q) \<and>
       (\<forall>q. q \<noteq> e \<longrightarrow> ent_of (dirents s') q = ent_of (dirents s) q) \<and>
       ((\<forall>z \<in> set zs. map_option fst (ent_of (dirents s) z) \<noteq> Some nm) \<longrightarrow> ramfs_find_entry d nm s' = Some NULL))"
proof (cases "itype (base r) = FILE_TYPE_REGULAR")
  case True
  obtain s' where s': "ramfs_unlink d nm s = Some (0, s')" "store_ok s'" "dir_list s' d (ys @ zs)"
    "kheap_live (fheap s') = kheap_live (fheap s) - {data r} - {e} - {p}" "inodes s' p = None" "dirents s' e = None"
    "\<And>q. q \<notin> {d, p} \<Longrightarrow> inodes s' q = inodes s q" "\<And>q. q \<noteq> e \<Longrightarrow> ent_of (dirents s') q = ent_of (dirents s) q"
    using ramfs_unlink_ok [OF assms(1-3,5,4) True] by metis
  have d: "distinct (ys @ e # zs)" "NULL \<notin> set (ys @ e # zs)"
    using dir_list_set [OF assms(2)] by blast+
  have "ramfs_find_entry d nm s' = Some NULL" if "\<forall>z \<in> set zs. map_option fst (ent_of (dirents s) z) \<noteq> Some nm"
  proof -
    have "map_option fst (ent_of (dirents s') x) \<noteq> Some nm" if "x \<in> set (ys @ zs)" for x
    proof -
      have "x \<noteq> e" using that d by auto
      then show ?thesis using that assms(5) s'(8) \<open>\<forall>z \<in> set zs. _\<close> by auto
    qed
    then have "lookup_in (dirents s') (ys @ zs) nm = NULL" using d by (subst lookup_null) auto
    then show ?thesis using find_entry_list [OF s'(3), of nm] by simp
  qed
  moreover have "kheap_live (fheap s') = kheap_live (fheap s) - {data r, e, p}" using s'(4) by blast
  ultimately show ?thesis using True s' by auto
next
  case False
  obtain i where i: "inodes s d = Some i" "itype (base i) = FILE_TYPE_DIRECTORY" "private_data (base i) = d"
    using assms(2) by (auto simp: dir_list_def)
  have "lookup_in (dirents s) (ys @ e # zs) nm = e"
    using assms(3,5) by (auto simp: lookup_append) (simp add: lookup_in_def)
  then have fe: "ramfs_find_entry d nm s = Some e" "e \<noteq> NULL"
    using find_entry_list [OF assms(2), of nm] dir_list_set [OF assms(2)] by auto
  obtain n where n: "dirents s e = Some n" "einode n = p" using assms(3) by (auto simp: ent_of_def)
  have "ramfs_unlink d nm s = Some (- 1, s)" using i fe n False assms(4) by (simp add: ramfs_unlink_def)
  then show ?thesis using False assms(1) by auto
qed

lemma lookup_split:
  assumes "lookup_in m xs nm = e" "e \<noteq> NULL"
  obtains ys zs p where "xs = ys @ e # zs" "ent_of m e = Some (nm, p)" "\<forall>y \<in> set ys. map_option fst (ent_of m y) \<noteq> Some nm"
proof -
  have "find (\<lambda>e. map_option fst (ent_of m e) = Some nm) xs = Some e"
    using assms by (auto simp: lookup_in_def split: option.splits)
  then obtain k where k: "k < length xs" "map_option fst (ent_of m (xs ! k)) = Some nm" "e = xs ! k"
    "\<forall>j < k. map_option fst (ent_of m (xs ! j)) \<noteq> Some nm" by (auto simp: find_Some_iff)
  have "xs = take k xs @ e # drop (Suc k) xs" using k(1,3) id_take_nth_drop by blast
  moreover have "\<forall>y \<in> set (take k xs). map_option fst (ent_of m y) \<noteq> Some nm" using k(4) by (auto simp: in_set_conv_nth)
  ultimately show thesis using that k(2,3) by (cases "ent_of m e") (auto simp: map_option_eq_Some)
qed

text \<open>C18: \<open>ramfs_unlink\<close>. When the parent is not a directory, when it is one without an entry of that name or when the
  inode of the first entry of that name is not a regular file, it returns \<open>- 1\<close> and changes nothing. Otherwise it
  returns 0, takes that entry out of the directory's list and gives back exactly the entry, the inode and
  the data block; all other entries and inodes stay, and if the name was unique it is not found any more.\<close>

theorem ramfs_unlink_removes:
  assumes "store_ok s" "inodes s d = Some i" "itype (base i) = FILE_TYPE_DIRECTORY \<longrightarrow> dir_list s d xs"
    and "e = lookup_in (dirents s) xs nm" "p = snd (the (ent_of (dirents s) e))"
    and "itype (base i) = FILE_TYPE_DIRECTORY \<and> e \<noteq> NULL \<longrightarrow> inodes s p = Some r"
  shows "\<exists>ret s'. ramfs_unlink d nm s = Some (ret, s') \<and> store_ok s' \<and>
    (if itype (base i) \<noteq> FILE_TYPE_DIRECTORY \<or> e = NULL \<or> itype (base r) \<noteq> FILE_TYPE_REGULAR then ret = - 1 \<and> s' = s
     else ret = 0 \<and> dir_list s' d (remove1 e xs) \<and> inodes s' p = None \<and> dirents s' e = None \<and>
       kheap_live (fheap s') = kheap_live (fheap s) - {data r, e, p} \<and>
       (\<forall>q. q \<notin> {d, p} \<longrightarrow> inodes s' q = inodes s q) \<and>
       (\<forall>q. q \<noteq> e \<longrightarrow> ent_of (dirents s') q = ent_of (dirents s) q) \<and>
       ((\<forall>z \<in> set xs. z \<noteq> e \<longrightarrow> map_option fst (ent_of (dirents s) z) \<noteq> Some nm) \<longrightarrow>
         ramfs_find_entry d nm s' = Some NULL))"
proof (cases "itype (base i) = FILE_TYPE_DIRECTORY")
  case True
  then have l: "dir_list s d xs" using assms(3) by simp
  have pd: "private_data (base i) = d" using l assms(2) by (auto simp: dir_list_def)
  show ?thesis
  proof (cases "e = NULL")
    case True
    then have "ramfs_unlink d nm s = Some (- 1, s)"
      using find_entry_list [OF l, of nm] assms(2,4) pd by (simp add: ramfs_unlink_def)
    then show ?thesis using True assms(1) by auto
  next
    case False
    obtain ys zs q where xs: "xs = ys @ e # zs" "ent_of (dirents s) e = Some (nm, q)"
      "\<forall>y \<in> set ys. map_option fst (ent_of (dirents s) y) \<noteq> Some nm"
      by (rule lookup_split [OF assms(4) [symmetric] False])
    have q: "q = p" using xs(2) assms(5) by simp
    have r: "inodes s p = Some r" using assms(6) \<open>itype (base i) = FILE_TYPE_DIRECTORY\<close> False by simp
    have d: "distinct xs" using dir_list_set [OF l] by simp
    then have "remove1 e xs = ys @ zs" "\<forall>z \<in> set zs. z \<noteq> e" unfolding xs(1) by (auto simp: remove1_append)
    then show ?thesis
      using ramfs_unlink_entry [OF assms(1) l [unfolded xs(1)] xs(2) [unfolded q] r xs(3)] False True xs(1)
      by (auto split: if_splits)
  qed
next
  case False
  then have "ramfs_unlink d nm s = Some (- 1, s)" using assms(2) by (simp add: ramfs_unlink_def)
  then show ?thesis using False assms(1) by auto
qed

theorem ramfs_unlink_removes_witness:
  "\<exists>d s s' s'' ino. ramfs_create d ''f'' FILE_TYPE_REGULAR s = Some ((0, ino), s') \<and>
    ramfs_unlink d ''f'' s' = Some (0, s'') \<and> inodes s'' ino = None \<and> ramfs_find_entry d ''f'' s'' = Some NULL"
proof -
  obtain s d a b where s: "store_ok s" "dir_list s d [a, b]"
    "ent_of (dirents s) a = Some (''.'', d)" "ent_of (dirents s) b = Some (''..'', d)"
    "heap_room (fheap s) (0x1000000 - 648)" by (rule root_dir)
  have l: "lookup_in (dirents s) [a, b] ''f'' = NULL" using s(3,4) by (simp add: lookup_in_def)
  have "length ''f'' < 256" by simp
  from s(1,2) this l show ?thesis
  proof (cases rule: ramfs_create_ok [where t = FILE_TYPE_REGULAR])
    case (failed s')
    then show ?thesis using create_room [OF s(5,2) l] by blast
  next
    case (made ino s')
    then obtain e where e: "dir_list s' d ([a, b] @ [e])" "e \<notin> set [a, b]" "ent_of (dirents s') e = Some (''f'', ino)"
      "inodes s' ino = Some (new_inode (next_inode s) FILE_TYPE_REGULAR ino)"
      "\<forall>q. q \<noteq> e \<longrightarrow> ent_of (dirents s') q = ent_of (dirents s) q" by (auto simp: created_def)
    have "\<forall>y \<in> set [a, b]. map_option fst (ent_of (dirents s') y) \<noteq> Some ''f''" using e(2,5) s(3,4) by auto
    moreover have "itype (base (new_inode (next_inode s) FILE_TYPE_REGULAR ino)) = FILE_TYPE_REGULAR"
      by (simp add: new_inode_def)
    moreover have le: "lookup_in (dirents s') ([a, b] @ [e]) ''f'' = e"
      using calculation(1) e(3) by (subst lookup_append) (simp add: lookup_in_def)
    moreover obtain i where "inodes s' d = Some i" "itype (base i) = FILE_TYPE_DIRECTORY"
      using e(1) by (auto simp: dir_list_def)
    moreover have "e \<noteq> NULL" using dir_list_set [OF e(1)] by auto
    ultimately obtain s'' where "ramfs_unlink d ''f'' s' = Some (0, s'')" "inodes s'' ino = None"
      "ramfs_find_entry d ''f'' s'' = Some NULL"
      using ramfs_unlink_removes [OF made(2), of d i "[a, b] @ [e]" e "''f''" ino] e(1,3,4) by auto
    then show ?thesis using made(1) by blast
  qed
qed

text \<open>\<open>ramfs_rmdir\<close> takes the directory itself for one of its own entries. In a directory that holds
  nothing but \<open>.\<close> and \<open>..\<close>, removing the name \<open>.\<close> succeeds: the entry is unlinked and the inode of
  the very directory it was called on is given back to the heap, while the directory's parent
  (for the root directory, the mount) still points to it.\<close>

theorem ramfs_rmdir_dot:
  assumes "store_ok s" "dir_list s d [a, b]" "ent_of (dirents s) a = Some (''.'', d)"
  shows "\<exists>s'. ramfs_rmdir d ''.'' s = Some (0, s') \<and> inodes s' d = None \<and>
    kheap_live (fheap s') = kheap_live (fheap s) - {a, d}"
proof -
  obtain i where i: "inodes s d = Some i" "itype (base i) = FILE_TYPE_DIRECTORY" "private_data (base i) = d"
    "dir_ptr (dirents s) (entries i) ([] @ a # [b])" using assms(2) by (auto simp: dir_list_def)
  have r: "entries i = a" "ring enext eprev (dirents s) [a, b]" using i(4) by (auto simp: dir_ptr_def)
  obtain n where n: "dirents s a = Some n" "ename n = ''.''" "einode n = d" "enext n = eprev n" "a \<noteq> NULL" "a \<noteq> b"
    using r(2) assms(3) by (auto simp: ring_def ent_of_def)
  have fe: "ramfs_find_entry d ''.'' s = Some a"
    using find_entry_list [OF assms(2), of "''.''"] assms(3) by (simp add: lookup_in_def)
  from unlink_entry_ok [OF i(1,4)] obtain m h where
    m: "unlink_entry d a s = Some (s\<lparr>dirents := m, inodes := (inodes s)(d \<mapsto> i\<lparr>entries := h\<rparr>)\<rparr>)"
    "dom m = dom (dirents s)" by blast
  let ?s1 = "s\<lparr>dirents := m, inodes := (inodes s)(d \<mapsto> i\<lparr>entries := h\<rparr>)\<rparr>"
  have lv: "a \<in> kheap_live (fheap s)" "d \<in> kheap_live (fheap s)" "a \<noteq> d"
    using store_okD(2,3) [OF assms(1)] i(1) n(1) by blast+
  obtain h1 where h1: "kfree a (fheap s) = Some h1" "kheap_ok h1" "kheap_live h1 = kheap_live (fheap s) - {a}"
    using kh.dealloc_live [OF store_okD(1) [OF assms(1)] lv(1)] by blast
  obtain h2 where h2: "kfree d h1 = Some h2" "kheap_live h2 = kheap_live h1 - {d}"
    using kh.dealloc_live [OF h1(2), of d] lv h1(3) by auto
  have "\<exists>s'. (do { s \<leftarrow> free_mem a ?s1; s \<leftarrow> free_mem d s; Some (0 :: int, s) }) = Some (0, s') \<and> inodes s' d = None \<and>
      fheap s' = h2"
    using h1(1) h2(1) by (simp add: free_mem_def)
  then show ?thesis
    using i fe n r m(1) h1(3) h2(2) by (auto simp: ramfs_rmdir_def)
qed

theorem ramfs_rmdir_dot_witness:
  "\<exists>d s s'. ramfs_create_root ramfs0 = Some (d, s) \<and> d \<noteq> NULL \<and> ramfs_rmdir d ''.'' s = Some (0, s') \<and> inodes s' d = None"
proof -
  obtain s d a b where s: "ramfs_create_root ramfs0 = Some (d, s)" "store_ok s" "dir_list s d [a, b]"
    "ent_of (dirents s) a = Some (''.'', d)" by (rule root_dir)
  have "d \<in> dom (inodes s)" using s(3) by (auto simp: dir_list_def)
  then have "d \<noteq> NULL" using store_okD(2) [OF s(2)] kh.null_not_live [OF store_okD(1) [OF s(2)]] by blast
  then show ?thesis using ramfs_rmdir_dot [OF s(2-4)] s(1) by blast
qed

end
