(* ===== verification/Tmpfs.thy ===== *)
theory Tmpfs
  imports Heap_Blocks Area
begin

text \<open>
  The temporary file system and the file descriptor calls: \<^verbatim>\<open>kernel/fs/tmpfs.c\<close> and
  \<^verbatim>\<open>include/fs.h\<close>.

  Inodes and the private data of a mounted file system are records in stores indexed by heap
  addresses; file data and buffers are bytes of one memory. Paths are strings. \<open>None\<close> is undefined
  behaviour, above all the use of a NULL pointer. The types and permission bits are those of the
  header. An \<open>int\<close> result is the signed reading of the 32 bits the C code returns.
\<close>

unbundle bit_operations_syntax

subsection \<open>Data\<close>

definition FS_TYPE_TMPFS :: u8 where "FS_TYPE_TMPFS = 0x1"
definition FT_REGULAR :: u8 where "FT_REGULAR = 0x1"
definition FT_DIRECTORY :: u8 where "FT_DIRECTORY = 0x2"
definition MAX_FILES :: nat where "MAX_FILES = 64"
definition S_IRUSR :: u32 where "S_IRUSR = 0x0400"
definition S_IWUSR :: u32 where "S_IWUSR = 0x0200"
definition S_IXUSR :: u32 where "S_IXUSR = 0x0100"
definition S_IRGRP :: u32 where "S_IRGRP = 0x0040"
definition S_IXGRP :: u32 where "S_IXGRP = 0x0010"
definition S_IROTH :: u32 where "S_IROTH = 0x0004"
definition S_IXOTH :: u32 where "S_IXOTH = 0x0001"

definition sizeof_tnode :: u32 where "sizeof_tnode = 48"
definition sizeof_dirent :: u32 where "sizeof_dirent = 268"
definition sizeof_tmpfs_data :: u32 where "sizeof_tmpfs_data = 4"

record tnode =
  t_inode :: u32
  t_size :: u32
  t_blocks :: u32
  t_type :: u8
  t_permissions :: u32
  t_owner :: u32
  t_group :: u32
  t_atime :: u32
  t_mtime :: u32
  t_ctime :: u32
  t_data :: addr
  t_children :: addr
  t_child_count :: u32

record file_descriptor =
  fd_used :: bool
  fd_inode :: addr
  fd_offset :: u32
  fd_flags :: u32

record mount_point =
  mp_path :: string
  mp_type :: u8
  mp_data :: addr

text \<open>\<open>mounts\<close> holds the first \<^verbatim>\<open>mount_point_count\<close> of the 16 slots; \<open>roots\<close> the field \<^verbatim>\<open>root_inode\<close> of the
  private data at an address.\<close>

record tmpfs =
  theap :: kheap
  tnodes :: "addr \<rightharpoonup> tnode"
  roots :: "addr \<rightharpoonup> addr"
  mounts :: "mount_point list"
  fds :: "file_descriptor list"
  tbytes :: memory
  tnext :: u32

definition tnode_zero :: tnode where
  "tnode_zero = \<lparr>t_inode = 0, t_size = 0, t_blocks = 0, t_type = 0, t_permissions = 0, t_owner = 0,
     t_group = 0, t_atime = 0, t_mtime = 0, t_ctime = 0, t_data = NULL, t_children = NULL, t_child_count = 0\<rparr>"

definition fd_closed :: file_descriptor where
  "fd_closed = \<lparr>fd_used = False, fd_inode = NULL, fd_offset = 0, fd_flags = 0\<rparr>"

definition talloc :: "u32 \<Rightarrow> tmpfs \<Rightarrow> (addr \<times> tmpfs) option" where
  "talloc n s = do { (p, h) \<leftarrow> kmalloc n (theap s); Some (p, s\<lparr>theap := h\<rparr>) }"

definition tfree :: "addr \<Rightarrow> tmpfs \<Rightarrow> tmpfs option" where
  "tfree p s = do { h \<leftarrow> kfree p (theap s); Some (s\<lparr>theap := h, tnodes := (tnodes s)(p := None)\<rparr>) }"

subsection \<open>Paths\<close>

text \<open>\<open>strncmp(path, mount, strlen(mount)) == 0\<close>: the path begins with the mount point. The loop over the
  slots is a recursion on the list.\<close>

fun find_mount_point :: "string \<Rightarrow> mount_point list \<Rightarrow> mount_point option" where
  "find_mount_point path [] = None"
| "find_mount_point path (mp # mps) =
     (if take (length (mp_path mp)) path = mp_path mp then Some mp else find_mount_point path mps)"

definition resolve_path :: "string \<Rightarrow> tmpfs \<Rightarrow> addr option" where
  "resolve_path path s = (case find_mount_point path (mounts s) of
     None \<Rightarrow> Some NULL
   | Some mp \<Rightarrow> roots s (mp_data mp))"

subsection \<open>tmpfs operations\<close>

definition tmpfs_create :: "string \<Rightarrow> u8 \<Rightarrow> u32 \<Rightarrow> tmpfs \<Rightarrow> (addr \<times> tmpfs) option" where
  "tmpfs_create path type permissions s = do {
     parent \<leftarrow> resolve_path path s;
     if parent = NULL then Some (NULL, s)
     else do {
       pn \<leftarrow> tnodes s parent;
       if t_type pn \<noteq> FT_DIRECTORY then Some (NULL, s)
       else do {
         (ino, s) \<leftarrow> talloc sizeof_tnode s;
         if ino = NULL then Some (NULL, s)
         else do {
           let n = tnode_zero\<lparr>t_inode := tnext s, t_type := type, t_permissions := permissions\<rparr>;
           let s = s\<lparr>tnext := tnext s + 1\<rparr>;
           if type = FT_DIRECTORY
           then do {
             (children, s) \<leftarrow> talloc (4 * sizeof_dirent) s;
             Some (ino, s\<lparr>tnodes := (tnodes s)(ino \<mapsto> n\<lparr>t_children := children, t_child_count := 0\<rparr>)\<rparr>) }
           else Some (ino, s\<lparr>tnodes := (tnodes s)(ino \<mapsto> n\<lparr>t_data := NULL, t_size := 0\<rparr>)\<rparr>) } } } }"

definition tmpfs_open :: "string \<Rightarrow> tmpfs \<Rightarrow> addr option" where
  "tmpfs_open path s = resolve_path path s"

definition tmpfs_close :: "addr \<Rightarrow> int" where
  "tmpfs_close ino = (if ino = NULL then - 1 else 0)"

definition tmpfs_read :: "addr \<Rightarrow> addr \<Rightarrow> u32 \<Rightarrow> u32 \<Rightarrow> tmpfs \<Rightarrow> (int \<times> tmpfs) option" where
  "tmpfs_read ino buf count offset s =
     (if ino = NULL then Some (- 1, s)
      else do {
        n \<leftarrow> tnodes s ino;
        if t_type n \<noteq> FT_REGULAR then Some (- 1, s)
        else if t_size n \<le> offset then Some (0, s)
        else do {
          let read_size = (if t_size n < offset + count then t_size n - offset else count);
          Some (sint read_size, s\<lparr>tbytes := memcpy buf (t_data n + offset) read_size (tbytes s)\<rparr>) } })"

text \<open>The first part of \<open>tmpfs_write\<close>: a block of exactly the new size when the file grows.\<close>

definition tmpfs_extend :: "addr \<Rightarrow> u32 \<Rightarrow> tmpfs \<Rightarrow> (bool \<times> tmpfs) option" where
  "tmpfs_extend ino new_size s = do {
     n \<leftarrow> tnodes s ino;
     if t_size n < new_size
     then do {
       (new_data, s) \<leftarrow> talloc new_size s;
       if new_data = NULL then Some (False, s)
       else do {
         s \<leftarrow> (if t_data n \<noteq> NULL
           then tfree (t_data n) (s\<lparr>tbytes := memcpy new_data (t_data n) (t_size n) (tbytes s)\<rparr>)
           else Some s);
         Some (True, s\<lparr>tnodes := (tnodes s)(ino \<mapsto> n\<lparr>t_data := new_data, t_size := new_size\<rparr>)\<rparr>) } }
     else Some (True, s) }"

definition tmpfs_write :: "addr \<Rightarrow> addr \<Rightarrow> u32 \<Rightarrow> u32 \<Rightarrow> tmpfs \<Rightarrow> (int \<times> tmpfs) option" where
  "tmpfs_write ino buf count offset s =
     (if ino = NULL then Some (- 1, s)
      else do {
        n \<leftarrow> tnodes s ino;
        if t_type n \<noteq> FT_REGULAR then Some (- 1, s)
        else do {
          (ok, s) \<leftarrow> tmpfs_extend ino (offset + count) s;
          if \<not> ok then Some (- 1, s)
          else do {
            n \<leftarrow> tnodes s ino;
            Some (sint count, s\<lparr>tbytes := memcpy (t_data n + offset) buf count (tbytes s),
              tnodes := (tnodes s)(ino \<mapsto> n\<lparr>t_mtime := 0\<rparr>)\<rparr>) } } })"

definition tmpfs_unlink :: "string \<Rightarrow> tmpfs \<Rightarrow> (int \<times> tmpfs) option" where
  "tmpfs_unlink path s = do {
     ino \<leftarrow> resolve_path path s;
     if ino = NULL then Some (- 1, s)
     else do {
       n \<leftarrow> tnodes s ino;
       if t_type n = FT_DIRECTORY then Some (- 1, s)
       else do {
         s \<leftarrow> (if t_data n \<noteq> NULL then tfree (t_data n) s else Some s);
         s \<leftarrow> tfree ino s;
         Some (0, s) } } }"

definition tmpfs_mkdir :: "string \<Rightarrow> u32 \<Rightarrow> tmpfs \<Rightarrow> (int \<times> tmpfs) option" where
  "tmpfs_mkdir path permissions s = do {
     (ino, s) \<leftarrow> tmpfs_create path FT_DIRECTORY permissions s;
     Some (if ino \<noteq> NULL then 0 else - 1, s) }"

definition tmpfs_rmdir :: "string \<Rightarrow> tmpfs \<Rightarrow> (int \<times> tmpfs) option" where
  "tmpfs_rmdir path s = do {
     ino \<leftarrow> resolve_path path s;
     if ino = NULL then Some (- 1, s)
     else do {
       n \<leftarrow> tnodes s ino;
       if t_type n \<noteq> FT_DIRECTORY \<or> 0 < t_child_count n then Some (- 1, s)
       else do {
         s \<leftarrow> (if t_children n \<noteq> NULL then tfree (t_children n) s else Some s);
         s \<leftarrow> tfree ino s;
         Some (0, s) } } }"

definition tmpfs_readdir :: "string \<Rightarrow> addr \<Rightarrow> u32 \<Rightarrow> tmpfs \<Rightarrow> (int \<times> tmpfs) option" where
  "tmpfs_readdir path buf count s = do {
     ino \<leftarrow> resolve_path path s;
     if ino = NULL then Some (- 1, s)
     else do {
       n \<leftarrow> tnodes s ino;
       if t_type n \<noteq> FT_DIRECTORY then Some (- 1, s)
       else do {
         let read_count = (if count < t_child_count n then count else t_child_count n);
         Some (sint read_count,
           s\<lparr>tbytes := memcpy buf (t_children n) (read_count * sizeof_dirent) (tbytes s)\<rparr>) } } }"

definition tmpfs_rename :: "string \<Rightarrow> string \<Rightarrow> int" where "tmpfs_rename old_path new_path = 0"

subsection \<open>Mounting\<close>

text \<open>The slot counts as mounted, with a NULL \<^verbatim>\<open>fs_data\<close>, before the file system in it exists.\<close>

definition mount :: "string \<Rightarrow> u8 \<Rightarrow> tmpfs \<Rightarrow> (int \<times> tmpfs) option" where
  "mount target fs_type s =
     (if 16 \<le> length (mounts s) then Some (- 1, s)
      else do {
        let k = length (mounts s);
        path \<leftarrow> (if length target < 256 then Some target else None);
        let s = s\<lparr>mounts := mounts s @ [\<lparr>mp_path = path, mp_type = fs_type, mp_data = NULL\<rparr>]\<rparr>;
        if fs_type = FS_TYPE_TMPFS
        then do {
          (fs_data, s) \<leftarrow> talloc sizeof_tmpfs_data s;
          if fs_data = NULL then Some (- 1, s)
          else do {
            (root, s) \<leftarrow> tmpfs_create ''/'' FT_DIRECTORY
              (S_IRUSR OR S_IWUSR OR S_IXUSR OR S_IRGRP OR S_IXGRP OR S_IROTH OR S_IXOTH) s;
            Some (0, s\<lparr>roots := (roots s)(fs_data \<mapsto> root),
              mounts := (mounts s)[k := (mounts s ! k)\<lparr>mp_data := fs_data\<rparr>]\<rparr>) } }
        else Some (- 1, s) })"

definition init_filesystem :: "tmpfs \<Rightarrow> tmpfs option" where
  "init_filesystem s = do {
     (_, s) \<leftarrow> mount ''/'' FS_TYPE_TMPFS (s\<lparr>fds := replicate MAX_FILES fd_closed\<rparr>);
     Some s }"

subsection \<open>File descriptors\<close>

fun first_unused :: "nat \<Rightarrow> file_descriptor list \<Rightarrow> nat option" where
  "first_unused i [] = None"
| "first_unused i (f # fs) = (if \<not> fd_used f then Some i else first_unused (i + 1) fs)"

definition alloc_file_descriptor :: "addr \<Rightarrow> u32 \<Rightarrow> tmpfs \<Rightarrow> int \<times> tmpfs" where
  "alloc_file_descriptor ino flags s = (case first_unused 0 (fds s) of
     None \<Rightarrow> (- 1, s)
   | Some i \<Rightarrow> (int i, s\<lparr>fds := (fds s)[i := \<lparr>fd_used = True, fd_inode = ino, fd_offset = 0, fd_flags = flags\<rparr>]\<rparr>))"

definition fs_open :: "string \<Rightarrow> u32 \<Rightarrow> tmpfs \<Rightarrow> (int \<times> tmpfs) option" where
  "fs_open path flags s = do {
     ino \<leftarrow> resolve_path path s;
     (ino, s) \<leftarrow> (if ino = NULL \<and> flags AND 0x40 \<noteq> 0
        then tmpfs_create path FT_REGULAR (S_IRUSR OR S_IWUSR) s else Some (ino, s));
     if ino = NULL then Some (- 1, s)
     else Some (alloc_file_descriptor ino flags s) }"

text \<open>The guard common to the calls that take a descriptor.\<close>

definition fd_valid :: "int \<Rightarrow> tmpfs \<Rightarrow> bool" where
  "fd_valid fd s \<longleftrightarrow> \<not> (fd < 0 \<or> int MAX_FILES \<le> fd \<or> \<not> fd_used (fds s ! nat fd))"

definition fs_close :: "int \<Rightarrow> tmpfs \<Rightarrow> int \<times> tmpfs" where
  "fs_close fd s =
     (if \<not> fd_valid fd s then (- 1, s)
      else (0, s\<lparr>fds := (fds s)[nat fd := (fds s ! nat fd)\<lparr>fd_used := False, fd_inode := NULL\<rparr>]\<rparr>))"

text \<open>\<open>if (result > 0) fd_entry->offset += result\<close>.\<close>

definition advance :: "int \<Rightarrow> int \<Rightarrow> tmpfs \<Rightarrow> tmpfs" where
  "advance fd result s = (if 0 < result
     then s\<lparr>fds := (fds s)[nat fd := (fds s ! nat fd)\<lparr>fd_offset := fd_offset (fds s ! nat fd) + of_int result\<rparr>]\<rparr>
     else s)"

definition fs_read :: "int \<Rightarrow> addr \<Rightarrow> u32 \<Rightarrow> tmpfs \<Rightarrow> (int \<times> tmpfs) option" where
  "fs_read fd buf count s =
     (if \<not> fd_valid fd s then Some (- 1, s)
      else do {
        let e = fds s ! nat fd;
        (result, s) \<leftarrow> tmpfs_read (fd_inode e) buf count (fd_offset e) s;
        Some (result, advance fd result s) })"

definition fs_write :: "int \<Rightarrow> addr \<Rightarrow> u32 \<Rightarrow> tmpfs \<Rightarrow> (int \<times> tmpfs) option" where
  "fs_write fd buf count s =
     (if \<not> fd_valid fd s then Some (- 1, s)
      else do {
        let e = fds s ! nat fd;
        (result, s) \<leftarrow> tmpfs_write (fd_inode e) buf count (fd_offset e) s;
        Some (result, advance fd result s) })"

definition fs_unlink :: "string \<Rightarrow> tmpfs \<Rightarrow> (int \<times> tmpfs) option" where "fs_unlink = tmpfs_unlink"
definition fs_mkdir :: "string \<Rightarrow> u32 \<Rightarrow> tmpfs \<Rightarrow> (int \<times> tmpfs) option" where
  "fs_mkdir path mode s = tmpfs_mkdir path (mode AND 0xFFFF) s"
definition fs_rmdir :: "string \<Rightarrow> tmpfs \<Rightarrow> (int \<times> tmpfs) option" where "fs_rmdir = tmpfs_rmdir"
definition fs_readdir :: "string \<Rightarrow> addr \<Rightarrow> u32 \<Rightarrow> tmpfs \<Rightarrow> (int \<times> tmpfs) option" where "fs_readdir = tmpfs_readdir"
definition fs_rename :: "string \<Rightarrow> string \<Rightarrow> int" where "fs_rename = tmpfs_rename"

definition lseek :: "int \<Rightarrow> u32 \<Rightarrow> int \<Rightarrow> tmpfs \<Rightarrow> (int \<times> tmpfs) option" where
  "lseek fd offset whence s =
     (if \<not> fd_valid fd s then Some (- 1, s)
      else do {
        let e = fds s ! nat fd;
        new \<leftarrow> (if whence = 0 then Some (Some offset)
          else if whence = 1 then Some (Some (fd_offset e + offset))
          else if whence = 2 then do { n \<leftarrow> tnodes s (fd_inode e); Some (Some (t_size n + offset)) }
          else Some None);
        (case new of None \<Rightarrow> Some (- 1, s)
         | Some off \<Rightarrow> Some (sint off, s\<lparr>fds := (fds s)[nat fd := e\<lparr>fd_offset := off\<rparr>]\<rparr>)) })"

definition fs_stat :: "string \<Rightarrow> addr \<Rightarrow> tmpfs \<Rightarrow> tmpfs option" where
  "fs_stat path stat_buf s = do {
     ino \<leftarrow> resolve_path path s;
     if ino \<noteq> NULL \<and> stat_buf \<noteq> NULL
     then do { n \<leftarrow> tnodes s ino; Some (s\<lparr>tnodes := (tnodes s)(stat_buf \<mapsto> n)\<rparr>) }
     else Some s }"

subsection \<open>The descriptor table\<close>

lemma first_unused_Some:
  assumes "first_unused k fs = Some i"
  shows "k \<le> i \<and> i < k + length fs \<and> \<not> fd_used (fs ! (i - k)) \<and> (\<forall>j < i - k. fd_used (fs ! j))"
  using assms
proof (induction k fs rule: first_unused.induct)
  case (2 k f fs)
  show ?case
  proof (cases "fd_used f")
    case True
    then have IH: "k + 1 \<le> i" "i < k + 1 + length fs" "\<not> fd_used (fs ! (i - (k + 1)))" "\<forall>j < i - (k + 1). fd_used (fs ! j)"
      using 2 by simp_all
    then obtain l where l: "i - k = Suc l" "i - (k + 1) = l" by (metis Suc_diff_Suc Suc_eq_plus1 Suc_le_lessD)
    show ?thesis using IH True unfolding l by (auto simp: nth_Cons split: nat.splits)
  qed (use 2 in simp)
qed simp

lemma first_unused_None: "first_unused k fs = None \<longleftrightarrow> (\<forall>f \<in> set fs. fd_used f)"
  by (induction k fs rule: first_unused.induct) auto

lemma find_mount_point_in: "find_mount_point path mps = Some mp \<Longrightarrow> mp \<in> set mps"
  by (induction path mps rule: find_mount_point.induct) (auto split: if_splits)

definition tmpfs0 :: tmpfs where
  "tmpfs0 = \<lparr>theap = init_kheap kheap_boot, tnodes = Map.empty, roots = Map.empty, mounts = [],
     fds = replicate MAX_FILES fd_closed, tbytes = (\<lambda>_. 0), tnext = 1\<rparr>"

text \<open>A machine on which a tmpfs with a root directory at \<open>0xC0000100\<close> has been mounted at \<^verbatim>\<open>/\<close>.\<close>

definition tmpfs1 :: tmpfs where
  "tmpfs1 = tmpfs0\<lparr>tnodes := [0xC0000100 \<mapsto> tnode_zero\<lparr>t_type := FT_DIRECTORY\<rparr>], roots := [0xC0000200 \<mapsto> 0xC0000100],
     mounts := [\<lparr>mp_path = ''/'', mp_type = FS_TYPE_TMPFS, mp_data = 0xC0000200\<rparr>]\<rparr>"

subsection \<open>Properties\<close>

text \<open>The file system cannot be initialised. \<open>mount\<close> counts the new slot as mounted and then creates
  the root directory with \<open>tmpfs_create("/")\<close>, whose path look-up finds that very slot and
  dereferences its \<^verbatim>\<open>fs_data\<close>, which is still NULL. So mounting a tmpfs at \<^verbatim>\<open>/\<close> as the first file
  system, which is what \<open>init_filesystem\<close> does, uses a NULL pointer whenever memory for the private
  data can be had.\<close>

theorem init_filesystem_null:
  assumes "mounts s = []" "roots s NULL = None" "kmalloc sizeof_tmpfs_data (theap s) = Some (p, h)" "p \<noteq> NULL"
  shows "mount ''/'' FS_TYPE_TMPFS s = None \<and> init_filesystem s = None"
  using assms by (simp add: init_filesystem_def mount_def talloc_def tmpfs_create_def resolve_path_def)

theorem init_filesystem_null_witness:
  "mounts tmpfs0 = [] \<and> init_filesystem tmpfs0 = None"
proof -
  have n: "unat (align_size sizeof_tmpfs_data + 16) = 24" "sizeof_tmpfs_data \<noteq> 0" "sizeof_tmpfs_data \<le> 0xFFFFFFE8"
    by (simp_all add: align_size_def sizeof_tmpfs_data_def)
  obtain p h where "kmalloc sizeof_tmpfs_data (theap tmpfs0) = Some (p, h)" "p \<noteq> NULL"
    using kmalloc_room [OF heap_room_init [of kheap_boot] n(2,3)] n(1) by (auto simp: tmpfs0_def)
  then show ?thesis using init_filesystem_null [of tmpfs0] by (simp add: tmpfs0_def)
qed

text \<open>C29: No file can ever be created or opened. Where every mounted file system has a root directory, \<open>open\<close> with any
  flags fails and changes nothing when no mount point is a prefix of the path or all descriptors are in use. For
  every other path, with or without \<^verbatim>\<open>O_CREAT\<close>, it returns the least unused descriptor, made one of the root
  directory with offset 0, and changes nothing else: no inode is created. On that descriptor \<open>read\<close> and \<open>write\<close>
  fail and change nothing.\<close>

theorem open_gives_root:
  assumes "\<forall>mp \<in> set (mounts s). \<exists>root n. roots s (mp_data mp) = Some root \<and> root \<noteq> NULL \<and>
      tnodes s root = Some n \<and> t_type n = FT_DIRECTORY"
    and "length (fds s) = MAX_FILES"
  shows "case find_mount_point path (mounts s) of
      None \<Rightarrow> fs_open path flags s = Some (- 1, s)
    | Some mp \<Rightarrow>
        if \<forall>f \<in> set (fds s). fd_used f then fs_open path flags s = Some (- 1, s)
        else \<exists>i root s'. i < MAX_FILES \<and> \<not> fd_used (fds s ! i) \<and> (\<forall>j < i. fd_used (fds s ! j)) \<and>
          roots s (mp_data mp) = Some root \<and> fs_open path flags s = Some (int i, s') \<and>
          s' = s\<lparr>fds := (fds s)[i := \<lparr>fd_used = True, fd_inode = root, fd_offset = 0, fd_flags = flags\<rparr>]\<rparr> \<and>
          (\<forall>buf count. fs_write (int i) buf count s' = Some (- 1, s') \<and> fs_read (int i) buf count s' = Some (- 1, s'))"
proof (cases "find_mount_point path (mounts s)")
  case None
  then show ?thesis by (simp add: fs_open_def resolve_path_def tmpfs_create_def)
next
  case (Some mp)
  obtain root n where r: "roots s (mp_data mp) = Some root" "root \<noteq> NULL" "tnodes s root = Some n" "t_type n = FT_DIRECTORY"
    using assms(1) find_mount_point_in [OF Some] by blast
  have e: "fs_open path flags s = Some (alloc_file_descriptor root flags s)"
    using Some r by (simp add: fs_open_def resolve_path_def)
  show ?thesis
  proof (cases "first_unused 0 (fds s)")
    case None
    then show ?thesis using e \<open>find_mount_point path (mounts s) = Some mp\<close> first_unused_None [of 0 "fds s"]
      by (simp add: alloc_file_descriptor_def)
  next
    case (Some i)
    let ?s = "s\<lparr>fds := (fds s)[i := \<lparr>fd_used = True, fd_inode = root, fd_offset = 0, fd_flags = flags\<rparr>]\<rparr>"
    have i: "i < MAX_FILES" "\<not> fd_used (fds s ! i)" "\<forall>j < i. fd_used (fds s ! j)"
      using first_unused_Some [OF Some] assms(2) by simp_all
    have io: "fs_write (int i) buf count ?s = Some (- 1, ?s) \<and> fs_read (int i) buf count ?s = Some (- 1, ?s)" for buf count
      using i(1) r assms(2)
      by (simp add: fs_write_def fs_read_def fd_valid_def tmpfs_write_def tmpfs_read_def advance_def
          FT_DIRECTORY_def FT_REGULAR_def)
    have "fs_open path flags s = Some (int i, ?s)" using e Some by (simp add: alloc_file_descriptor_def)
    moreover have "\<not> (\<forall>f \<in> set (fds s). fd_used f)" using Some first_unused_None [of 0 "fds s"] by simp
    ultimately show ?thesis using \<open>find_mount_point path (mounts s) = Some mp\<close> r(1) i io by simp
  qed
qed

theorem open_gives_root_witness:
  "\<exists>i s'. fs_open ''/etc/passwd'' 0x40 tmpfs1 = Some (int i, s') \<and> fd_inode (fds s' ! i) = 0xC0000100 \<and>
    tnodes s' = tnodes tmpfs1"
proof -
  have m: "\<forall>mp \<in> set (mounts tmpfs1). \<exists>root n. roots tmpfs1 (mp_data mp) = Some root \<and> root \<noteq> NULL \<and>
      tnodes tmpfs1 root = Some n \<and> t_type n = FT_DIRECTORY" "length (fds tmpfs1) = MAX_FILES"
    by (simp_all add: tmpfs1_def tmpfs0_def)
  have f: "find_mount_point ''/etc/passwd'' (mounts tmpfs1) = Some \<lparr>mp_path = ''/'', mp_type = FS_TYPE_TMPFS, mp_data = 0xC0000200\<rparr>"
    and u: "\<not> (\<forall>f \<in> set (fds tmpfs1). fd_used f)" and r: "roots tmpfs1 0xC0000200 = Some 0xC0000100"
    by (simp_all add: tmpfs1_def tmpfs0_def fd_closed_def MAX_FILES_def)
  obtain i s' where "i < MAX_FILES" "fs_open ''/etc/passwd'' 0x40 tmpfs1 = Some (int i, s')"
    "s' = tmpfs1\<lparr>fds := (fds tmpfs1)[i := \<lparr>fd_used = True, fd_inode = 0xC0000100, fd_offset = 0, fd_flags = 0x40\<rparr>]\<rparr>"
    using open_gives_root [OF m, of "''/etc/passwd''" "0x40"] r
    unfolding f option.case if_not_P [OF u] by auto
  then show ?thesis using m(2) by (intro exI [of _ i] exI [of _ s']) simp
qed

text \<open>The descriptor table. Allocating a descriptor fails only when all of them are in use and then
  changes nothing; otherwise it takes the least unused one, which then is valid with offset 0, and
  leaves the others; closing it makes it invalid again, and a second close returns \<open>- 1\<close> and changes
  nothing.\<close>

theorem descriptor_table:
  assumes "length (fds s) = MAX_FILES"
  shows "case alloc_file_descriptor ino flags s of (fd, s') \<Rightarrow>
    if \<forall>f \<in> set (fds s). fd_used f then fd = - 1 \<and> s' = s
    else \<not> fd_valid fd s \<and> fd_valid fd s' \<and> (\<forall>k. 0 \<le> k \<and> k < fd \<longrightarrow> fd_valid k s) \<and>
      (\<forall>k. k \<noteq> fd \<longrightarrow> fd_valid k s' = fd_valid k s) \<and> fd_inode (fds s' ! nat fd) = ino \<and>
      fd_offset (fds s' ! nat fd) = 0 \<and>
      (case fs_close fd s' of (r, s'') \<Rightarrow> r = 0 \<and> fs_close fd s'' = (- 1, s'') \<and> (\<forall>k. fd_valid k s'' = fd_valid k s))"
proof (cases "first_unused 0 (fds s)")
  case None
  then have "\<forall>f \<in> set (fds s). fd_used f" using first_unused_None by blast
  then show ?thesis using None by (simp add: alloc_file_descriptor_def)
next
  case (Some i)
  note u = first_unused_Some [OF Some]
  have i: "i < MAX_FILES" "\<not> fd_used (fds s ! i)" using u assms by simp_all
  have nall: "\<not> (\<forall>f \<in> set (fds s). fd_used f)" using first_unused_None [of 0 "fds s"] Some by simp
  have low: "fd_valid k s" if "0 \<le> k \<and> k < int i" for k
    using u i(1) that by (auto simp: fd_valid_def nat_less_iff)
  have ne: "k = int i" if "\<not> k < 0" "nat k = i" for k using that by simp
  show ?thesis
    using Some i low nall assms ne
    by (simp add: alloc_file_descriptor_def fs_close_def) (auto simp: fd_valid_def nth_list_update)
qed

theorem descriptor_table_witness:
  "case alloc_file_descriptor 0xC0000100 0 tmpfs1 of (fd, s') \<Rightarrow> fd_valid fd s' \<and> fd_inode (fds s' ! nat fd) = 0xC0000100"
proof -
  have "length (fds tmpfs1) = MAX_FILES" "\<not> (\<forall>f \<in> set (fds tmpfs1). fd_used f)"
    by (simp_all add: tmpfs1_def tmpfs0_def fd_closed_def MAX_FILES_def)
  then show ?thesis using descriptor_table [of tmpfs1 "0xC0000100" 0] by (auto split: prod.splits)
qed

text \<open>\<open>tmpfs_read\<close> reads past the end of a file. Its check compares \<open>offset + count\<close> with the size, and
  that sum wraps: for an offset inside the file and a count that makes the sum wrap to at most the
  size, it copies \<open>count\<close> bytes, which is more than the file has from there on.\<close>

theorem tmpfs_read_overruns:
  assumes "ino \<noteq> NULL" "tnodes s ino = Some n" "t_type n = FT_REGULAR" "offset < t_size n" "offset + count \<le> t_size n"
    and "2 ^ 32 \<le> unat offset + unat count"
  shows "tmpfs_read ino buf count offset s =
      Some (sint count, s\<lparr>tbytes := memcpy buf (t_data n + offset) count (tbytes s)\<rparr>) \<and>
    unat (t_size n) < unat offset + unat count"
proof -
  have "\<not> t_size n < offset + count" "\<not> t_size n \<le> offset" using assms(4,5) by (simp_all add: not_less not_le)
  then show ?thesis using assms unat_u32_less [of "t_size n"] by (simp add: tmpfs_read_def)
qed

theorem tmpfs_read_overruns_witness:
  "\<exists>s. tmpfs_read 0xC0000100 0x1000 0xFFFFFFF8 10 s \<noteq> None \<and> tnodes s 0xC0000100 = Some (tnode_zero\<lparr>t_type := FT_REGULAR, t_size := 16, t_data := 0xC0000400\<rparr>)"
proof -
  let ?n = "tnode_zero\<lparr>t_type := FT_REGULAR, t_size := 16, t_data := 0xC0000400\<rparr>"
  let ?s = "tmpfs1\<lparr>tnodes := [0xC0000100 \<mapsto> ?n]\<rparr>"
  have "tmpfs_read 0xC0000100 0x1000 0xFFFFFFF8 10 ?s \<noteq> None"
    using tmpfs_read_overruns [of "0xC0000100" ?s ?n 10 "0xFFFFFFF8" "0x1000"] by simp
  then show ?thesis by (intro exI [of _ ?s]) simp
qed

end
