(* ===== verification/Vga.thy ===== *)
theory Vga
  imports Prelude
begin

text \<open>
  The text console: \<^verbatim>\<open>lib/vga.c\<close> and the VGA macros of \<^verbatim>\<open>include/common.h\<close>.

  The screen is the list of its 16-bit cells; an access outside the screen is undefined behaviour
  (\<open>None\<close>). The cursor position has the type \<^verbatim>\<open>size_t\<close> of the source, a \<^verbatim>\<open>char\<close> is the 8-bit word of its
  bits, read as signed where C converts it.
\<close>

unbundle bit_operations_syntax

definition VGA_WIDTH :: u32 where "VGA_WIDTH = 80"
definition VGA_HEIGHT :: u32 where "VGA_HEIGHT = 25"
definition VGA_COLOR_BLACK :: u8 where "VGA_COLOR_BLACK = 0"
definition VGA_COLOR_LIGHT_GREY :: u8 where "VGA_COLOR_LIGHT_GREY = 7"

text \<open>\<open>((uint16_t)color << 8 | (uint16_t)c)\<close>: the conversion of a \<^verbatim>\<open>char\<close> to \<^verbatim>\<open>uint16_t\<close> extends its sign.\<close>

definition VGA_ENTRY :: "u8 \<Rightarrow> u8 \<Rightarrow> u16" where
  "VGA_ENTRY color c = push_bit 8 (ucast color) OR scast c"

definition VGA_COLOR :: "u8 \<Rightarrow> u8 \<Rightarrow> u8" where
  "VGA_COLOR fg bg = fg OR push_bit 4 bg"

record vga =
  vga_buffer :: "u16 list"
  vga_row :: u32
  vga_col :: u32
  vga_color :: u8

definition ch :: "char \<Rightarrow> u8" where "ch c = of_char c"

subsection \<open>Operations\<close>

definition put_cell :: "u32 \<Rightarrow> u16 \<Rightarrow> vga \<Rightarrow> vga option" where
  "put_cell i v s = (if unat i < length (vga_buffer s)
     then Some (s\<lparr>vga_buffer := (vga_buffer s)[unat i := v]\<rparr>) else None)"

definition get_cell :: "u32 \<Rightarrow> vga \<Rightarrow> u16 option" where
  "get_cell i s = (if unat i < length (vga_buffer s) then Some (vga_buffer s ! unat i) else None)"

text \<open>The loops over cells run from \<open>i\<close> to \<open>n\<close>.\<close>

function fill_cells :: "u32 \<Rightarrow> u32 \<Rightarrow> u16 \<Rightarrow> vga \<Rightarrow> vga option" where
  "fill_cells i n v s = (if i < n then do { s \<leftarrow> put_cell i v s; fill_cells (i + 1) n v s } else Some s)"
  by auto
termination
  by (relation "measure (\<lambda>(i, n, _). unat n - unat i)") (auto simp: unat_inc word_less_nat_alt)

function move_cells :: "u32 \<Rightarrow> u32 \<Rightarrow> vga \<Rightarrow> vga option" where
  "move_cells i n s = (if i < n
     then do { v \<leftarrow> get_cell (i + VGA_WIDTH) s; s \<leftarrow> put_cell i v s; move_cells (i + 1) n s } else Some s)"
  by auto
termination
  by (relation "measure (\<lambda>(i, n, _). unat n - unat i)") (auto simp: unat_inc word_less_nat_alt)

definition vga_clear :: "vga \<Rightarrow> vga option" where
  "vga_clear s = fill_cells 0 (VGA_WIDTH * VGA_HEIGHT) (VGA_ENTRY (vga_color s) (ch CHR '' '')) s"

definition vga_scroll :: "vga \<Rightarrow> vga option" where
  "vga_scroll s = do {
     s \<leftarrow> move_cells 0 ((VGA_HEIGHT - 1) * VGA_WIDTH) s;
     fill_cells ((VGA_HEIGHT - 1) * VGA_WIDTH) (VGA_HEIGHT * VGA_WIDTH) (VGA_ENTRY (vga_color s) (ch CHR '' '')) s }"

definition vga_init :: "vga \<Rightarrow> vga option" where
  "vga_init s = do {
     s \<leftarrow> vga_clear s;
     Some (s\<lparr>vga_row := 0, vga_col := 0, vga_color := VGA_COLOR VGA_COLOR_LIGHT_GREY VGA_COLOR_BLACK\<rparr>) }"

definition vga_set_color :: "u8 \<Rightarrow> u8 \<Rightarrow> vga \<Rightarrow> vga" where
  "vga_set_color fg bg s = s\<lparr>vga_color := VGA_COLOR fg bg\<rparr>"

text \<open>\<open>vga_row++; if (vga_row >= VGA_HEIGHT) { vga_scroll(); vga_row = VGA_HEIGHT - 1; }\<close>.\<close>

definition next_row :: "vga \<Rightarrow> vga option" where
  "next_row s = (let s = s\<lparr>vga_row := vga_row s + 1\<rparr>
     in if VGA_HEIGHT \<le> vga_row s
        then do { s \<leftarrow> vga_scroll s; Some (s\<lparr>vga_row := VGA_HEIGHT - 1\<rparr>) } else Some s)"

definition vga_putc :: "u8 \<Rightarrow> vga \<Rightarrow> vga option" where
  "vga_putc c s =
     (if c = ch CHR 0x0A then next_row (s\<lparr>vga_col := 0\<rparr>)
      else if c = ch CHR 0x0D then Some (s\<lparr>vga_col := 0\<rparr>)
      else if c = ch CHR 0x09
      then let s = s\<lparr>vga_col := (vga_col s + 4) AND NOT 3\<rparr>
           in if VGA_WIDTH \<le> vga_col s then next_row (s\<lparr>vga_col := 0\<rparr>) else Some s
      else do {
        s \<leftarrow> put_cell (vga_row s * VGA_WIDTH + vga_col s) (VGA_ENTRY (vga_color s) c) s;
        let s = s\<lparr>vga_col := vga_col s + 1\<rparr>;
        if VGA_WIDTH \<le> vga_col s then next_row (s\<lparr>vga_col := 0\<rparr>) else Some s })"

text \<open>A C string is the list of its bytes up to the zero byte.\<close>

fun vga_puts :: "u8 list \<Rightarrow> vga \<Rightarrow> vga option" where
  "vga_puts [] s = Some s"
| "vga_puts (c # cs) s = do { s \<leftarrow> vga_putc c s; vga_puts cs s }"

definition kprint :: "u8 list \<Rightarrow> vga \<Rightarrow> vga option" where "kprint = vga_puts"

text \<open>The texts that \<open>kprint_hex\<close> and \<open>kprint_dec\<close> build in their buffer of 11 bytes, from the last place
  backwards; \<open>i\<close> is the number of places still free before it.\<close>

definition hex_chars :: string where "hex_chars = ''0123456789ABCDEF''"

fun hex_digits :: "nat \<Rightarrow> u32 \<Rightarrow> u8 list \<Rightarrow> u8 list" where
  "hex_digits 0 v acc = acc"
| "hex_digits (Suc i) v acc = hex_digits i (drop_bit 4 v) (ch (hex_chars ! unat (v AND 0xF)) # acc)"

definition kprint_hex_text :: "u32 \<Rightarrow> u8 list" where
  "kprint_hex_text v = ch CHR ''0'' # ch CHR ''x'' # hex_digits 8 v []"

definition kprint_hex :: "u32 \<Rightarrow> vga \<Rightarrow> vga option" where
  "kprint_hex v s = kprint (kprint_hex_text v) s"

fun dec_digits :: "nat \<Rightarrow> u32 \<Rightarrow> u8 list \<Rightarrow> u8 list" where
  "dec_digits 0 v acc = acc"
| "dec_digits (Suc i) v acc = (if 0 < v then dec_digits i (v div 10) ((ch CHR ''0'' + ucast (v mod 10)) # acc) else acc)"

definition kprint_dec_text :: "u32 \<Rightarrow> u8 list" where
  "kprint_dec_text v = (if v = 0 then [ch CHR ''0''] else dec_digits 10 v [])"

definition kprint_dec :: "u32 \<Rightarrow> vga \<Rightarrow> vga option" where
  "kprint_dec v s = kprint (kprint_dec_text v) s"

subsection \<open>Scrolling\<close>

definition screen :: nat where "screen = 2000"

definition vga_ok :: "vga \<Rightarrow> bool" where
  "vga_ok s \<longleftrightarrow> length (vga_buffer s) = screen \<and> vga_row s < VGA_HEIGHT \<and> vga_col s < VGA_WIDTH"

lemma fill_cells_ok:
  "unat i \<le> unat n \<Longrightarrow> unat n \<le> length (vga_buffer s) \<Longrightarrow>
   fill_cells i n v s = Some (s\<lparr>vga_buffer := take (unat i) (vga_buffer s) @ replicate (unat n - unat i) v @ drop (unat n) (vga_buffer s)\<rparr>)"
proof (induction i n v s rule: fill_cells.induct)
  case (1 i n v s)
  show ?case
  proof (cases "i < n")
    case True
    let ?s = "s\<lparr>vga_buffer := (vga_buffer s)[unat i := v]\<rparr>"
    have u: "unat (i + 1) = Suc (unat i)" "unat i < unat n" using True by (simp_all add: unat_inc word_less_nat_alt)
    have p: "put_cell i v s = Some ?s" using u 1 by (simp add: put_cell_def)
    have "fill_cells (i + 1) n v ?s = Some (?s\<lparr>vga_buffer := take (Suc (unat i)) ((vga_buffer s)[unat i := v]) @
        replicate (unat n - Suc (unat i)) v @ drop (unat n) ((vga_buffer s)[unat i := v])\<rparr>)"
      using "1.IH" [OF True p] u "1.prems" by simp
    moreover have "take (Suc (unat i)) ((vga_buffer s)[unat i := v]) = take (unat i) (vga_buffer s) @ [v]"
      using u "1.prems" by (simp add: take_Suc_conv_app_nth)
    moreover have "v # replicate (unat n - Suc (unat i)) v = replicate (unat n - unat i) v"
      using u by (metis Suc_diff_Suc replicate_Suc)
    ultimately show ?thesis using True p u by (subst fill_cells.simps) simp
  next
    case False
    then have "unat i = unat n" using 1 by (simp add: word_less_nat_alt)
    then show ?thesis using False by (subst fill_cells.simps) simp
  qed
qed

lemma move_cells_ok:
  assumes "unat i \<le> unat n" "unat n + 80 \<le> length (vga_buffer s)" "unat n + 80 < 2 ^ 32"
  shows "move_cells i n s = Some (s\<lparr>vga_buffer :=
    take (unat i) (vga_buffer s) @ take (unat n - unat i) (drop (unat i + 80) (vga_buffer s)) @ drop (unat n) (vga_buffer s)\<rparr>)"
  using assms
proof (induction i n s rule: move_cells.induct)
  case (1 i n s)
  show ?case
  proof (cases "i < n")
    case True
    have u: "unat (i + 1) = Suc (unat i)" "unat i < unat n" using True by (simp_all add: unat_inc word_less_nat_alt)
    have w: "unat (i + VGA_WIDTH) = unat i + 80"
      using u "1.prems" unat_plus_small [of i 80] by (simp add: VGA_WIDTH_def)
    let ?b = "vga_buffer s" and ?v = "vga_buffer s ! (unat i + 80)"
    let ?s = "s\<lparr>vga_buffer := ?b[unat i := ?v]\<rparr>"
    have p: "get_cell (i + VGA_WIDTH) s = Some ?v" "put_cell i ?v s = Some ?s"
      using u w "1.prems" by (simp_all add: put_cell_def get_cell_def)
    have "move_cells (i + 1) n ?s = Some (?s\<lparr>vga_buffer := take (Suc (unat i)) (?b[unat i := ?v]) @
        take (unat n - Suc (unat i)) (drop (Suc (unat i) + 80) (?b[unat i := ?v])) @ drop (unat n) (?b[unat i := ?v])\<rparr>)"
      using "1.IH" [OF True p] u "1.prems" by simp
    moreover have "take (Suc (unat i)) (?b[unat i := ?v]) = take (unat i) ?b @ [?v]"
      using u "1.prems" by (simp add: take_Suc_conv_app_nth)
    moreover have "take (unat n - unat i) (drop (unat i + 80) ?b) =
        ?v # take (unat n - Suc (unat i)) (drop (Suc (unat i) + 80) ?b)"
    proof -
      have "drop (unat i + 80) ?b = ?v # drop (Suc (unat i) + 80) ?b"
        using u "1.prems" Cons_nth_drop_Suc [of "unat i + 80" ?b] by simp
      moreover have "unat n - unat i = Suc (unat n - Suc (unat i))" using u by simp
      ultimately show ?thesis by simp
    qed
    ultimately show ?thesis using True p u by (subst move_cells.simps) simp
  next
    case False
    then have "unat i = unat n" using 1 by (simp add: word_less_nat_alt)
    then show ?thesis using False by (subst move_cells.simps) simp
  qed
qed

lemma vga_scroll_ok:
  assumes "length (vga_buffer s) = screen"
  shows "vga_scroll s = Some (s\<lparr>vga_buffer := drop 80 (vga_buffer s) @ replicate 80 (VGA_ENTRY (vga_color s) (ch CHR '' ''))\<rparr>)"
proof -
  let ?b = "vga_buffer s"
  have c: "(VGA_HEIGHT - 1) * VGA_WIDTH = 1920" "VGA_HEIGHT * VGA_WIDTH = 2000" by (simp_all add: VGA_HEIGHT_def VGA_WIDTH_def)
  have m: "move_cells 0 1920 s = Some (s\<lparr>vga_buffer := take 1920 (drop 80 ?b) @ drop 1920 ?b\<rparr>)"
    using move_cells_ok [of 0 1920 s] assms by (simp add: screen_def)
  have t: "take 1920 (drop 80 ?b) = drop 80 ?b" using assms by (simp add: screen_def)
  show ?thesis
    unfolding vga_scroll_def c m t using fill_cells_ok [of 1920 2000] assms by (simp add: screen_def)
qed

subsection \<open>The texts of numbers\<close>

definition digit_value :: "u8 \<Rightarrow> nat" where "digit_value c = unat c - 48"

definition dec_value :: "u8 list \<Rightarrow> nat" where
  "dec_value cs = foldl (\<lambda>n c. 10 * n + digit_value c) 0 cs"

definition is_digit :: "u8 \<Rightarrow> bool" where "is_digit c \<longleftrightarrow> 48 \<le> unat c \<and> unat c \<le> 57"

lemma dec_value_snoc [simp]: "dec_value (cs @ [c]) = 10 * dec_value cs + digit_value c"
  by (simp add: dec_value_def)

lemma unat_digit: "unat (ch CHR ''0'' + ucast (v mod 10 :: u32)) = 48 + unat v mod 10"
proof -
  have "unat (ucast (v mod 10 :: u32) :: u8) = unat v mod 10"
    by (simp add: unat_mod_distrib unsigned_ucast_eq take_bit_eq_mod)
  then show ?thesis by (simp add: ch_def unat_word_ariths)
qed

lemma dec_digits_acc: "dec_digits i v acc = dec_digits i v [] @ acc"
proof (induction i arbitrary: v acc)
  case (Suc i)
  show ?case
    using Suc [of "v div 10" "(ch CHR ''0'' + ucast (v mod 10)) # acc"]
      Suc [of "v div 10" "[ch CHR ''0'' + ucast (v mod 10)]"] by simp
qed simp

lemma dec_digits_ok:
  "unat v < 10 ^ i \<Longrightarrow> dec_value (dec_digits i v []) = unat v \<and> (\<forall>c \<in> set (dec_digits i v []). is_digit c) \<and>
   length (dec_digits i v []) \<le> i \<and> (v \<noteq> 0 \<longrightarrow> dec_digits i v [] \<noteq> [] \<and> digit_value (hd (dec_digits i v [])) \<noteq> 0)"
proof (induction i arbitrary: v)
  case 0
  then show ?case by (simp add: dec_value_def unat_eq_0)
next
  case (Suc i)
  let ?d = "ch CHR ''0'' + ucast (v mod 10) :: u8"
  have q: "unat (v div 10) = unat v div 10" by (simp add: unat_div_distrib)
  then have "unat (v div 10) < 10 ^ i" using Suc.prems by simp
  note IH = Suc.IH [OF this]
  have d: "unat ?d = 48 + unat v mod 10" by (rule unat_digit)
  show ?case
  proof (cases "0 < v")
    case True
    have e: "dec_digits (Suc i) v [] = dec_digits i (v div 10) [] @ [?d]" using True dec_digits_acc [of i "v div 10" "[?d]"] by simp
    have "digit_value (hd (dec_digits i (v div 10) [] @ [?d])) \<noteq> 0"
    proof (cases "v div 10 = 0")
      case True
      then have "dec_digits i (v div 10) [] = []" by (cases i) simp_all
      moreover have "unat v div 10 = 0" using q unfolding True by simp
      then have "unat v mod 10 = unat v" using div_mult_mod_eq [of "unat v" 10] by simp
      moreover have "unat v \<noteq> 0" using \<open>0 < v\<close> by (simp add: word_gt_0 unat_eq_0)
      ultimately show ?thesis using d by (simp add: digit_value_def)
    next
      case False
      then show ?thesis using IH by simp
    qed
    then show ?thesis unfolding e using IH q d by (auto simp: digit_value_def is_digit_def)
  next
    case False
    then show ?thesis by (simp add: dec_value_def word_gt_0)
  qed
qed

definition hex_value :: "u8 list \<Rightarrow> nat" where
  "hex_value cs = foldl (\<lambda>n c. 16 * n + (if unat c \<le> 57 then unat c - 48 else unat c - 55)) 0 cs"

lemma hex_digit:
  "(if unat (ch (hex_chars ! unat (v AND 0xF :: u32))) \<le> 57 then unat (ch (hex_chars ! unat (v AND 0xF))) - 48
    else unat (ch (hex_chars ! unat (v AND 0xF))) - 55) = unat v mod 16"
proof -
  have "(0xF :: u32) = mask 4" by (simp add: mask_eq_exp_minus_1)
  then have e: "unat (v AND 0xF) = unat v mod 16"
    by (simp only: take_bit_eq_mask [symmetric] unsigned_take_bit_eq) (simp add: take_bit_eq_mod)
  have "\<forall>k \<in> set [0..<16]. (if unat (ch (hex_chars ! k)) \<le> 57 then unat (ch (hex_chars ! k)) - 48
      else unat (ch (hex_chars ! k)) - 55) = k" by code_simp
  moreover have "unat v mod 16 \<in> set [0..<16]" by simp
  ultimately show ?thesis unfolding e by blast
qed

lemma hex_digits_acc: "hex_digits i v acc = hex_digits i v [] @ acc"
proof (induction i arbitrary: v acc)
  case (Suc i)
  show ?case
    using Suc [of "drop_bit 4 v" "ch (hex_chars ! unat (v AND 0xF)) # acc"]
      Suc [of "drop_bit 4 v" "[ch (hex_chars ! unat (v AND 0xF))]"] by simp
qed simp

lemma hex_digits_ok: "unat v < 16 ^ i \<Longrightarrow> hex_value (hex_digits i v []) = unat v \<and> length (hex_digits i v []) = i"
proof (induction i arbitrary: v)
  case 0
  then show ?case by (simp add: hex_value_def)
next
  case (Suc i)
  have q: "unat (drop_bit 4 v) = unat v div 16" by (simp add: unat_drop_bit_eq drop_bit_nat_def)
  have "unat v div 16 < 16 ^ i" using Suc.prems by (simp add: div_less_iff_less_mult mult.commute)
  then have IH: "hex_value (hex_digits i (drop_bit 4 v) []) = unat v div 16 \<and> length (hex_digits i (drop_bit 4 v) []) = i"
    using Suc.IH [of "drop_bit 4 v"] unfolding q by blast
  have e: "hex_digits (Suc i) v [] = hex_digits i (drop_bit 4 v) [] @ [ch (hex_chars ! unat (v AND 0xF))]"
    using hex_digits_acc [of i "drop_bit 4 v" "[ch (hex_chars ! unat (v AND 0xF))]"] by simp
  have "hex_value (hex_digits (Suc i) v []) = 16 * hex_value (hex_digits i (drop_bit 4 v) []) + unat v mod 16"
    unfolding e hex_digit [of v, symmetric] by (simp only: hex_value_def foldl_append foldl_Cons foldl_Nil)
  also have "\<dots> = unat v" using IH by (simp only: mult_div_mod_eq)
  finally show ?case using e IH by simp
qed

subsection \<open>Putting a character\<close>

lemma vga_putc_cells:
  assumes "vga_ok s"
  shows "\<exists>s'. vga_putc c s = Some s' \<and> vga_ok s' \<and> vga_color s' = vga_color s \<and>
    (let nl = (c = ch CHR 0x0A); cr = (c = ch CHR 0x0D); tab = (c = ch CHR 0x09);
         col = (if nl \<or> cr then 0 else if tab then (vga_col s + 4) AND NOT 3 else vga_col s + 1);
         down = (nl \<or> 80 \<le> col);
         cells = (if nl \<or> cr \<or> tab then vga_buffer s
                  else (vga_buffer s)[unat (vga_row s) * 80 + unat (vga_col s) := VGA_ENTRY (vga_color s) c])
     in vga_col s' = (if down then 0 else col) \<and>
        vga_row s' = (if down \<and> vga_row s < 24 then vga_row s + 1 else vga_row s) \<and>
        vga_buffer s' = (if down \<and> vga_row s = 24
          then drop 80 cells @ replicate 80 (VGA_ENTRY (vga_color s) (ch CHR '' '')) else cells))"
proof -
  have s: "length (vga_buffer s) = screen" "vga_row s < 25" "vga_col s < 80"
    using assms by (simp_all add: vga_ok_def VGA_HEIGHT_def VGA_WIDTH_def)
  have nr: "next_row t = Some (if vga_row t < 24 then t\<lparr>vga_row := vga_row t + 1\<rparr>
      else t\<lparr>vga_buffer := drop 80 (vga_buffer t) @ replicate 80 (VGA_ENTRY (vga_color t) (ch CHR '' '')), vga_row := 24\<rparr>)"
    if "length (vga_buffer t) = screen" "vga_row t < 25" for t
  proof -
    have "unat (vga_row t + 1) = unat (vga_row t) + 1" by (rule unat_inc [OF that(2)])
    then have "VGA_HEIGHT \<le> vga_row t + 1 \<longleftrightarrow> \<not> vga_row t < 24"
      using that(2) by (auto simp: VGA_HEIGHT_def word_le_nat_alt word_less_nat_alt)
    then show ?thesis using that vga_scroll_ok [of "t\<lparr>vga_row := vga_row t + 1\<rparr>"]
      by (simp add: next_row_def VGA_HEIGHT_def)
  qed
  have i: "unat (vga_row s * VGA_WIDTH + vga_col s) = unat (vga_row s) * 80 + unat (vga_col s)"
    "unat (vga_row s) * 80 + unat (vga_col s) < screen"
    using s(2,3) by (auto simp: VGA_WIDTH_def screen_def unat_word_ariths word_less_nat_alt)
  have pc: "put_cell (vga_row s * VGA_WIDTH + vga_col s) v s =
      Some (s\<lparr>vga_buffer := (vga_buffer s)[unat (vga_row s) * 80 + unat (vga_col s) := v]\<rparr>)" for v
    using i s(1) by (simp add: put_cell_def)
  have row: "vga_row s < 24 \<or> vga_row s = 24" using s(2) by (auto simp: word_less_nat_alt word_unat_eq_iff)
  have up: "vga_row s < 24 \<Longrightarrow> vga_row s + 1 < 25" using unat_inc [OF s(2)] by (simp add: word_less_nat_alt)
  have ok: "vga_ok t \<longleftrightarrow> length (vga_buffer t) = screen \<and> vga_row t < 25 \<and> vga_col t < 80" for t
    by (simp add: vga_ok_def VGA_WIDTH_def VGA_HEIGHT_def)
  have len: "length (drop 80 b @ replicate 80 x) = screen" if "length b = screen" for b :: "u16 list" and x
    using that by (simp add: screen_def)
  consider "c = ch CHR 0x0A" | "c = ch CHR 0x0D" | "c = ch CHR 0x09" | "c \<notin> {ch CHR 0x0A, ch CHR 0x0D, ch CHR 0x09}" by blast
  then show ?thesis
  proof cases
    case 1
    then show ?thesis using s row up len [OF s(1)] by (auto simp: vga_putc_def nr ok)
  next
    case 2
    then show ?thesis using s by (simp add: vga_putc_def ok ch_def)
  next
    case 3
    then show ?thesis using s row up len [OF s(1)] by (auto simp: vga_putc_def nr ok ch_def VGA_WIDTH_def Let_def not_le)
  next
    case 4
    let ?b = "(vga_buffer s)[unat (vga_row s) * 80 + unat (vga_col s) := VGA_ENTRY (vga_color s) c]"
    have e: "vga_putc c s = (if 80 \<le> vga_col s + 1 then next_row (s\<lparr>vga_buffer := ?b, vga_col := 0\<rparr>)
        else Some (s\<lparr>vga_buffer := ?b, vga_col := vga_col s + 1\<rparr>))"
      using 4 by (simp add: vga_putc_def pc Let_def) (simp add: VGA_WIDTH_def)
    have b: "length ?b = screen" using s(1) by simp
    show ?thesis unfolding e using 4 s row up len [OF b] b by (auto simp: nr ok not_le Let_def)
  qed
qed

lemma vga_putc_ok: "vga_ok s \<Longrightarrow> \<exists>s'. vga_putc c s = Some s' \<and> vga_ok s'"
  using vga_putc_cells [of s c] by blast

subsection \<open>Properties\<close>

text \<open>\<open>vga_putc\<close> keeps the console in order and does the right thing for every character. As long as the
  cursor is on the screen it stays there and no cell outside the screen is touched. A newline,
  a full row or a tab past the last column moves to the next row, scrolling when the cursor is in
  the last row: every row moves up by one and the last one becomes blank. Any character but
  newline, carriage return and tab is put into the cell under the cursor; no other cell changes.\<close>

theorem vga_putc_effect:
  assumes "vga_ok s"
  shows "\<exists>s'. vga_putc c s = Some s' \<and> vga_ok s' \<and> vga_color s' = vga_color s \<and>
    (let nl = (c = ch CHR 0x0A); cr = (c = ch CHR 0x0D); tab = (c = ch CHR 0x09);
         col = (if nl \<or> cr then 0 else if tab then (vga_col s + 4) AND NOT 3 else vga_col s + 1);
         down = (nl \<or> 80 \<le> col);
         cells = (if nl \<or> cr \<or> tab then vga_buffer s
                  else (vga_buffer s)[unat (vga_row s) * 80 + unat (vga_col s) := VGA_ENTRY (vga_color s) c])
     in vga_col s' = (if down then 0 else col) \<and>
        vga_row s' = (if down \<and> vga_row s < 24 then vga_row s + 1 else vga_row s) \<and>
        vga_buffer s' = (if down \<and> vga_row s = 24
          then drop 80 cells @ replicate 80 (VGA_ENTRY (vga_color s) (ch CHR '' '')) else cells))"
  using assms by (rule vga_putc_cells)

text \<open>A blank screen.\<close>

definition vga_blank :: vga where
  "vga_blank = \<lparr>vga_buffer = replicate screen 0, vga_row = 24, vga_col = 79, vga_color = 7\<rparr>"

theorem vga_putc_effect_witness:
  "vga_ok vga_blank \<and> (\<exists>s'. vga_putc (ch CHR ''A'') vga_blank = Some s' \<and> vga_row s' = 24 \<and> vga_col s' = 0)"
proof -
  have ok: "vga_ok vga_blank" by (simp add: vga_ok_def vga_blank_def VGA_HEIGHT_def VGA_WIDTH_def)
  have "ch CHR ''A'' \<noteq> ch CHR 0x0A" "ch CHR ''A'' \<noteq> ch CHR 0x0D" "ch CHR ''A'' \<noteq> ch CHR 0x09" by (simp_all add: ch_def)
  then show ?thesis
    using ok vga_putc_effect [OF ok, of "ch CHR ''A''"] by (auto simp: vga_blank_def Let_def)
qed

text \<open>The texts of numbers are right. \<open>kprint_dec\<close> prints the decimal digits of its argument without leading
  zeros, at most 10 of them, so its buffer of 11 bytes holds them and the zero byte; \<open>kprint_hex\<close> prints
  \<^verbatim>\<open>0x\<close> and 8 hexadecimal digits. Reading the digits gives the number back.\<close>

theorem number_texts:
  "dec_value (kprint_dec_text v) = unat v \<and> length (kprint_dec_text v) \<le> 10 \<and> (\<forall>c \<in> set (kprint_dec_text v). is_digit c) \<and>
   (v = 0 \<or> digit_value (hd (kprint_dec_text v)) \<noteq> 0) \<and>
   (\<exists>ds. kprint_hex_text v = ch CHR ''0'' # ch CHR ''x'' # ds \<and> length ds = 8 \<and> hex_value ds = unat v)"
proof -
  have "unat v < 10 ^ 10" "unat v < 16 ^ 8" using unat_u32_less [of v] by simp_all
  note d = dec_digits_ok [OF this(1)] and h = hex_digits_ok [OF this(2)]
  show ?thesis
  proof (cases "v = 0")
    case True
    then show ?thesis using h by (simp add: kprint_dec_text_def kprint_hex_text_def dec_value_def digit_value_def is_digit_def ch_def)
  next
    case False
    then show ?thesis using d h by (simp add: kprint_dec_text_def kprint_hex_text_def)
  qed
qed

theorem number_texts_witness:
  "dec_value (kprint_dec_text 4096) = 4096 \<and> length (kprint_dec_text 4096) \<le> 10"
  using number_texts [of 4096] by simp

end
