(* ===== verification/Kprintf.thy ===== *)
theory Kprintf
  imports Vga Tmpfs
begin

text \<open>
  Formatted output: \<^verbatim>\<open>lib/kprintf.c\<close>.

  The output buffer is the list of the bytes put into it so far, its length is the index \<^verbatim>\<open>i\<close> of the
  source. The variable arguments are a list; taking an argument of the wrong type, or one that is
  not there, is undefined behaviour (\<open>None\<close>), as are a format that ends in a single \<^verbatim>\<open>%\<close> (the loop then
  runs past its zero byte) and the negation of the least integer.
\<close>

unbundle bit_operations_syntax

definition PRINTF_BUFFER_SIZE :: nat where "PRINTF_BUFFER_SIZE = 1024"

datatype fmt_arg = Word_arg u32 | Str_arg "u8 list option"

subsection \<open>Numbers\<close>

text \<open>The loop \<open>do { num_buf[j++] = '0' + val % 10; val /= 10; } while (val > 0 && j < 30)\<close>.\<close>

function num_digits :: "nat \<Rightarrow> nat \<Rightarrow> u8 list" where
  "num_digits j val = of_nat (48 + val mod 10) #
     (if 0 < val div 10 \<and> j + 1 < 30 then num_digits (j + 1) (val div 10) else [])"
  by auto
termination by (relation "measure snd") auto

declare num_digits.simps [simp del]

text \<open>The reversal by swapping the places \<open>k\<close> and \<open>j - k - 1\<close> for \<open>k < j / 2\<close>.\<close>

definition swap_places :: "nat \<Rightarrow> u8 list \<Rightarrow> u8 list" where
  "swap_places k b = b[k := b ! (length b - k - 1), length b - k - 1 := b ! k]"

definition reverse_buf :: "u8 list \<Rightarrow> u8 list" where
  "reverse_buf b = fold swap_places [0..<length b div 2] b"

definition dec_text :: "u32 \<Rightarrow> u8 list option" where
  "dec_text v =
     (if sint v = - (2 ^ 31) then None
      else let is_neg = sint v < 0; val = nat (abs (sint v))
           in Some (reverse_buf (num_digits 0 val @ (if is_neg then [ch CHR ''-''] else []))))"

definition lower_hex :: string where "lower_hex = ''0123456789abcdef''"

definition hex_text :: "u32 \<Rightarrow> u8 list" where
  "hex_text v = map (\<lambda>j. ch (lower_hex ! unat (drop_bit j v AND 0xF))) [28, 24, 20, 16, 12, 8, 4, 0]"

definition str_text :: "u8 list option \<Rightarrow> u8 list" where
  "str_text s = (case s of None \<Rightarrow> map ch ''(null)'' | Some t \<Rightarrow> t)"

subsection \<open>kprintf\<close>

text \<open>Copying while the index is below a limit.\<close>

fun copy_bounded :: "nat \<Rightarrow> u8 list \<Rightarrow> u8 list \<Rightarrow> u8 list" where
  "copy_bounded lim [] out = out"
| "copy_bounded lim (c # cs) out = (if length out < lim then copy_bounded lim cs (out @ [c]) else out)"

text \<open>One conversion of \<open>kprintf\<close>: only the cases \<open>d\<close> and \<open>s\<close> check the index.\<close>

definition kprintf_conv :: "u8 \<Rightarrow> fmt_arg list \<Rightarrow> u8 list \<Rightarrow> (u8 list \<times> fmt_arg list) option" where
  "kprintf_conv f args out =
     (if f = ch CHR ''d'' then (case args of Word_arg v # as \<Rightarrow>
        do { t \<leftarrow> dec_text v; Some (copy_bounded (PRINTF_BUFFER_SIZE - 1) t out, as) } | _ \<Rightarrow> None)
      else if f = ch CHR ''x'' then (case args of Word_arg v # as \<Rightarrow>
        Some (out @ [ch CHR ''0'', ch CHR ''x''] @ hex_text v, as) | _ \<Rightarrow> None)
      else if f = ch CHR ''s'' then (case args of Str_arg s # as \<Rightarrow>
        Some (copy_bounded (PRINTF_BUFFER_SIZE - 1) (str_text s) out, as) | _ \<Rightarrow> None)
      else if f = ch CHR ''c'' then (case args of Word_arg v # as \<Rightarrow> Some (out @ [ucast v], as) | _ \<Rightarrow> None)
      else Some (out @ [f], args))"

fun kprintf_format :: "u8 list \<Rightarrow> fmt_arg list \<Rightarrow> u8 list \<Rightarrow> u8 list option" where
  "kprintf_format [] args out = Some out"
| "kprintf_format (c # fs) args out =
     (if length out < PRINTF_BUFFER_SIZE - 1
      then if c = ch CHR ''%''
           then (case fs of [] \<Rightarrow> None
                 | f # fs' \<Rightarrow> do { (out, args) \<leftarrow> kprintf_conv f args out; kprintf_format fs' args out })
           else kprintf_format fs args (out @ [c])
      else Some out)"

text \<open>The zero byte that ends the text must still fit: a longer text has been written past the buffer. The
  flags of the log file (\<^verbatim>\<open>O_WRONLY | O_CREAT\<close>, constants that no header of the repository defines) and
  the address of the buffer on the stack are parameters.\<close>

definition store_bytes :: "addr \<Rightarrow> u8 list \<Rightarrow> memory \<Rightarrow> memory" where
  "store_bytes p xs m = (\<lambda>a. if unat (a - p) < length xs then xs ! unat (a - p) else m a)"

definition kprintf_log :: "u32 \<Rightarrow> addr \<Rightarrow> u8 list \<Rightarrow> tmpfs \<Rightarrow> tmpfs option" where
  "kprintf_log flags buf text fs = do {
     let fs = fs\<lparr>tbytes := store_bytes buf (text @ [0]) (tbytes fs)\<rparr>;
     (log_fd, fs) \<leftarrow> fs_open ''/dev/log'' flags fs;
     if 0 \<le> log_fd
     then do {
       (_, fs) \<leftarrow> fs_write log_fd buf (of_nat (length (takeWhile (\<lambda>c. c \<noteq> 0) text))) fs;
       Some (snd (fs_close log_fd fs)) }
     else Some fs }"

definition kprintf :: "u32 \<Rightarrow> addr \<Rightarrow> u8 list \<Rightarrow> fmt_arg list \<Rightarrow> vga \<times> tmpfs \<Rightarrow> (int \<times> vga \<times> tmpfs) option" where
  "kprintf flags buf format args s = do {
     text \<leftarrow> kprintf_format format args [];
     if PRINTF_BUFFER_SIZE \<le> length text then None
     else do {
       v \<leftarrow> kprint (takeWhile (\<lambda>c. c \<noteq> 0) text) (fst s);
       fs \<leftarrow> kprintf_log flags buf text (snd s);
       Some (int (length text), v, fs) } }"

subsection \<open>snprintf\<close>

definition put_bounded :: "nat \<Rightarrow> u8 \<Rightarrow> u8 list \<Rightarrow> u8 list" where
  "put_bounded lim c out = (if length out < lim then out @ [c] else out)"

definition snprintf_conv :: "nat \<Rightarrow> u8 \<Rightarrow> fmt_arg list \<Rightarrow> u8 list \<Rightarrow> (u8 list \<times> fmt_arg list) option" where
  "snprintf_conv lim f args out =
     (if f = ch CHR ''d'' then (case args of Word_arg v # as \<Rightarrow>
        do { t \<leftarrow> dec_text v; Some (copy_bounded lim t out, as) } | _ \<Rightarrow> None)
      else if f = ch CHR ''x'' then (case args of Word_arg v # as \<Rightarrow>
        Some (copy_bounded lim (hex_text v) (put_bounded lim (ch CHR ''x'') (put_bounded lim (ch CHR ''0'') out)), as)
        | _ \<Rightarrow> None)
      else if f = ch CHR ''s'' then (case args of Str_arg s # as \<Rightarrow> Some (copy_bounded lim (str_text s) out, as) | _ \<Rightarrow> None)
      else if f = ch CHR ''c'' then (case args of Word_arg v # as \<Rightarrow> Some (put_bounded lim (ucast v) out, as) | _ \<Rightarrow> None)
      else Some (put_bounded lim f out, args))"

fun snprintf_format :: "nat \<Rightarrow> u8 list \<Rightarrow> fmt_arg list \<Rightarrow> u8 list \<Rightarrow> u8 list option" where
  "snprintf_format lim [] args out = Some out"
| "snprintf_format lim (c # fs) args out =
     (if length out < lim
      then if c = ch CHR ''%''
           then (case fs of [] \<Rightarrow> None
                 | f # fs' \<Rightarrow> do { (out, args) \<leftarrow> snprintf_conv lim f args out; snprintf_format lim fs' args out })
           else snprintf_format lim fs args (put_bounded lim c out)
      else Some out)"

text \<open>The text that \<open>snprintf\<close> puts into \<^verbatim>\<open>str\<close> before the zero byte; \<open>size - 1\<close> is computed in 32 bits.\<close>

definition snprintf :: "u32 \<Rightarrow> u8 list \<Rightarrow> fmt_arg list \<Rightarrow> u8 list option" where
  "snprintf sz format args = snprintf_format (unat (sz - 1)) format args []"

subsection \<open>The reference\<close>

text \<open>What a conversion stands for, and the text of a whole format.\<close>

definition conv_text :: "u8 \<Rightarrow> fmt_arg list \<Rightarrow> (u8 list \<times> fmt_arg list) option" where
  "conv_text f args =
     (if f = ch CHR ''d'' then (case args of Word_arg v # as \<Rightarrow> do { t \<leftarrow> dec_text v; Some (t, as) } | _ \<Rightarrow> None)
      else if f = ch CHR ''x'' then (case args of Word_arg v # as \<Rightarrow> Some ([ch CHR ''0'', ch CHR ''x''] @ hex_text v, as) | _ \<Rightarrow> None)
      else if f = ch CHR ''s'' then (case args of Str_arg s # as \<Rightarrow> Some (str_text s, as) | _ \<Rightarrow> None)
      else if f = ch CHR ''c'' then (case args of Word_arg v # as \<Rightarrow> Some ([ucast v], as) | _ \<Rightarrow> None)
      else Some ([f], args))"

fun render :: "u8 list \<Rightarrow> fmt_arg list \<Rightarrow> u8 list option" where
  "render [] args = Some []"
| "render (c # fs) args =
     (if c = ch CHR ''%''
      then (case fs of [] \<Rightarrow> None
            | f # fs' \<Rightarrow> do { (t, args) \<leftarrow> conv_text f args; r \<leftarrow> render fs' args; Some (t @ r) })
      else do { r \<leftarrow> render fs args; Some (c # r) })"

subsection \<open>Decimal numbers\<close>

lemma length_swap [simp]: "length (swap_places k b) = length b"
  by (simp add: swap_places_def)

lemma fold_swap:
  "n \<le> length b div 2 \<Longrightarrow> length (fold swap_places [0..<n] b) = length b \<and>
   (\<forall>i < length b. fold swap_places [0..<n] b ! i = (if i < n \<or> length b \<le> i + n then b ! (length b - 1 - i) else b ! i))"
proof (induction n)
  case (Suc n)
  let ?c = "fold swap_places [0..<n] b" and ?l = "length b"
  have IH: "length ?c = ?l" "\<And>i. i < ?l \<Longrightarrow> ?c ! i = (if i < n \<or> ?l \<le> i + n then b ! (?l - 1 - i) else b ! i)"
    using Suc by simp_all
  have n: "n < ?l - n - 1" "?l - n - 1 < ?l" using Suc.prems by linarith+
  have e: "?c ! n = b ! n" "?c ! (?l - n - 1) = b ! (?l - n - 1)" using IH(2) n by auto
  have s: "fold swap_places [0..<Suc n] b = ?c[n := b ! (?l - n - 1), ?l - n - 1 := b ! n]"
    using IH(1) e by (simp add: swap_places_def)
  have "?c[n := b ! (?l - n - 1), ?l - n - 1 := b ! n] ! i =
      (if i < Suc n \<or> ?l \<le> i + Suc n then b ! (?l - 1 - i) else b ! i)" if i: "i < ?l" for i
  proof -
    consider "i = n" | "i = ?l - n - 1" | "i \<noteq> n" "i \<noteq> ?l - n - 1" by blast
    then show ?thesis
    proof cases
      case 1
      then show ?thesis using n IH(1) by (simp add: nth_list_update)
    next
      case 2
      then have "?l - 1 - i = n" "?l \<le> i + Suc n" using n by linarith+
      then show ?thesis using 2 n IH(1) by (simp add: nth_list_update)
    next
      case 3
      then have "i < Suc n \<longleftrightarrow> i < n" "?l \<le> i + Suc n \<longleftrightarrow> ?l \<le> i + n" using i n by linarith+
      then show ?thesis using 3 IH(2) [OF i] by (simp add: nth_list_update)
    qed
  qed
  then show ?case unfolding s using IH(1) by simp
qed simp

lemma reverse_buf_rev: "reverse_buf b = rev b"
proof (rule nth_equalityI)
  note f = fold_swap [of "length b div 2" b]
  show "length (reverse_buf b) = length (rev b)" using f by (simp add: reverse_buf_def)
  fix i assume "i < length (reverse_buf b)"
  then have i: "i < length b" using f by (simp add: reverse_buf_def)
  have "reverse_buf b ! i = (if i < length b div 2 \<or> length b \<le> i + length b div 2 then b ! (length b - 1 - i) else b ! i)"
    using f i by (simp add: reverse_buf_def)
  moreover have "length b - 1 - i = i" if "\<not> i < length b div 2" "\<not> length b \<le> i + length b div 2" using that by linarith
  ultimately show "reverse_buf b ! i = rev b ! i" using i by (auto simp: rev_nth)
qed

lemma unat_ascii: "m < 10 \<Longrightarrow> unat (of_nat (48 + m) :: u8) = 48 + m"
  by (subst unat_of_nat) simp

lemma num_digits_value:
  assumes "val < 10 ^ (30 - j)" "j < 30"
  shows "dec_value (rev (num_digits j val)) = val \<and> (\<forall>c \<in> set (num_digits j val). is_digit c)"
  using assms
proof (induction j val rule: num_digits.induct)
  case (1 j val)
  let ?d = "of_nat (48 + val mod 10) :: u8"
  have d: "unat ?d = 48 + val mod 10" by (rule unat_ascii) simp
  have m: "30 - j = Suc (30 - (j + 1))" using "1.prems"(2) by simp
  show ?case
  proof (cases "0 < val div 10")
    case True
    have j: "j + 1 < 30"
    proof (rule ccontr)
      assume "\<not> j + 1 < 30"
      then have "30 - j = 1" using "1.prems"(2) by simp
      then show False using "1.prems"(1) True by simp
    qed
    have "val div 10 < 10 ^ (30 - (j + 1))" using "1.prems"(1) unfolding m by simp
    with "1.IH" True j have IH: "dec_value (rev (num_digits (j + 1) (val div 10))) = val div 10"
      "\<forall>c \<in> set (num_digits (j + 1) (val div 10)). is_digit c" by auto
    have e: "num_digits j val = ?d # num_digits (j + 1) (val div 10)" using True j by (subst num_digits.simps) simp
    show ?thesis unfolding e using IH d by (simp add: digit_value_def is_digit_def)
  next
    case False
    then have e: "num_digits j val = [?d]" by (subst num_digits.simps) simp
    have "val mod 10 = val" using False by simp
    then show ?thesis unfolding e using d by (simp add: dec_value_def digit_value_def is_digit_def)
  qed
qed

text \<open>What \<open>%d\<close> prints: a minus sign for a negative number, and digits that read as its absolute value.\<close>

theorem dec_text_value:
  assumes "sint v \<noteq> - (2 ^ 31)"
  shows "\<exists>ds. dec_text v = Some ((if sint v < 0 then [ch CHR ''-''] else []) @ ds) \<and>
    (\<forall>c \<in> set ds. is_digit c) \<and> int (dec_value ds) = abs (sint v)"
proof -
  let ?n = "nat (abs (sint v))"
  have "abs (sint v) \<le> 2 ^ 31" using sint_range_size [of v] by (auto simp: word_size)
  then have "?n < 10 ^ (30 - 0)" by simp
  from num_digits_value [OF this] show ?thesis
    using assms by (intro exI [of _ "rev (num_digits 0 ?n)"]) (simp add: dec_text_def reverse_buf_rev)
qed

subsection \<open>Bounded copies are truncations\<close>

lemma copy_bounded_take: "copy_bounded lim t out = out @ take (lim - length out) t"
proof (induction lim t out rule: copy_bounded.induct)
  case (2 lim c cs out)
  show ?case
  proof (cases "length out < lim")
    case True
    then have "lim - length out = Suc (lim - Suc (length out))" by simp
    then show ?thesis using 2 True by simp
  qed simp
qed simp

lemma put_bounded_take: "put_bounded lim c out = out @ take (lim - length out) [c]"
  by (auto simp: put_bounded_def take_Cons' )

lemma take_two: "out @ take (lim - length out) (xs @ ys) =
   (out @ take (lim - length out) xs) @ take (lim - length (out @ take (lim - length out) xs)) ys"
proof -
  have "lim - length (out @ take (lim - length out) xs) = lim - length out - length xs" by (simp add: min_def)
  then show ?thesis by (simp only: take_append append_assoc)
qed

lemma snprintf_conv_text:
  "snprintf_conv lim f args out = map_option (\<lambda>(t, as). (out @ take (lim - length out) t, as)) (conv_text f args)"
proof -
  have x: "copy_bounded lim (hex_text v) (put_bounded lim (ch CHR ''x'') (put_bounded lim (ch CHR ''0'') out)) =
      out @ take (lim - length out) ([ch CHR ''0'', ch CHR ''x''] @ hex_text v)" for v
    using take_two [of out lim "[ch CHR ''0'', ch CHR ''x'']" "hex_text v"]
      take_two [of out lim "[ch CHR ''0'']" "[ch CHR ''x'']"]
    by (simp only: copy_bounded_take put_bounded_take append_Cons append_Nil)
  show ?thesis
    unfolding snprintf_conv_def conv_text_def unfolding x unfolding copy_bounded_take put_bounded_take
    by (auto split: list.splits fmt_arg.splits option.splits bind_splits)
qed

lemma snprintf_format_take:
  "render fmt args = Some r \<Longrightarrow> length out \<le> lim \<Longrightarrow>
   snprintf_format lim fmt args out = Some (out @ take (lim - length out) r)"
proof (induction fmt arbitrary: args r out rule: length_induct)
  case (1 fmt)
  show ?case
  proof (cases fmt)
    case Nil
    then show ?thesis using 1 by simp
  next
    case (Cons c fs)
    show ?thesis
    proof (cases "length out < lim")
      case False
      then show ?thesis using 1(3) Cons by simp
    next
      case True
      show ?thesis
      proof (cases "c = ch CHR ''%''")
        case False
        obtain r' where r': "render fs args = Some r'" "r = c # r'" using 1(2) Cons False by (auto simp: bind_eq_Some_conv)
        have p: "put_bounded lim c out = out @ [c]" using True by (simp add: put_bounded_def)
        have "snprintf_format lim fs args (out @ [c]) = Some ((out @ [c]) @ take (lim - length (out @ [c])) r')"
          using 1(1) r'(1) True Cons by simp
        moreover have "lim - length out = Suc (lim - length (out @ [c]))" using True by simp
        ultimately show ?thesis using Cons False True p r'(2) by simp
      next
        case pc: True
        obtain f fs' where fs: "fs = f # fs'" using 1(2) Cons pc by (cases fs) auto
        obtain t as r' where t: "conv_text f args = Some (t, as)" "render fs' as = Some r'" "r = t @ r'"
          using 1(2) Cons pc fs by (auto simp: bind_eq_Some_conv)
        let ?o = "out @ take (lim - length out) t"
        have "snprintf_format lim fs' as ?o = Some (?o @ take (lim - length ?o) r')"
          using 1(1) t(2) Cons fs 1(3) by simp
        then have "snprintf_format lim fmt args out = Some (?o @ take (lim - length ?o) r')"
          using Cons fs pc True t(1) snprintf_conv_text [of lim f args out] by simp
        also have "?o @ take (lim - length ?o) r' = out @ take (lim - length out) r"
          unfolding t(3) by (rule take_two [symmetric])
        finally show ?thesis .
      qed
    qed
  qed
qed

subsection \<open>kprintf: the index\<close>

lemma length_copy_bounded: "length out \<le> lim \<Longrightarrow> length (copy_bounded lim t out) \<le> lim"
  by (simp add: copy_bounded_take)

lemma kprintf_conv_length:
  assumes "kprintf_conv f args out = Some (out', as)" "length out < 1023"
  shows "length out' \<le> 1032"
proof -
  have "length (copy_bounded 1023 t out) \<le> 1032" for t using length_copy_bounded [of out 1023 t] assms(2) by simp
  then show ?thesis
    using assms by (auto simp: kprintf_conv_def PRINTF_BUFFER_SIZE_def hex_text_def bind_eq_Some_conv
      split: if_splits list.splits fmt_arg.splits)
qed

text \<open>A conversion puts down the text it stands for, or truncates it at the limit.\<close>

lemma kprintf_conv_text:
  "conv_text f args = Some (t, as) \<Longrightarrow> length out + length t \<le> 1023 \<Longrightarrow> kprintf_conv f args out = Some (out @ t, as)"
  by (auto simp: conv_text_def kprintf_conv_def PRINTF_BUFFER_SIZE_def copy_bounded_take bind_eq_Some_conv
      split: if_splits list.splits fmt_arg.splits)

lemma kprintf_format_fits:
  "render fmt args = Some r \<Longrightarrow> length out + length r \<le> 1023 \<Longrightarrow> kprintf_format fmt args out = Some (out @ r)"
proof (induction fmt arbitrary: args r out rule: length_induct)
  case (1 fmt)
  show ?case
  proof (cases fmt)
    case Nil
    then show ?thesis using 1 by simp
  next
    case (Cons c fs)
    show ?thesis
    proof (cases "c = ch CHR ''%''")
      case False
      obtain r' where r': "render fs args = Some r'" "r = c # r'" using 1(2) Cons False by (auto simp: bind_eq_Some_conv)
      then have "kprintf_format fs args (out @ [c]) = Some ((out @ [c]) @ r')" using 1(1,3) Cons by simp
      then show ?thesis using Cons False r'(2) 1(3) by (simp add: PRINTF_BUFFER_SIZE_def)
    next
      case pc: True
      obtain f fs' where fs: "fs = f # fs'" using 1(2) Cons pc by (cases fs) auto
      obtain t as r' where t: "conv_text f args = Some (t, as)" "render fs' as = Some r'" "r = t @ r'"
        using 1(2) Cons pc fs by (auto simp: bind_eq_Some_conv)
      show ?thesis
      proof (cases "length out < 1023")
        case True
        have "kprintf_format fs' as (out @ t) = Some ((out @ t) @ r')" using 1(1,3) t Cons fs by simp
        then show ?thesis
          using Cons fs pc True t 1(3) kprintf_conv_text [OF t(1), of out] by (simp add: PRINTF_BUFFER_SIZE_def)
      next
        case False
        then have "length r = 0" using 1(3) by linarith
        then show ?thesis using Cons False by (simp add: PRINTF_BUFFER_SIZE_def)
      qed
    qed
  qed
qed

lemma kprintf_format_length: "kprintf_format fmt args out = Some r \<Longrightarrow> length out \<le> 1032 \<Longrightarrow> length r \<le> 1032"
proof (induction fmt arbitrary: args out rule: length_induct)
  case (1 fmt)
  show ?case
  proof (cases fmt)
    case (Cons c fs)
    show ?thesis
    proof (cases "length out < 1023 \<and> c = ch CHR ''%''")
      case True
      then obtain f fs' out' as where f: "fs = f # fs'" "kprintf_conv f args out = Some (out', as)"
        "kprintf_format fs' as out' = Some r"
        using 1(2) Cons by (auto simp: PRINTF_BUFFER_SIZE_def bind_eq_Some_conv split: list.splits)
      have "length fs' < length fmt" "length out' \<le> 1032"
        using Cons f(1) kprintf_conv_length [OF f(2)] True by simp_all
      then show ?thesis using 1(1) f(3) by blast
    next
      case False
      then show ?thesis using 1 Cons by (auto simp: PRINTF_BUFFER_SIZE_def split: if_splits)
    qed
  qed (use 1 in simp)
qed

subsection \<open>Properties\<close>

text \<open>C32: \<open>snprintf\<close> with a buffer of \<open>sz > 0\<close> bytes puts down exactly the first \<open>sz - 1\<close> bytes of the text that the
  format and its arguments stand for; with the zero byte that is never more than the buffer holds.\<close>

theorem snprintf_truncates:
  assumes "render format args = Some r" "sz \<noteq> 0"
  shows "snprintf sz format args = Some (take (unat sz - 1) r)"
proof -
  have "unat (sz - 1) = unat sz - 1" using assms(2) by (simp add: unat_minus_one)
  then show ?thesis using snprintf_format_take [OF assms(1), of "[]" "unat (sz - 1)"] by (simp add: snprintf_def)
qed

theorem snprintf_truncates_witness:
  "render (map ch ''%x!'') [Word_arg 255] = Some (map ch ''0x000000ff!'') \<and>
   snprintf 6 (map ch ''%x!'') [Word_arg 255] = Some (map ch ''0x000'')"
proof -
  have r: "render (map ch ''%x!'') [Word_arg 255] = Some (map ch ''0x000000ff!'')" by code_simp
  show ?thesis using r snprintf_truncates [OF r, of 6] by simp
qed

text \<open>\<open>kprintf\<close> and \<open>snprintf\<close> differ: a text of up to 1023 bytes is printed as it is, but the case \<open>x\<close> of \<open>kprintf\<close> does not
  check the index and can take it to 1032, 8 bytes and the zero byte past the end of the buffer.\<close>

theorem kprintf_fits:
  assumes "render format args = Some r" "length r \<le> 1023"
  shows "kprintf_format format args [] = Some r"
  using kprintf_format_fits [OF assms(1), of "[]"] assms(2) by simp

theorem kprintf_overruns:
  "kprintf_format (replicate 1022 (ch CHR ''a'') @ map ch ''%x'') [Word_arg v] [] =
     Some (replicate 1022 (ch CHR ''a'') @ map ch ''0x'' @ hex_text v)"
proof -
  have "kprintf_format (replicate n (ch CHR ''a'') @ fs) args out = kprintf_format fs args (out @ replicate n (ch CHR ''a''))"
    if "length out + n \<le> 1023" for n fs args out
    using that
  proof (induction n arbitrary: out)
    case (Suc n)
    have "ch CHR ''a'' \<noteq> ch CHR ''%''" by (simp add: ch_def)
    then show ?case using Suc.IH [of "out @ [ch CHR ''a'']"] Suc.prems by (simp add: PRINTF_BUFFER_SIZE_def)
  qed simp
  from this [of "[]" 1022 "map ch ''%x''"] show ?thesis
    by (simp add: kprintf_conv_def PRINTF_BUFFER_SIZE_def ch_def)
qed

theorem kprintf_bound:
  "kprintf_format format args [] = Some r \<Longrightarrow> length r \<le> 1032"
  using kprintf_format_length by fastforce

end
