(* ===== verification/Keyboard.thy ===== *)
theory Keyboard
  imports Vga
begin

text \<open>
  The keyboard: \<^verbatim>\<open>lib/keyboard.c\<close> and \<^verbatim>\<open>include/keyboard.h\<close>.

  What the keyboard controller answers is a parameter: the status bytes of successive reads of its
  port as a sequence, and the scan code in its data port.
\<close>

unbundle bit_operations_syntax

subsection \<open>Scan codes\<close>

definition nul :: char where "nul = CHR 0x00"

definition scancode_to_ascii_table :: "char list" where
  "scancode_to_ascii_table =
     [nul, nul] @ ''1234567890-='' @ [CHR 0x08, CHR 0x09] @ ''qwertyuiop[]'' @ [CHR 0x0A, nul] @
     ''asdfghjkl;'' @ [CHR 0x27, CHR 0x60, nul, CHR 0x5C] @ ''zxcvbnm,./'' @ [nul] @ ''*'' @ [nul] @ '' '' @
     replicate 70 nul"

definition scancode_to_ascii_table_shift :: "char list" where
  "scancode_to_ascii_table_shift =
     [nul, nul] @ ''!@#$%^&*()_+'' @ [CHR 0x08, CHR 0x09] @ ''QWERTYUIOP{}'' @ [CHR 0x0A, nul] @
     ''ASDFGHJKL:'' @ [CHR 0x22, CHR 0x7E, nul, CHR 0x7C] @ ''ZXCVBNM<>?'' @ [nul] @ ''*'' @ [nul] @ '' '' @
     replicate 70 nul"

record keyboard =
  shift_pressed :: bool
  caps_lock :: bool

record key_event =
  ev_scancode :: u8
  ev_ascii :: u8
  ev_pressed :: bool

definition scancode_to_ascii :: "u8 \<Rightarrow> keyboard \<Rightarrow> u8 \<times> keyboard" where
  "scancode_to_ascii scancode k =
     (if scancode AND 0x80 \<noteq> 0
      then let code = scancode AND 0x7F
           in if code = 0x2A \<or> code = 0x36 then (0, k\<lparr>shift_pressed := False\<rparr>)
              else if code = 0x3A then (0, k\<lparr>caps_lock := \<not> caps_lock k\<rparr>)
              else (0, k)
      else let code = scancode
           in if code = 0x2A \<or> code = 0x36 then (0, k\<lparr>shift_pressed := True\<rparr>)
              else if code = 0x3A then (0, k\<lparr>caps_lock := \<not> caps_lock k\<rparr>)
              else if code < 128
              then (ch ((if shift_pressed k \<noteq> caps_lock k then scancode_to_ascii_table_shift
                     else scancode_to_ascii_table) ! unat code), k)
              else (0, k))"

text \<open>\<open>do status = inb(0x64) while (!(status & 1))\<close>: the index of the first status that says the buffer is full.\<close>

partial_function (option) wait_output_full :: "(nat \<Rightarrow> u8) \<Rightarrow> nat \<Rightarrow> nat option" where
  "wait_output_full status i = (if status i AND 0x01 = 0 then wait_output_full status (i + 1) else Some i)"

definition keyboard_get_scancode :: "(nat \<Rightarrow> u8) \<Rightarrow> (nat \<Rightarrow> u8) \<Rightarrow> u8 option" where
  "keyboard_get_scancode status port = do { i \<leftarrow> wait_output_full status 0; Some (port i) }"

definition keyboard_read :: "u8 \<Rightarrow> keyboard \<Rightarrow> key_event \<times> keyboard" where
  "keyboard_read scancode k =
     (let (ascii, k) = scancode_to_ascii scancode k
      in (\<lparr>ev_scancode = scancode, ev_ascii = ascii, ev_pressed = (scancode AND 0x80 = 0)\<rparr>, k))"

subsection \<open>Facts\<close>

lemma table_lengths: "length scancode_to_ascii_table = 128" "length scancode_to_ascii_table_shift = 128"
  by (simp_all add: scancode_to_ascii_table_def scancode_to_ascii_table_shift_def)

lemma wait_output_full_first:
  assumes "\<And>j. j < n \<Longrightarrow> status (i + j) AND 0x01 = 0" "status (i + n) AND 0x01 \<noteq> 0"
  shows "wait_output_full status i = Some (i + n)"
  using assms
proof (induction n arbitrary: i)
  case 0
  then show ?case by (subst wait_output_full.simps) simp
next
  case (Suc n)
  have "status i AND 0x01 = 0" using Suc.prems(1) [of 0] by simp
  moreover have "wait_output_full status (i + 1) = Some (i + 1 + n)"
    using Suc.prems by (intro Suc.IH) (force simp: add.assoc [symmetric])+
  ultimately show ?case by (subst wait_output_full.simps) simp
qed

text \<open>Caps lock is toggled by the press and again by the release of its key: a stroke has no effect.\<close>

theorem caps_lock_stroke:
  "snd (scancode_to_ascii 0xBA (snd (scancode_to_ascii 0x3A k))) = k"
  by (simp add: scancode_to_ascii_def)

end
