(* ===== verification/Executor.thy ===== *)
theory Executor
  imports Sched
begin

text \<open>
  The executor of AI requests, \<^verbatim>\<open>kernel/executor.c\<close>: it reads a request in JSON with \<^verbatim>\<open>strstr\<close>, asks the
  user and changes the state of a task of the scheduler.

  A C string is the list of its characters before the zero byte; a pointer into it is the list of
  the characters that are left, so \<open>[]\<close> is the zero byte and a pointer behind it is no value
  (\<open>None\<close>). \<^verbatim>\<open>strstr\<close> on such lists is \<open>find_sub\<close>; theory \<^verbatim>\<open>Cstring\<close> shows that the kernel's \<^verbatim>\<open>strstr\<close> finds
  the first place where the pattern occurs. \<^verbatim>\<open>vga_getc\<close> is declared nowhere in the sources: the key
  the user presses is an argument. What the executor prints is the list of its calls of
  \<^verbatim>\<open>kprintf\<close> and \<^verbatim>\<open>vga_putc\<close>, a constructor for each call.
\<close>

subsection \<open>Reading a request\<close>

datatype ai_action_type = AI_ACTION_ALERT | AI_ACTION_KILL | AI_ACTION_PAUSE | AI_ACTION_RESUME

record ai_action =
  a_type :: ai_action_type
  a_pid :: u32
  a_reason :: string
  a_message :: string

text \<open>\<open>memset(&action, 0, sizeof(action))\<close>.\<close>

definition ai_action_zero :: ai_action where
  "ai_action_zero = \<lparr>a_type = AI_ACTION_ALERT, a_pid = 0, a_reason = [], a_message = []\<rparr>"

fun find_sub :: "string \<Rightarrow> string \<Rightarrow> string option" where
  "find_sub nd [] = (if nd = [] then Some [] else None)"
| "find_sub nd (c # us) = (if take (length nd) (c # us) = nd then Some (c # us) else find_sub nd us)"

text \<open>\<open>p += n\<close>.\<close>

definition advance :: "nat \<Rightarrow> string \<Rightarrow> string option" where
  "advance n p = (if n \<le> length p then Some (drop n p) else None)"

text \<open>The C library's \<^verbatim>\<open>atoi\<close>: white space, a sign, digits; a value outside of \<^verbatim>\<open>int\<close> is undefined.\<close>

definition isspace :: "char \<Rightarrow> bool" where
  "isspace c \<longleftrightarrow> c \<in> {CHR 0x20, CHR 0x09, CHR 0x0A, CHR 0x0B, CHR 0x0C, CHR 0x0D}"

definition isdigit :: "char \<Rightarrow> bool" where
  "isdigit c \<longleftrightarrow> 48 \<le> (of_char c :: nat) \<and> (of_char c :: nat) \<le> 57"

fun read_digits :: "int \<Rightarrow> string \<Rightarrow> int" where
  "read_digits acc [] = acc"
| "read_digits acc (c # us) =
     (if isdigit c then read_digits (10 * acc + (of_char c - 48)) us else acc)"

definition atoi :: "string \<Rightarrow> int option" where
  "atoi p = (let
     p = dropWhile isspace p;
     neg = (p \<noteq> [] \<and> hd p = CHR ''-'');
     p = (if p \<noteq> [] \<and> hd p \<in> {CHR ''-'', CHR ''+''} then tl p else p);
     v = (if neg then - read_digits 0 p else read_digits 0 p)
   in if - (2 ^ 31) \<le> v \<and> v < 2 ^ 31 then Some v else None)"

text \<open>A quoted text of at most 255 characters.\<close>

definition copy_quoted :: "string \<Rightarrow> string" where
  "copy_quoted p = take 255 (takeWhile (\<lambda>c. c \<noteq> CHR 0x22)
     (dropWhile (\<lambda>c. c \<in> {CHR 0x20, CHR 0x09, CHR 0x22}) p))"

definition action_type :: "string \<Rightarrow> ai_action_type option" where
  \<open>action_type json =
     (if find_sub ''"type": "kill"'' json \<noteq> None then Some AI_ACTION_KILL
      else if find_sub ''"type": "pause"'' json \<noteq> None then Some AI_ACTION_PAUSE
      else if find_sub ''"type": "resume"'' json \<noteq> None then Some AI_ACTION_RESUME
      else if find_sub ''"type": "alert"'' json \<noteq> None then Some AI_ACTION_ALERT
      else None)\<close>

text \<open>The inner option is the result: \<open>None\<close> for the return value -1.\<close>

definition parse_ai_action :: "string \<Rightarrow> ai_action \<Rightarrow> ai_action option option" where
  \<open>parse_ai_action json action =
     (case action_type json of
        None \<Rightarrow> Some None
      | Some ty \<Rightarrow> do {
          let action = action\<lparr>a_type := ty\<rparr>;
          action \<leftarrow> (case find_sub ''"pid":'' json of
              Some pid_str \<Rightarrow>
                if ty \<noteq> AI_ACTION_ALERT then do {
                  pid_str \<leftarrow> advance 7 pid_str;
                  n \<leftarrow> atoi (dropWhile (\<lambda>c. c \<in> {CHR 0x20, CHR 0x09, CHR '':''}) pid_str);
                  Some (action\<lparr>a_pid := word_of_int n\<rparr>) }
                else Some action
            | None \<Rightarrow> Some action);
          if ty = AI_ACTION_ALERT
          then (case find_sub ''"message":'' json of
                  Some msg_str \<Rightarrow> do {
                    msg_str \<leftarrow> advance 11 msg_str;
                    Some (Some (action\<lparr>a_message := copy_quoted msg_str\<rparr>)) }
                | None \<Rightarrow> Some (Some action))
          else (case find_sub ''"reason":'' json of
                  Some reason_str \<Rightarrow> do {
                    reason_str \<leftarrow> advance 10 reason_str;
                    Some (Some (action\<lparr>a_reason := copy_quoted reason_str\<rparr>)) }
                | None \<Rightarrow> Some (Some action)) })\<close>

subsection \<open>Carrying it out\<close>

datatype printed =
    Parse_failed string
  | Alert string
  | Ask ai_action_type u32 string
  | Echo char
  | Terminated u32
  | Paused u32
  | Resumed u32
  | Not_found u32
  | Canceled

text \<open>\<open>while (t) { if (t->pid == pid) ...; t = t->sibling_next; }\<close>\<close>

partial_function (option) find_in_queue :: "(addr \<rightharpoonup> task) \<Rightarrow> u32 \<Rightarrow> addr \<Rightarrow> addr option" where
  "find_in_queue ts n p =
     (if p = NULL then Some NULL
      else do { t \<leftarrow> ts p; if pid t = n then Some p else find_in_queue ts n (sibling_next t) })"

fun search_queues :: "addr list \<Rightarrow> (addr \<rightharpoonup> task) \<Rightarrow> u32 \<Rightarrow> addr option" where
  "search_queues [] ts n = Some NULL"
| "search_queues (q # qs) ts n = do {
     p \<leftarrow> find_in_queue ts n q;
     if p \<noteq> NULL then Some p else search_queues qs ts n }"

text \<open>The loops of the three actions differ in the state they set and the message they print.\<close>

definition mark_queued :: "u32 \<Rightarrow> task_state \<Rightarrow> printed \<Rightarrow> sched \<Rightarrow> (printed list \<times> sched) option" where
  "mark_queued n st msg s = do {
     p \<leftarrow> search_queues (map (\<lambda>i. ready_queue s ! i) [0..<unat MAX_PRIORITY]) (tasks s) n;
     if p = NULL then Some ([Not_found n], s)
     else do { s \<leftarrow> mod_task p (\<lambda>t. t\<lparr>state := st\<rparr>) s; Some ([msg], s) } }"

definition kill_task :: "u32 \<Rightarrow> sched \<Rightarrow> (printed list \<times> sched) option" where
  "kill_task n s = do {
     t \<leftarrow> tasks s (current_task s);
     if pid t = n then do { s \<leftarrow> task_exit s; Some ([], s) }
     else mark_queued n TASK_ZOMBIE (Terminated n) s }"

definition confirmed :: "char \<Rightarrow> bool" where
  "confirmed c \<longleftrightarrow> c = CHR ''y'' \<or> c = CHR ''Y''"

definition ask_user ::
    "char \<Rightarrow> ai_action \<Rightarrow> (sched \<Rightarrow> (printed list \<times> sched) option) \<Rightarrow> sched \<Rightarrow> (printed list \<times> sched) option" where
  "ask_user c action act s = do {
     (out, s) \<leftarrow> (if confirmed c then act s else Some ([Canceled], s));
     Some ([Ask (a_type action) (a_pid action) (a_reason action), Echo c, Echo (CHR 0x0A)] @ out, s) }"

definition execute_ai_action :: "char \<Rightarrow> string \<Rightarrow> sched \<Rightarrow> (printed list \<times> sched) option" where
  "execute_ai_action c json_action s = do {
     r \<leftarrow> parse_ai_action json_action ai_action_zero;
     case r of
       None \<Rightarrow> Some ([Parse_failed json_action], s)
     | Some action \<Rightarrow>
         (case a_type action of
            AI_ACTION_ALERT \<Rightarrow> Some ([Alert (a_message action)], s)
          | AI_ACTION_KILL \<Rightarrow> ask_user c action (kill_task (a_pid action)) s
          | AI_ACTION_PAUSE \<Rightarrow>
              ask_user c action (mark_queued (a_pid action) TASK_BLOCKED (Paused (a_pid action))) s
          | AI_ACTION_RESUME \<Rightarrow>
              ask_user c action (mark_queued (a_pid action) TASK_READY (Resumed (a_pid action))) s) }"

subsection \<open>Reading back a request\<close>

lemma find_sub_skip:
  assumes "nd \<noteq> []" "hd nd \<notin> set us"
  shows "find_sub nd (us @ vs) = find_sub nd vs"
  using assms by (induction us) (auto simp: neq_Nil_conv)

text \<open>Decimal notation, and a request as an application writes it.\<close>

fun dec_string :: "nat \<Rightarrow> string" where
  "dec_string n = (if n < 10 then [] else dec_string (n div 10)) @ [char_of (48 + n mod 10)]"

declare dec_string.simps [simp del]

definition request :: "string \<Rightarrow> nat \<Rightarrow> string \<Rightarrow> string" where
  \<open>request ty n why = ''{"type": "'' @ ty @ ''", "pid": '' @ dec_string n @ '', "reason": "'' @ why @ ''"}''\<close>

lemma digit_char: "d < 10 \<Longrightarrow> (of_char (char_of (48 + d) :: char) :: nat) = 48 + d"
  by simp

lemma dec_string_digits: "c \<in> set (dec_string n) \<Longrightarrow> isdigit c"
proof (induction n rule: dec_string.induct)
  case (1 n)
  have "(of_char (char_of (48 + n mod 10) :: char) :: nat) = 48 + n mod 10" by (rule digit_char) simp
  then show ?case using 1 by (subst (asm) (2) dec_string.simps) (auto simp: isdigit_def split: if_splits)
qed

lemma read_dec_string:
  "read_digits acc (dec_string n @ us) = read_digits (acc * 10 ^ length (dec_string n) + int n) us"
proof (induction n arbitrary: us rule: dec_string.induct)
  case (1 n)
  let ?d = "char_of (48 + n mod 10) :: char"
  have d: "isdigit ?d" "(of_char ?d :: int) - 48 = int (n mod 10)"
    using digit_char [of "n mod 10"] of_nat_of_char [of ?d, where 'a = int]
    by (simp_all add: isdigit_def)
  have n: "int n = 10 * int (n div 10) + int (n mod 10)" by presburger
  show ?case
  proof (cases "n < 10")
    case True
    then show ?thesis using d by (simp add: dec_string.simps [of n] mult.commute)
  next
    case False
    then have "dec_string n @ us = dec_string (n div 10) @ ?d # us"
      "length (dec_string n) = Suc (length (dec_string (n div 10)))"
      by (simp_all add: dec_string.simps [of n])
    then show ?thesis using 1 [OF False, of "?d # us"] d n by (simp add: algebra_simps)
  qed
qed

lemma dec_string_nonempty: "dec_string n \<noteq> []" "isdigit (hd (dec_string n))"
proof -
  show "dec_string n \<noteq> []" by (simp add: dec_string.simps [of n])
  then show "isdigit (hd (dec_string n))" using dec_string_digits hd_in_set by blast
qed

lemma isdigit_not: "isdigit c \<Longrightarrow> \<not> isspace c \<and> c \<notin> {CHR ''-'', CHR ''+'', CHR 0x20, CHR 0x09, CHR '':'', CHR 0x22}"
  by (auto simp: isdigit_def isspace_def)

lemma atoi_dec_string:
  assumes "n < 2 ^ 31" "us = [] \<or> \<not> isdigit (hd us)"
  shows "atoi (dec_string n @ us) = Some (int n)"
proof -
  obtain c vs where c: "dec_string n = c # vs" "isdigit c"
    using dec_string_nonempty [of n] by (cases "dec_string n") auto
  have "dropWhile isspace (dec_string n @ us) = dec_string n @ us" "hd (dec_string n @ us) = c"
    using c isdigit_not [OF c(2)] by auto
  moreover have "read_digits 0 (dec_string n @ us) = int n"
    unfolding read_dec_string using assms(2) by (cases us) auto
  ultimately show ?thesis using isdigit_not [OF c(2)] assms(1) by (simp add: atoi_def Let_def c)
qed

definition type_word :: "ai_action_type \<Rightarrow> string" where
  "type_word ty = (case ty of AI_ACTION_ALERT \<Rightarrow> ''alert'' | AI_ACTION_KILL \<Rightarrow> ''kill''
     | AI_ACTION_PAUSE \<Rightarrow> ''pause'' | AI_ACTION_RESUME \<Rightarrow> ''resume'')"

lemma find_sub_request:
  assumes "CHR 0x22 \<notin> set why"
  shows \<open>find_sub (CHR 0x22 # nd) (dec_string n @ us) = find_sub (CHR 0x22 # nd) us\<close>
    and \<open>find_sub (CHR 0x22 # nd) (why @ us) = find_sub (CHR 0x22 # nd) us\<close>
  using find_sub_skip [of "CHR 0x22 # nd" "dec_string n"] find_sub_skip [of "CHR 0x22 # nd" why]
    isdigit_not dec_string_digits assms by fastforce+

text \<open>The last quoted text of a request is the key of no member.\<close>

lemma last_text_no_key:
  assumes "CHR 0x22 \<notin> set w" "CHR 0x22 \<notin> set why"
  shows "take k (why @ [CHR 0x22, CHR ''}'']) \<noteq> w @ CHR 0x22 # CHR '':'' # nd"
proof
  let ?z = "why @ [CHR 0x22, CHR ''}'']"
  assume "take k ?z = w @ CHR 0x22 # CHR '':'' # nd"
  then have "dropWhile (\<lambda>c. c \<noteq> CHR 0x22) ?z =
    dropWhile (\<lambda>c. c \<noteq> CHR 0x22) (w @ CHR 0x22 # CHR '':'' # nd @ drop k ?z)"
    by (metis append_Cons append_assoc append_take_drop_id)
  moreover have "dropWhile (\<lambda>c. c \<noteq> CHR 0x22) (v @ CHR 0x22 # u) = CHR 0x22 # u" if "CHR 0x22 \<notin> set v" for u v
    using that by (induction v) auto
  ultimately show False using assms by simp
qed

lemma action_type_request:
  assumes "CHR 0x22 \<notin> set why"
  shows "action_type (request (type_word ty) n why) = Some ty"
proof -
  have "take k (why @ [CHR 0x22, CHR ''}'']) \<noteq>
    CHR ''t'' # CHR ''y'' # CHR ''p'' # CHR ''e'' # CHR 0x22 # CHR '':'' # nd" for k nd
    using last_text_no_key [of "''type''" why k nd] assms by simp
  then show ?thesis
    by (cases ty) (simp_all add: action_type_def request_def type_word_def find_sub_request [OF assms]
      del: take_append)
qed

lemma find_pid_request:
  assumes "ty \<noteq> AI_ACTION_ALERT"
  shows \<open>find_sub ''"pid":'' (request (type_word ty) n why) =
    Some (''"pid": '' @ dec_string n @ '', "reason": "'' @ why @ ''"}'')\<close>
  using assms by (cases ty) (simp_all add: request_def type_word_def)

lemma find_reason_request:
  assumes "CHR 0x22 \<notin> set why"
  shows \<open>find_sub ''"reason":'' (request (type_word ty) n why) = Some (''"reason": "'' @ why @ ''"}'')\<close>
  by (cases ty) (simp_all add: request_def type_word_def find_sub_request [OF assms])

text \<open>Leading blanks of the quoted text are skipped together with its opening quote, and so is the closing quote when
  nothing is between them.\<close>

lemma copy_quoted_reason:
  assumes "CHR 0x22 \<notin> set why"
  shows "copy_quoted (CHR 0x22 # why @ [CHR 0x22, CHR ''}'']) =
    (let w = dropWhile (\<lambda>c. c \<in> {CHR 0x20, CHR 0x09}) why in if w = [] then ''}'' else take 255 w)"
proof -
  let ?b = "\<lambda>c. c \<in> {CHR 0x20, CHR 0x09}" and ?q = "\<lambda>c. c \<in> {CHR 0x20, CHR 0x09, CHR 0x22}"
  let ?w = "dropWhile ?b why"
  have d: "dropWhile ?q (why @ us) = (if ?w = [] then dropWhile ?q us else ?w @ us)" for us
    using assms by (induction why) auto
  have "takeWhile (\<lambda>c. c \<noteq> CHR 0x22) (v @ CHR 0x22 # us) = v" if "CHR 0x22 \<notin> set v" for v us
    using that by (induction v) auto
  moreover have "CHR 0x22 \<notin> set ?w" using assms set_dropWhileD by fast
  moreover have "dropWhile ?q (CHR 0x22 # us) = dropWhile ?q us" for us by simp
  moreover have "dropWhile ?q [CHR ''}''] = ''}''" by simp
  ultimately show ?thesis unfolding copy_quoted_def d Let_def by (simp only: d if_distrib [of "takeWhile _"]) auto
qed

subsection \<open>The search\<close>

lemma find_in_queue_linked:
  assumes "linked (\<lambda>p. map_option sibling_next (ts p)) p ps" "\<forall>q \<in> set ps. \<exists>t. ts q = Some t"
  shows "find_in_queue ts n p = Some (case find (\<lambda>q. map_option pid (ts q) = Some n) ps of None \<Rightarrow> NULL | Some q \<Rightarrow> q)"
  using assms
proof (induction ps arbitrary: p)
  case Nil
  then show ?case by (simp add: find_in_queue.simps)
next
  case (Cons q ps)
  then obtain t where t: "ts q = Some t" by auto
  then show ?case using Cons by (subst find_in_queue.simps) auto
qed

text \<open>The first task with a given pid in the order of the search: queue 0 first.\<close>

definition queued_pid :: "sched \<Rightarrow> addr list list \<Rightarrow> u32 \<Rightarrow> addr option" where
  "queued_pid s qs n = find (\<lambda>p. map_option pid (tasks s p) = Some n) (concat qs)"

lemma search_queues_concat:
  assumes "list_all2 (linked (\<lambda>p. map_option sibling_next (ts p))) hs qs"
    and "\<forall>q \<in> set (concat qs). \<exists>t. ts q = Some t" "NULL \<notin> set (concat qs)"
  shows "search_queues hs ts n =
    Some (case find (\<lambda>q. map_option pid (ts q) = Some n) (concat qs) of None \<Rightarrow> NULL | Some q \<Rightarrow> q)"
  using assms
proof (induction rule: list_all2_induct)
  case Nil
  then show ?case by simp
next
  case (Cons h hs ps qs)
  have "find_in_queue ts n h = Some (case find (\<lambda>q. map_option pid (ts q) = Some n) ps of None \<Rightarrow> NULL | Some q \<Rightarrow> q)"
    using Cons by (intro find_in_queue_linked) auto
  moreover have "q \<noteq> NULL" if "find P ps = Some q" for q P
    using that Cons.prems(2) nth_mem by (fastforce simp: find_Some_iff)
  moreover have "find P (ps @ rs) = (case find P ps of None \<Rightarrow> find P rs | Some q \<Rightarrow> Some q)" for P and rs :: "addr list"
    by (induction ps) auto
  ultimately show ?case using Cons by (auto split: option.splits)
qed

lemma set_concat_queued: "length qs = 16 \<Longrightarrow> set (concat qs) = queued qs"
proof -
  assume "length qs = 16"
  then have "set qs = (!) qs ` {..<16}" by (auto simp: set_conv_nth)
  then show ?thesis by (simp add: queued_def)
qed

lemma queues_linked:
  assumes "sched_wf s qs"
  shows "list_all2 (linked (\<lambda>p. map_option sibling_next (tasks s p))) (map (\<lambda>i. ready_queue s ! i) [0..<unat MAX_PRIORITY]) qs"
    and "\<forall>q \<in> set (concat qs). \<exists>t. tasks s q = Some t" "NULL \<notin> set (concat qs)"
proof -
  have q: "queues s qs" using assms by (simp add: sched_wf_def)
  have n: "unat MAX_PRIORITY = 16" by (simp add: MAX_PRIORITY_def)
  show "list_all2 (linked (\<lambda>p. map_option sibling_next (tasks s p))) (map (\<lambda>i. ready_queue s ! i) [0..<unat MAX_PRIORITY]) qs"
    using queuesD(1,3) [OF q] by (auto simp: list_all2_conv_all_nth n next_of_def)
  show "\<forall>q \<in> set (concat qs). \<exists>t. tasks s q = Some t"
    using sched_wf_queued [OF assms] set_concat_queued queuesD(1) [OF q] by blast
  then show "NULL \<notin> set (concat qs)" using sched_wf_null [OF assms] by force
qed

lemma search_queues_queued:
  assumes "sched_wf s qs"
  shows "search_queues (map (\<lambda>i. ready_queue s ! i) [0..<unat MAX_PRIORITY]) (tasks s) n =
    Some (case queued_pid s qs n of None \<Rightarrow> NULL | Some q \<Rightarrow> q)"
  unfolding queued_pid_def by (rule search_queues_concat [OF queues_linked [OF assms]])

lemma queued_pidD:
  assumes "sched_wf s qs" "queued_pid s qs n = Some p"
  shows "p \<in> queued qs" "p \<noteq> NULL" "\<exists>t. tasks s p = Some t \<and> pid t = n"
proof -
  have p: "p \<in> set (concat qs)" "map_option pid (tasks s p) = Some n"
    using assms(2) nth_mem [of _ "concat qs"] unfolding queued_pid_def find_Some_iff by metis+
  have "length qs = 16" using assms(1) queuesD(1) by (auto simp: sched_wf_def)
  then show "p \<in> queued qs" using p(1) set_concat_queued by blast
  show "p \<noteq> NULL" "\<exists>t. tasks s p = Some t \<and> pid t = n" using p(2) sched_wf_null [OF assms(1)] by auto
qed

lemma mark_queued_effect:
  assumes "sched_ok s qs"
  shows "case queued_pid s qs n of
      None \<Rightarrow> mark_queued n st msg s = Some ([Not_found n], s)
    | Some p \<Rightarrow> \<exists>t s'. tasks s p = Some t \<and> mark_queued n st msg s = Some ([msg], s') \<and>
        s' = s\<lparr>tasks := (tasks s)(p \<mapsto> t\<lparr>state := st\<rparr>)\<rparr> \<and> sched_ok s' qs"
proof (cases "queued_pid s qs n")
  case None
  then have "search_queues (map (\<lambda>i. ready_queue s ! i) [0..<unat MAX_PRIORITY]) (tasks s) n = Some NULL"
    using assms search_queues_queued [of s qs n] by (simp add: sched_ok_def)
  then show ?thesis using None by (simp add: mark_queued_def)
next
  case (Some p)
  have wf: "sched_wf s qs" using assms by (simp add: sched_ok_def)
  note p = queued_pidD [OF wf Some]
  then obtain t where t: "tasks s p = Some t" by blast
  let ?s = "s\<lparr>tasks := (tasks s)(p \<mapsto> t\<lparr>state := st\<rparr>)\<rparr>"
  have "sched_wf ?s qs" using sched_wf_mod [OF wf t, of "t\<lparr>state := st\<rparr>"] by simp
  then have "sched_ok ?s qs" using assms t by (auto simp: sched_ok_def)
  moreover have "search_queues (map (\<lambda>i. ready_queue s ! i) [0..<unat MAX_PRIORITY]) (tasks s) n = Some p"
    using Some search_queues_queued [OF wf, of n] by simp
  ultimately show ?thesis using Some t p(2) by (simp add: mark_queued_def mod_task_def)
qed

text \<open>The state that each action gives a task, and what is printed then.\<close>

definition ordered_state :: "ai_action_type \<Rightarrow> task_state" where
  "ordered_state ty = (case ty of AI_ACTION_KILL \<Rightarrow> TASK_ZOMBIE | AI_ACTION_PAUSE \<Rightarrow> TASK_BLOCKED | _ \<Rightarrow> TASK_READY)"

definition report :: "ai_action_type \<Rightarrow> u32 \<Rightarrow> printed" where
  "report ty = (case ty of AI_ACTION_KILL \<Rightarrow> Terminated | AI_ACTION_PAUSE \<Rightarrow> Paused | _ \<Rightarrow> Resumed)"

definition asking :: "char \<Rightarrow> ai_action \<Rightarrow> printed list" where
  "asking c a = [Ask (a_type a) (a_pid a) (a_reason a), Echo c, Echo (CHR 0x0A)]"

lemma execute_unfold:
  assumes "parse_ai_action json ai_action_zero = Some (Some a)" "a_type a \<noteq> AI_ACTION_ALERT"
  shows "execute_ai_action c json s = (if confirmed c
    then map_option (\<lambda>(out, s'). (asking c a @ out, s'))
      (if a_type a = AI_ACTION_KILL then kill_task (a_pid a) s
       else mark_queued (a_pid a) (ordered_state (a_type a)) (report (a_type a) (a_pid a)) s)
    else Some (asking c a @ [Canceled], s))"
  using assms
  by (cases "a_type a")
    (auto simp: execute_ai_action_def ask_user_def asking_def ordered_state_def report_def map_option_case
      split: option.splits)

lemma kill_task_cases:
  "kill_task n s = (case tasks s (current_task s) of None \<Rightarrow> None
     | Some t \<Rightarrow> if pid t = n then map_option (Pair []) (task_exit s)
         else mark_queued n (ordered_state AI_ACTION_KILL) (report AI_ACTION_KILL n) s)"
  by (simp add: kill_task_def ordered_state_def report_def map_option_case split: option.splits)

lemma execute_confirmed:
  assumes ok: "sched_ok s qs" and a: "parse_ai_action json ai_action_zero = Some (Some a)" "a_type a \<noteq> AI_ACTION_ALERT"
    and k: "a_type a = AI_ACTION_KILL \<longrightarrow> (\<exists>t. tasks s (current_task s) = Some t \<and> pid t \<noteq> a_pid a)" and c: "confirmed c"
  shows "case queued_pid s qs (a_pid a) of
      None \<Rightarrow> execute_ai_action c json s = Some (asking c a @ [Not_found (a_pid a)], s)
    | Some p \<Rightarrow> \<exists>t s'. tasks s p = Some t \<and>
        execute_ai_action c json s = Some (asking c a @ [report (a_type a) (a_pid a)], s') \<and>
        s' = s\<lparr>tasks := (tasks s)(p \<mapsto> t\<lparr>state := ordered_state (a_type a)\<rparr>)\<rparr> \<and> sched_ok s' qs"
  using mark_queued_effect [OF ok, of "a_pid a" "ordered_state (a_type a)" "report (a_type a) (a_pid a)"]
    execute_unfold [OF a, of c s] k c
  by (auto simp: kill_task_cases split: option.splits)

text \<open>Two tasks after the boot: the idle task, current, and the init task, here with pids 0 and 9.\<close>

lemma two_tasks:
  obtains s a b t u where "sched_ok s ((replicate 16 [])[0 := [a], 5 := [b]])" "current_task s = a" "a \<noteq> NULL"
    "a \<noteq> b" "tasks s a = Some t" "pid t = 0" "time_slice t \<noteq> 1" "tasks s b = Some u" "pid u = 9"
proof -
  obtain s a b t where s: "a \<noteq> b" "sched_ok s ((replicate 16 [])[0 := [a], 5 := [b]])" "current_task s = a"
      "tasks s a = Some t" "time_slice t = TIME_SLICE" "map_option time_slice (tasks s b) = Some TIME_SLICE" "a \<noteq> NULL"
    by (rule machine0_boots)
  then obtain u where u: "tasks s b = Some u" by auto
  let ?s1 = "s\<lparr>tasks := (tasks s)(a \<mapsto> t\<lparr>pid := 0\<rparr>)\<rparr>"
  let ?s = "?s1\<lparr>tasks := (tasks ?s1)(b \<mapsto> u\<lparr>pid := 9\<rparr>)\<rparr>"
  have wf: "sched_wf ?s1 ((replicate 16 [])[0 := [a], 5 := [b]])"
    using s(2,4) by (intro sched_wf_mod) (auto simp: sched_ok_def)
  have "sched_wf ?s ((replicate 16 [])[0 := [a], 5 := [b]])"
    using sched_wf_mod [OF wf, of b u "u\<lparr>pid := 9\<rparr>"] s(1) u by simp
  then have "sched_ok ?s ((replicate 16 [])[0 := [a], 5 := [b]])"
    using s by (auto simp: sched_ok_def TIME_SLICE_def)
  then show thesis using s by (intro that [of ?s a b "t\<lparr>pid := 0\<rparr>" "u\<lparr>pid := 9\<rparr>"]) (auto simp: TIME_SLICE_def)
qed

lemma queued_pid_two:
  assumes "tasks s a = Some t" "pid t = 0" "tasks s b = Some u" "pid u = 9"
  shows "queued_pid s ((replicate 16 [])[0 := [a], 5 := [b]]) 9 = Some b"
proof -
  have "concat ((replicate 16 [])[0 := [a], 5 := [b]]) = [a, b]" by (simp add: numeral_eq_Suc)
  then show ?thesis using assms by (simp add: queued_pid_def)
qed

definition kill9 :: string where
  \<open>kill9 = ''{"type": "kill", "pid": 9, "reason": "spins"}''\<close>

lemma kill9_parsed: "parse_ai_action kill9 ai_action_zero =
    Some (Some \<lparr>a_type = AI_ACTION_KILL, a_pid = 9, a_reason = ''spins'', a_message = []\<rparr>)"
  unfolding kill9_def by code_simp

text \<open>The pattern \<open>"pid":\<close> has six characters, seven are skipped: without a space before the number its first digit
  is lost. After an empty reason the text behind its quotes is taken.\<close>

lemma pid_digit_lost:
  \<open>map_option (map_option a_pid) (parse_ai_action ''{"type": "kill", "pid":57}'' ai_action_zero) = Some (Some 7)\<close>
  by code_simp

lemma empty_reason_misread:
  \<open>map_option (map_option a_reason)
     (parse_ai_action ''{"type": "kill", "reason": "", "pid": 5}'' ai_action_zero) = Some (Some '', '')\<close>
  by code_simp

subsection \<open>Properties\<close>

text \<open>C16: How a request of the form \<open>{"type": "<action>", "pid": <pid>, "reason": "<reason>"}\<close> (the form of the strings
  the parser looks for; no document fixes one) is read back: for kill, pause and resume, every pid below \<open>2^31\<close> and
  every reason without quotes it gives that action, that pid and the first 255 characters of the reason
  behind its leading spaces and tabs. A reason that is empty or only blank is misread: its closing quote is skipped and the
  brace behind it is taken.\<close>

theorem parse_request:
  assumes "ty \<noteq> AI_ACTION_ALERT" "n < 2 ^ 31" "CHR 0x22 \<notin> set why"
    and "w = dropWhile (\<lambda>c. c \<in> {CHR 0x20, CHR 0x09}) why"
  shows "parse_ai_action (request (type_word ty) n why) ai_action_zero =
    Some (Some \<lparr>a_type = ty, a_pid = of_nat n, a_reason = (if w = [] then ''}'' else take 255 w), a_message = []\<rparr>)"
proof -
  let ?w = "\<lambda>c. c \<in> {CHR 0x20, CHR 0x09, CHR '':''}"
  have "dropWhile ?w (dec_string n @ us) = dec_string n @ us" for us
    using dec_string_nonempty [of n] isdigit_not by (cases "dec_string n") auto
  moreover have "atoi (dec_string n @ CHR '','' # us) = Some (int n)" for us
    using assms(2) by (intro atoi_dec_string) (simp_all add: isdigit_def)
  moreover have "copy_quoted (CHR 0x22 # why @ [CHR 0x22, CHR ''}'']) = (if w = [] then ''}'' else take 255 w)"
    using copy_quoted_reason [OF assms(3)] unfolding assms(4) Let_def .
  ultimately show ?thesis
    using assms(1) by (simp add: parse_ai_action_def action_type_request [OF assms(3)]
      find_pid_request find_reason_request [OF assms(3)] advance_def ai_action_zero_def)
qed

theorem parse_request_witness:
  \<open>parse_ai_action ''{"type": "pause", "pid": 37, "reason": "too busy"}'' ai_action_zero =
     Some (Some \<lparr>a_type = AI_ACTION_PAUSE, a_pid = 37, a_reason = ''too busy'', a_message = []\<rparr>)\<close>
proof -
  have \<open>request (type_word AI_ACTION_PAUSE) 37 ''too busy'' = ''{"type": "pause", "pid": 37, "reason": "too busy"}''\<close>
    by (simp add: request_def type_word_def) code_simp
  then show ?thesis using parse_request [of AI_ACTION_PAUSE 37 "''too busy''"] by simp
qed

text \<open>C12: What a request to kill, pause or resume does, in every case. Without the user's consent nothing changes. With it, a
  kill of the current task is \<open>task_exit\<close>, and a kill when there is no current task dereferences \<^verbatim>\<open>NULL\<close>. Otherwise
  the first queued task with that pid, lowest priority first, is given the state of the action; no other
  task, no link and no queue changes, all queues stay well formed, and when no queued task has the pid
  nothing changes and that is reported.\<close>

theorem executor_effect:
  assumes "sched_ok s qs" "parse_ai_action json ai_action_zero = Some (Some a)" "a_type a \<noteq> AI_ACTION_ALERT"
    and "marked = (\<lambda>p. s\<lparr>tasks := (tasks s)(p \<mapsto> (the (tasks s p))\<lparr>state := ordered_state (a_type a)\<rparr>)\<rparr>)"
  shows "execute_ai_action c json s =
    (if \<not> confirmed c then Some (asking c a @ [Canceled], s)
     else if a_type a = AI_ACTION_KILL \<and> current_task s = NULL then None
     else if a_type a = AI_ACTION_KILL \<and> map_option pid (tasks s (current_task s)) = Some (a_pid a)
       then map_option (Pair (asking c a)) (task_exit s)
     else case queued_pid s qs (a_pid a) of
         None \<Rightarrow> Some (asking c a @ [Not_found (a_pid a)], s)
       | Some p \<Rightarrow> Some (asking c a @ [report (a_type a) (a_pid a)], marked p)) \<and>
    (\<forall>p. queued_pid s qs (a_pid a) = Some p \<longrightarrow> p \<in> queued qs \<and> sched_ok (marked p) qs)"
proof
  have wf: "sched_wf s qs" using assms(1) by (simp add: sched_ok_def)
  have marked: "mark_queued (a_pid a) (ordered_state (a_type a)) msg s =
      Some (case queued_pid s qs (a_pid a) of None \<Rightarrow> ([Not_found (a_pid a)], s) | Some p \<Rightarrow> ([msg], marked p))" for msg
    using mark_queued_effect [OF assms(1), of "a_pid a" "ordered_state (a_type a)" msg]
    by (auto simp: assms(4) split: option.splits)
  have cur: "tasks s (current_task s) = None \<longleftrightarrow> current_task s = NULL"
    using assms(1) sched_wf_null [OF wf] by (auto simp: sched_ok_def)
  show "execute_ai_action c json s =
    (if \<not> confirmed c then Some (asking c a @ [Canceled], s)
     else if a_type a = AI_ACTION_KILL \<and> current_task s = NULL then None
     else if a_type a = AI_ACTION_KILL \<and> map_option pid (tasks s (current_task s)) = Some (a_pid a)
       then map_option (Pair (asking c a)) (task_exit s)
     else case queued_pid s qs (a_pid a) of
         None \<Rightarrow> Some (asking c a @ [Not_found (a_pid a)], s)
       | Some p \<Rightarrow> Some (asking c a @ [report (a_type a) (a_pid a)], marked p))"
  proof (cases "a_type a = AI_ACTION_KILL")
    case True
    then show ?thesis
      using marked cur execute_unfold [OF assms(2,3), of c s]
      by (cases "tasks s (current_task s)")
        (simp_all add: kill_task_cases option.map_comp comp_def map_option_case split: option.splits)
  next
    case False
    then show ?thesis using marked execute_unfold [OF assms(2,3), of c s] by (simp split: option.splits)
  qed
  show "\<forall>p. queued_pid s qs (a_pid a) = Some p \<longrightarrow> p \<in> queued qs \<and> sched_ok (marked p) qs"
    using queued_pidD(1) [OF wf] mark_queued_effect [OF assms(1), of "a_pid a" "ordered_state (a_type a)" Canceled]
    by (auto simp: assms(4))
qed

theorem executor_effect_witness:
  "\<exists>s s' b u out. tasks s b = Some u \<and> pid u = 9 \<and>
     execute_ai_action (CHR ''y'') kill9 s = Some (out, s') \<and> map_option state (tasks s' b) = Some TASK_ZOMBIE"
proof -
  obtain s a b t u where s: "sched_ok s ((replicate 16 [])[0 := [a], 5 := [b]])" "current_task s = a" "a \<noteq> NULL"
    "a \<noteq> b" "tasks s a = Some t" "pid t = 0" "time_slice t \<noteq> 1" "tasks s b = Some u" "pid u = 9" by (rule two_tasks)
  have "confirmed (CHR ''y'')" by (simp add: confirmed_def)
  then show ?thesis
    using executor_effect [OF s(1) kill9_parsed _ refl, of "CHR ''y''"] s queued_pid_two [OF s(5,6,8,9)]
    by (intro exI [of _ s] exI [of _ "s\<lparr>tasks := (tasks s)(b \<mapsto> u\<lparr>state := TASK_ZOMBIE\<rparr>)\<rparr>"] exI [of _ b] exI [of _ u])
      (auto simp: ordered_state_def)
qed

text \<open>C14: Killing or pausing a task that waits for the processor does not keep it from running. The task
  stays in its queue and the scheduler never looks at the state of a queued task: when it is
  the next to run, the next call of \<open>schedule\<close> marks it running and switches to it.\<close>

theorem killed_task_runs:
  assumes "sched_ok s qs" "current_task s \<noteq> NULL" "tasks s (current_task s) = Some t" "time_slice t \<noteq> 1"
    and "k < 16" "qs ! k = p # ps" "\<forall>j. k < j \<and> j < 16 \<longrightarrow> qs ! j = []" "p \<noteq> current_task s"
    and "parse_ai_action json ai_action_zero = Some (Some a)" "a_type a \<in> {AI_ACTION_KILL, AI_ACTION_PAUSE}"
    and "queued_pid s qs (a_pid a) = Some p" "pid t \<noteq> a_pid a" "confirmed c"
  shows "\<exists>out s1 s2 u. execute_ai_action c json s = Some (out, s1) \<and>
    map_option state (tasks s1 p) \<in> {Some TASK_ZOMBIE, Some TASK_BLOCKED} \<and>
    schedule s1 = Some s2 \<and> current_task s2 = p \<and> tasks s2 p = Some u \<and> state u = TASK_RUNNING"
proof -
  obtain v s1 where s1: "execute_ai_action c json s = Some (asking c a @ [report (a_type a) (a_pid a)], s1)"
    "s1 = s\<lparr>tasks := (tasks s)(p \<mapsto> v\<lparr>state := ordered_state (a_type a)\<rparr>)\<rparr>" "sched_ok s1 qs"
    using execute_confirmed [OF assms(1,9), of c] assms(3,10-13) by auto
  have cur: "current_task s1 \<noteq> NULL" "tasks s1 (current_task s1) = Some t"
    using assms(2,3,8) by (auto simp: s1(2))
  have ch: "charged (current_task s1) t qs = qs" using charged_queued(3) [OF s1(3) cur(2) assms(4)] .
  obtain s2 u where "schedule s1 = Some s2" "current_task s2 = p" "tasks s2 p = Some u" "state u = TASK_RUNNING"
    by (rule schedule_takes [OF s1(3) cur assms(5), of p ps]) (use assms(6,7) ch in auto)
  moreover have "map_option state (tasks s1 p) = Some (ordered_state (a_type a))" by (simp add: s1(2))
  ultimately show ?thesis using s1(1) assms(10) by (auto simp: ordered_state_def)
qed

theorem killed_task_runs_witness:
  "\<exists>s b u out s1 s2. tasks s b = Some u \<and> pid u = 9 \<and> execute_ai_action (CHR ''y'') kill9 s = Some (out, s1) \<and>
     schedule s1 = Some s2 \<and> current_task s2 = b"
proof -
  obtain s a b t u where s: "sched_ok s ((replicate 16 [])[0 := [a], 5 := [b]])" "current_task s = a" "a \<noteq> NULL"
    "a \<noteq> b" "tasks s a = Some t" "pid t = 0" "time_slice t \<noteq> 1" "tasks s b = Some u" "pid u = 9" by (rule two_tasks)
  have "confirmed (CHR ''y'')" by (simp add: confirmed_def)
  then show ?thesis
    using killed_task_runs [OF s(1) _ _ s(7) _ _ _ _ kill9_parsed, of 5 b "[]" "CHR ''y''"] s
      queued_pid_two [OF s(5,6,8,9)] by (simp add: nth_list_update) blast
qed

end
