(* ===== verification/Procfs.thy ===== *)
theory Procfs
  imports Executor Kprintf
begin

text \<open>
  The process information files, \<^verbatim>\<open>kernel/proc/procfs.c\<close>: texts that \<^verbatim>\<open>snprintf\<close> puts together from the
  tasks of the scheduler, and reading a window of such a text.

  A text under construction is the list of the bytes put down so far, its length the variable \<^verbatim>\<open>offset\<close>
  of the source. \<^verbatim>\<open>get_free_mem_size\<close> is not in the sources: its value is an argument. What the buffer
  holds behind the text is not defined, so a read that goes there has no value.
\<close>

unbundle bit_operations_syntax

subsection \<open>Putting texts together\<close>

text \<open>\<open>offset += snprintf(buf + offset, buf_size - offset, ...)\<close>.\<close>

definition append_text :: "u32 \<Rightarrow> u8 list \<Rightarrow> fmt_arg list \<Rightarrow> u8 list \<Rightarrow> u8 list option" where
  "append_text buf_size format args out =
     do { t \<leftarrow> snprintf (buf_size - of_nat (length out)) format args; Some (out @ t) }"

text \<open>A line; a line of columns, each with a tab behind it.\<close>

definition text_line :: "string \<Rightarrow> u8 list" where "text_line s = map ch s @ [10]"

definition columns :: "string list \<Rightarrow> u8 list" where
  "columns texts = concat (map (\<lambda>s. map ch s @ [9]) texts) @ [10]"

definition state_str :: "task_state \<Rightarrow> u8 list" where
  "state_str st = map ch (case st of TASK_READY \<Rightarrow> ''READY'' | TASK_RUNNING \<Rightarrow> ''RUNNING''
     | TASK_BLOCKED \<Rightarrow> ''BLOCKED'' | TASK_ZOMBIE \<Rightarrow> ''ZOMBIE'')"

fun append_lines :: "u32 \<Rightarrow> (u8 list \<times> fmt_arg list) list \<Rightarrow> u8 list \<Rightarrow> u8 list option" where
  "append_lines n [] out = Some out"
| "append_lines n ((f, args) # ls) out = do { out \<leftarrow> append_text n f args out; append_lines n ls out }"

subsection \<open>The files\<close>

definition generate_proc_loadavg_content :: "u32 \<Rightarrow> sched \<Rightarrow> u8 list option" where
  "generate_proc_loadavg_content n s = do {
     p \<leftarrow> (if current_task s \<noteq> NULL then map_option Sched.pid (tasks s (current_task s)) else Some 0);
     append_text n (text_line ''0.10 0.20 0.30 1/1 %d'') [Word_arg p] [] }"

definition generate_proc_meminfo_content :: "u32 \<Rightarrow> u32 \<Rightarrow> u8 list option" where
  "generate_proc_meminfo_content free_mem n =
     (let total_mem = 32 * 1024 * 1024; used_mem = total_mem - free_mem
      in append_lines n
        [(text_line ''MemTotal:     %d kB'', [Word_arg (total_mem div 1024)]),
         (text_line ''MemFree:      %d kB'', [Word_arg (free_mem div 1024)]),
         (text_line ''MemUsed:      %d kB'', [Word_arg (used_mem div 1024)]),
         ([10] @ text_line ''Buddy Allocator Fragmentation:'', []),
         (text_line ''  Level 0: 10%%'', []), (text_line ''  Level 1: 15%%'', []),
         (text_line ''  Level 2: 8%%'', []), (text_line ''  Level 3: 5%%'', [])] [])"

definition generate_proc_pid_fd_content :: "u32 \<Rightarrow> u32 \<Rightarrow> u8 list option" where
  "generate_proc_pid_fd_content p n = append_text n (text_line ''0'' @ text_line ''1'' @ text_line ''2'') [] []"

text \<open>One task of the list.\<close>

definition append_task :: "u32 \<Rightarrow> task \<Rightarrow> u8 list \<Rightarrow> u8 list option" where
  "append_task n t = append_text n (columns [''%d'', ''%s'', ''%s'', ''%d'', ''%d''])
     [Word_arg (Sched.pid t), Str_arg (Some (state_str (Sched.state t))), Str_arg (Some (map ch (Sched.name t))),
      Word_arg (Sched.priority t), Word_arg (total_runtime t)]"

text \<open>The tasks of a queue; the flag says that the function has returned because the buffer is full.\<close>

partial_function (option) append_queue :: "(addr \<rightharpoonup> task) \<Rightarrow> u32 \<Rightarrow> addr \<Rightarrow> u8 list \<Rightarrow> (bool \<times> u8 list) option" where
  "append_queue ts n p out =
     (if p = NULL then Some (False, out)
      else do {
        t \<leftarrow> ts p;
        out \<leftarrow> append_task n t out;
        if of_nat (length out) \<ge> n then Some (True, out) else append_queue ts n (sibling_next t) out })"

fun append_queues :: "(addr \<rightharpoonup> task) \<Rightarrow> u32 \<Rightarrow> addr list \<Rightarrow> u8 list \<Rightarrow> u8 list option" where
  "append_queues ts n [] out = Some out"
| "append_queues ts n (q # qs) out = do {
     (full, out) \<leftarrow> append_queue ts n q out;
     if full then Some out else append_queues ts n qs out }"

definition generate_proc_ps_content :: "u32 \<Rightarrow> sched \<Rightarrow> u8 list option" where
  "generate_proc_ps_content n s = do {
     out \<leftarrow> append_text n (columns [''PID'', ''STATE'', ''NAME'', ''PRIORITY'', ''TIME'']) [] [];
     if of_nat (length out) \<ge> n then Some out
     else do {
       out \<leftarrow> (if current_task s \<noteq> NULL
               then do { t \<leftarrow> tasks s (current_task s); append_task n t out } else Some out);
       if current_task s \<noteq> NULL \<and> of_nat (length out) \<ge> n then Some out
       else append_queues (tasks s) n (map (\<lambda>i. ready_queue s ! i) [0..<unat MAX_PRIORITY]) out } }"

definition status_task :: "u32 \<Rightarrow> sched \<Rightarrow> addr option" where
  "status_task p s = do {
     cur \<leftarrow> (if current_task s \<noteq> NULL
             then do { t \<leftarrow> tasks s (current_task s); Some (Sched.pid t = p) } else Some False);
     if cur then Some (current_task s)
     else search_queues (map (\<lambda>i. ready_queue s ! i) [0..<unat MAX_PRIORITY]) (tasks s) p }"

definition generate_proc_pid_status_content :: "u32 \<Rightarrow> u32 \<Rightarrow> sched \<Rightarrow> u8 list option" where
  "generate_proc_pid_status_content p n s = do {
     a \<leftarrow> status_task p s;
     if a = NULL then append_text n (text_line ''Process %d not found'') [Word_arg p] []
     else do {
       t \<leftarrow> tasks s a;
       up \<leftarrow> (if parent t \<noteq> NULL then map_option Sched.pid (tasks s (parent t)) else Some 0);
       append_lines n
         [(text_line ''Process Information'', []),
          (text_line ''PID: %d'', [Word_arg (Sched.pid t)]),
          (text_line ''State: %s'', [Str_arg (Some (state_str (Sched.state t)))]),
          (text_line ''Priority: %d'', [Word_arg (Sched.priority t)]),
          (text_line ''Total Time: %d'', [Word_arg (total_runtime t)]),
          (text_line ''Parent PID: %d'', [Word_arg up]),
          (text_line ''Page Directory: 0x%x'', [Word_arg (Sched.page_dir t)]),
          (text_line ''Kernel ESP: 0x%x'', [Word_arg (kernel_stack_top t)]),
          (text_line ''User ESP: 0x%x'', [Word_arg (user_stack_top t)])] [] } }"

subsection \<open>Reading\<close>

text \<open>The bytes copied to the caller; the return value is their number. The comparisons are unsigned.\<close>

definition read_window :: "u8 list \<Rightarrow> u32 \<Rightarrow> u32 \<Rightarrow> u8 list option" where
  "read_window content count offset =
     (let content_size = of_nat (length content)
      in if offset \<ge> content_size then Some []
         else let read_size = (if offset + count > content_size then content_size - offset else count)
              in if unat offset + unat read_size \<le> length content
                 then Some (take (unat read_size) (drop (unat offset) content)) else None)"

definition proc_read_ps :: "sched \<Rightarrow> u32 \<Rightarrow> u32 \<Rightarrow> u8 list option" where
  "proc_read_ps s count offset = do { c \<leftarrow> generate_proc_ps_content 1024 s; read_window c count offset }"

definition proc_read_pid_status :: "u32 \<Rightarrow> sched \<Rightarrow> u32 \<Rightarrow> u32 \<Rightarrow> u8 list option" where
  "proc_read_pid_status inode_no s count offset =
     do { c \<leftarrow> generate_proc_pid_status_content inode_no 1024 s; read_window c count offset }"

definition proc_read_loadavg :: "sched \<Rightarrow> u32 \<Rightarrow> u32 \<Rightarrow> u8 list option" where
  "proc_read_loadavg s count offset = do { c \<leftarrow> generate_proc_loadavg_content 128 s; read_window c count offset }"

definition proc_read_meminfo :: "u32 \<Rightarrow> u32 \<Rightarrow> u32 \<Rightarrow> u8 list option" where
  "proc_read_meminfo free_mem count offset =
     do { c \<leftarrow> generate_proc_meminfo_content free_mem 1024; read_window c count offset }"

definition proc_read_pid_fd :: "u32 \<Rightarrow> u32 \<Rightarrow> u32 \<Rightarrow> u8 list option" where
  "proc_read_pid_fd inode_no count offset =
     do { c \<leftarrow> generate_proc_pid_fd_content inode_no 128; read_window c count offset }"

subsection \<open>Truncation\<close>

text \<open>A buffer of \<open>n\<close> bytes always holds the first \<open>n - 1\<close> bytes of the whole text.\<close>

definition trunc :: "u32 \<Rightarrow> u8 list \<Rightarrow> u8 list" where
  "trunc n xs = take (unat n - 1) xs"

lemma length_trunc: "n \<noteq> 0 \<Longrightarrow> length (trunc n xs) < unat n"
  by (auto simp: trunc_def min_def unat_gt_0 [symmetric])

lemma trunc_append: "trunc n xs @ take (unat n - 1 - length (trunc n xs)) ys = trunc n (xs @ ys)"
  by (cases "length xs \<le> unat n - 1") (simp_all add: trunc_def min_def)

lemma trunc_not_full: "n \<noteq> 0 \<Longrightarrow> \<not> of_nat (length (trunc n xs)) \<ge> n"
  using length_trunc [of n xs] unat_u32_less [of n]
  by (simp add: not_le word_less_nat_alt unat_of_nat_small)

lemma append_text_trunc:
  assumes "n \<noteq> 0" "render format args = Some r"
  shows "append_text n format args (trunc n xs) = Some (trunc n (xs @ r))"
proof -
  let ?l = "length (trunc n xs)"
  have l: "?l < unat n" "unat (of_nat ?l :: u32) = ?l"
    using length_trunc [OF assms(1), of xs] unat_u32_less [of n] by (simp_all add: unat_of_nat_small)
  have "unat (n - of_nat ?l) = unat n - ?l"
    using l by (simp add: unat_minus_le word_le_nat_alt)
  moreover have "n - of_nat ?l \<noteq> 0" using calculation l(1) by (metis unat_0 zero_less_diff less_irrefl)
  ultimately have "unat (n - of_nat ?l - 1) = unat n - 1 - ?l" by (simp add: unat_minus_one)
  then have "snprintf (n - of_nat ?l) format args = Some (take (unat n - 1 - ?l) r)"
    using snprintf_format_take [OF assms(2), of "[]"] by (simp add: snprintf_def)
  then show ?thesis using trunc_append [of n xs r] by (simp add: append_text_def)
qed

lemma append_text_first: "n \<noteq> 0 \<Longrightarrow> render format args = Some r \<Longrightarrow> append_text n format args [] = Some (trunc n r)"
  using append_text_trunc [of n format args r "[]"] by (simp add: trunc_def)

text \<open>The texts of the list.\<close>

definition dec :: "u32 \<Rightarrow> u8 list" where "dec v = the (dec_text v)"

definition printable :: "u32 \<Rightarrow> bool" where "printable v \<longleftrightarrow> sint v \<noteq> - (2 ^ 31)"

lemma dec_text_dec: "printable v \<Longrightarrow> dec_text v = Some (dec v)"
  by (simp add: printable_def dec_def dec_text_def Let_def)

definition task_text :: "task \<Rightarrow> u8 list" where
  "task_text t = dec (Sched.pid t) @ [9] @ state_str (Sched.state t) @ [9] @ map ch (Sched.name t) @ [9] @
     dec (Sched.priority t) @ [9] @ dec (total_runtime t) @ [9, 10]"

definition ps_header :: "u8 list" where
  "ps_header = columns [''PID'', ''STATE'', ''NAME'', ''PRIORITY'', ''TIME'']"

lemma render_header: "render ps_header [] = Some ps_header"
  unfolding ps_header_def by code_simp

lemma render_task:
  assumes "printable (Sched.pid t)" "printable (Sched.priority t)" "printable (total_runtime t)"
  shows "render (columns [''%d'', ''%s'', ''%s'', ''%d'', ''%d''])
     [Word_arg (Sched.pid t), Str_arg (Some (state_str (Sched.state t))), Str_arg (Some (map ch (Sched.name t))),
      Word_arg (Sched.priority t), Word_arg (total_runtime t)] = Some (task_text t)"
  using assms
  by (simp add: columns_def conv_text_def ch_def dec_text_dec str_text_def task_text_def)

definition task_printable :: "task \<Rightarrow> bool" where
  "task_printable t \<longleftrightarrow> printable (Sched.pid t) \<and> printable (Sched.priority t) \<and> printable (total_runtime t)"

lemma append_task_trunc:
  "n \<noteq> 0 \<Longrightarrow> task_printable t \<Longrightarrow> append_task n t (trunc n xs) = Some (trunc n (xs @ task_text t))"
  unfolding append_task_def task_printable_def using render_task append_text_trunc by blast

definition text_of :: "(addr \<rightharpoonup> task) \<Rightarrow> addr list \<Rightarrow> u8 list" where
  "text_of ts ps = concat (map (\<lambda>p. case ts p of None \<Rightarrow> [] | Some t \<Rightarrow> task_text t) ps)"

lemma append_queue_text:
  assumes "linked (\<lambda>p. map_option sibling_next (ts p)) p ps" "\<forall>q \<in> set ps. \<exists>t. ts q = Some t \<and> task_printable t" "n \<noteq> 0"
  shows "append_queue ts n p (trunc n xs) = Some (False, trunc n (xs @ text_of ts ps))"
  using assms
proof (induction ps arbitrary: p xs)
  case Nil
  then show ?case by (simp add: append_queue.simps text_of_def)
next
  case (Cons q ps)
  then obtain t where t: "ts q = Some t" "task_printable t" by auto
  then show ?case
    using Cons trunc_not_full [OF Cons.prems(3)]
    by (subst append_queue.simps) (auto simp: append_task_trunc text_of_def)
qed

lemma append_queues_text:
  assumes "list_all2 (linked (\<lambda>p. map_option sibling_next (ts p))) hs qs"
    and "\<forall>q \<in> set (concat qs). \<exists>t. ts q = Some t \<and> task_printable t" "n \<noteq> 0"
  shows "append_queues ts n hs (trunc n xs) = Some (trunc n (xs @ text_of ts (concat qs)))"
  using assms
proof (induction arbitrary: xs rule: list_all2_induct)
  case Nil
  then show ?case by (simp add: text_of_def)
next
  case (Cons h hs ps qs)
  then show ?case by (auto simp: append_queue_text text_of_def)
qed

text \<open>The whole list: the current task and all queued ones (the current one again when it is queued).\<close>

definition ps_text :: "sched \<Rightarrow> addr list list \<Rightarrow> u8 list" where
  "ps_text s qs = ps_header @ text_of (tasks s) ((if current_task s = NULL then [] else [current_task s]) @ concat qs)"

lemma generate_ps:
  assumes "sched_ok s qs" "\<forall>t \<in> ran (tasks s). task_printable t" "n \<noteq> 0"
  shows "generate_proc_ps_content n s = Some (trunc n (ps_text s qs))"
proof -
  have wf: "sched_wf s qs" using assms(1) by (simp add: sched_ok_def)
  have "\<forall>q \<in> set (concat qs). \<exists>t. tasks s q = Some t \<and> task_printable t"
    using queues_linked(2) [OF wf] assms(2) by (metis ranI)
  then have q: "append_queues (tasks s) n (map (\<lambda>i. ready_queue s ! i) [0..<unat MAX_PRIORITY]) (trunc n xs) =
      Some (trunc n (xs @ text_of (tasks s) (concat qs)))" for xs
    using queues_linked(1) [OF wf] assms(3) by (intro append_queues_text)
  have h: "append_text n ps_header [] [] = Some (trunc n ps_header)"
    using append_text_first [OF assms(3) render_header] .
  show ?thesis
  proof (cases "current_task s = NULL")
    case True
    then show ?thesis
      unfolding generate_proc_ps_content_def ps_header_def [symmetric] h
      using q trunc_not_full [OF assms(3)] by (simp add: ps_text_def)
  next
    case False
    then obtain t where t: "tasks s (current_task s) = Some t" "task_printable t"
      using assms(1,2) by (auto simp: sched_ok_def ran_def)
    show ?thesis
      unfolding generate_proc_ps_content_def ps_header_def [symmetric] h
      using False t q trunc_not_full [OF assms(3)] assms(3) by (simp add: ps_text_def append_task_trunc text_of_def)
  qed
qed

lemma read_window_take:
  assumes "length c < 2 ^ 32" "unat offset + unat count < 2 ^ 32"
  shows "read_window c count offset = Some (take (unat count) (drop (unat offset) c))"
proof -
  let ?n = "of_nat (length c) :: u32"
  have n: "unat ?n = length c" using assms(1) by (rule unat_of_nat_small)
  have e: "unat (offset + count) = unat offset + unat count" using assms(2) by (rule unat_plus_small)
  have le: "offset \<ge> ?n \<longleftrightarrow> length c \<le> unat offset" "offset + count > ?n \<longleftrightarrow> length c < unat offset + unat count"
    by (simp_all add: word_le_nat_alt word_less_nat_alt n e)
  show ?thesis
  proof (cases "length c \<le> unat offset")
    case True
    then show ?thesis unfolding read_window_def Let_def le by simp
  next
    case False
    then have "unat (?n - offset) = length c - unat offset"
      using unat_minus_le [of offset ?n] n by (simp add: word_le_nat_alt)
    then show ?thesis using False unfolding read_window_def Let_def le by simp
  qed
qed

lemma read_window_behind: "length c < 2 ^ 32 \<Longrightarrow> length c \<le> unat offset \<Longrightarrow> read_window c count offset = Some []"
  using unat_of_nat_small [of "length c"] by (simp add: read_window_def word_le_nat_alt)

text \<open>The sum of offset and count is not checked for wrap-around: then it is less than the offset and the bytes
  behind the contents are read.\<close>

lemma read_window_wraps:
  assumes "length c < 2 ^ 32" "2 ^ 32 \<le> unat offset + unat count" "unat offset < length c"
  shows "read_window c count offset = None"
proof -
  let ?n = "of_nat (length c) :: u32"
  have n: "unat ?n = length c" using assms(1) by (rule unat_of_nat_small)
  have "unat count < 2 ^ 32" "unat offset < 2 ^ 32" by (rule unat_u32_less)+
  then have "unat (offset + count) = unat offset + unat count - 2 ^ 32"
    using assms(2) by (simp add: unat_word_ariths mod_if)
  then have "\<not> offset + count > ?n" "\<not> offset \<ge> ?n"
    using assms \<open>unat count < 2 ^ 32\<close> by (simp_all add: word_less_nat_alt word_le_nat_alt n)
  then show ?thesis using assms by (simp add: read_window_def Let_def)
qed

text \<open>\<open>%x\<close> prints the prefix that the formats of the status file have already.\<close>

lemma status_prefix_twice:
  "render (text_line ''Kernel ESP: 0x%x'') [Word_arg v] = Some (map ch ''Kernel ESP: 0x0x'' @ hex_text v @ [10])"
  by (simp add: text_line_def conv_text_def ch_def)

subsection \<open>Properties\<close>

text \<open>C24: Reading \<^verbatim>\<open>/proc/ps\<close>. In a well-formed scheduler with no number \<open>0x80000000\<close> (whose negation overflows in \<^verbatim>\<open>%d\<close>) the file is the header and a line
  for the current task and every queued one, in the order of the queues, cut at 1023 bytes (a task that is neither
  current nor queued is not listed). A read gives exactly the part of it that offset and count name, nothing when
  the offset is behind its end, except when the offset is inside and its sum with the count wraps around: then
  the copy runs over the end of the buffer.\<close>

theorem proc_ps_window:
  assumes "sched_ok s qs" "\<forall>t \<in> ran (tasks s). task_printable t"
  shows "let txt = take 1023 (ps_text s qs) in proc_read_ps s count offset =
    (if unat offset < length txt \<and> 2 ^ 32 \<le> unat offset + unat count then None
     else Some (take (unat count) (drop (unat offset) txt)))"
proof -
  let ?t = "take 1023 (ps_text s qs)"
  have g: "generate_proc_ps_content 1024 s = Some ?t"
    using generate_ps [OF assms(1,2), of 1024] by (simp add: trunc_def)
  have l: "length ?t < 2 ^ 32" by simp
  have w: "read_window ?t count offset =
    (if unat offset < length ?t \<and> 2 ^ 32 \<le> unat offset + unat count then None
     else Some (take (unat count) (drop (unat offset) ?t)))"
    using read_window_take [OF l, of offset count] read_window_wraps [OF l, of offset count]
      read_window_behind [OF l, of offset count] by (simp add: not_less not_le)
  show ?thesis unfolding Let_def proc_read_ps_def g using w by simp
qed

text \<open>A single running task, as it is listed behind the 30 bytes of the header.\<close>

definition init7 :: "task \<Rightarrow> task" where
  "init7 t = t\<lparr>pid := 7, state := TASK_RUNNING, total_runtime := 12, name := ''init''\<rparr>"

definition init7_line :: "u8 list" where
  "init7_line = map ch ''7'' @ [9] @ map ch ''RUNNING'' @ [9] @ map ch ''init'' @ [9] @ map ch ''5'' @ [9] @ map ch ''12'' @ [9, 10]"

lemma init7_text: "Sched.priority t = 5 \<Longrightarrow> task_text (init7 t) = init7_line"
proof -
  have "dec 7 = map ch ''7''" "dec 5 = map ch ''5''" "dec 12 = map ch ''12''" by code_simp+
  then show "Sched.priority t = 5 \<Longrightarrow> task_text (init7 t) = init7_line"
    by (simp add: task_text_def init7_def init7_line_def state_str_def)
qed

theorem proc_ps_window_witness:
  "\<exists>s c t. tasks s = [c \<mapsto> init7 t] \<and> proc_read_ps s 100 30 = Some init7_line"
proof -
  obtain s c t where s: "sched_ok s (replicate 16 [])" "current_task s = c" "c \<noteq> NULL" "tasks s = [c \<mapsto> t]"
    "time_slice t = 1" "Sched.priority t = 5" "Sched.page_dir t \<in> kheap_live (Sched.heap s)" "Sched.page_dir t \<noteq> c"
    "Sched.page_dir t \<noteq> NULL" "Sched.page_dir t \<noteq> Sched.kernel_dir s" by (rule lone_task)
  let ?s = "s\<lparr>tasks := (tasks s)(c \<mapsto> init7 t)\<rparr>"
  have "sched_wf ?s (replicate 16 [])"
    using s by (intro sched_wf_mod [of _ _ _ t]) (auto simp: sched_ok_def init7_def)
  then have ok: "sched_ok ?s (replicate 16 [])" using s by (auto simp: sched_ok_def queued_def)
  have "printable 7" "printable 5" "printable 12" by code_simp+
  then have "\<forall>u \<in> ran (tasks ?s). task_printable u" using s(4,6) by (simp add: task_printable_def init7_def)
  from proc_ps_window [OF ok this, of 100 30]
  have "proc_read_ps ?s 100 30 = Some (take 100 (drop 30 (take 1023 (ps_text ?s (replicate 16 [])))))" by simp
  moreover have "concat (replicate 16 ([] :: addr list)) = []" by simp
  then have "ps_text ?s (replicate 16 []) = ps_header @ init7_line"
    using s(2-4,6) by (simp add: ps_text_def text_of_def init7_text)
  moreover have "take 100 (drop 30 (take 1023 (ps_header @ init7_line))) = init7_line"
    unfolding ps_header_def init7_line_def by code_simp
  ultimately show ?thesis using s(4) by (intro exI [of _ ?s] exI [of _ c] exI [of _ t]) simp
qed

end
