(* ===== verification/Fs_Tables.thy ===== *)
theory Fs_Tables
  imports Procfs
begin

text \<open>
  The tables of file operations: \<^verbatim>\<open>fs_operations_t\<close> of \<^verbatim>\<open>include/fs.h\<close>, the table of TmpFS, those of the
  process files, and the list of the mount points (\<^verbatim>\<open>kernel/fs/tmpfs.c\<close>, \<^verbatim>\<open>kernel/proc/procfs.c\<close>).

  A pointer to a function is an optional function on the state, \<open>None\<close> the null pointer. The reads of the
  process files put their window into the memory of the caller.
\<close>

subsection \<open>The tables\<close>

record 's fs_operations =
  op_create :: "(string \<Rightarrow> u8 \<Rightarrow> u32 \<Rightarrow> 's \<Rightarrow> (addr \<times> 's) option) option"
  op_open :: "(string \<Rightarrow> 's \<Rightarrow> addr option) option"
  op_close :: "(addr \<Rightarrow> int) option"
  op_read :: "(addr \<Rightarrow> addr \<Rightarrow> u32 \<Rightarrow> u32 \<Rightarrow> 's \<Rightarrow> (int \<times> 's) option) option"
  op_write :: "(addr \<Rightarrow> addr \<Rightarrow> u32 \<Rightarrow> u32 \<Rightarrow> 's \<Rightarrow> (int \<times> 's) option) option"
  op_unlink :: "(string \<Rightarrow> 's \<Rightarrow> (int \<times> 's) option) option"
  op_mkdir :: "(string \<Rightarrow> u32 \<Rightarrow> 's \<Rightarrow> (int \<times> 's) option) option"
  op_rmdir :: "(string \<Rightarrow> 's \<Rightarrow> (int \<times> 's) option) option"
  op_readdir :: "(string \<Rightarrow> addr \<Rightarrow> u32 \<Rightarrow> 's \<Rightarrow> (int \<times> 's) option) option"
  op_rename :: "(string \<Rightarrow> string \<Rightarrow> int) option"

definition tmpfs_ops :: "tmpfs fs_operations" where
  "tmpfs_ops = \<lparr>op_create = Some tmpfs_create, op_open = Some tmpfs_open, op_close = Some tmpfs_close,
     op_read = Some tmpfs_read, op_write = Some tmpfs_write, op_unlink = Some tmpfs_unlink, op_mkdir = Some tmpfs_mkdir,
     op_rmdir = Some tmpfs_rmdir, op_readdir = Some tmpfs_readdir, op_rename = Some tmpfs_rename\<rparr>"

text \<open>A window of the generated text goes to the caller's buffer.\<close>

definition deliver :: "addr \<Rightarrow> u8 list \<Rightarrow> sched \<times> tmpfs \<Rightarrow> int \<times> sched \<times> tmpfs" where
  "deliver buf w s = (int (length w), fst s, (snd s)\<lparr>tbytes := store_bytes buf w (tbytes (snd s))\<rparr>)"

definition read_ps :: "addr \<Rightarrow> addr \<Rightarrow> u32 \<Rightarrow> u32 \<Rightarrow> sched \<times> tmpfs \<Rightarrow> (int \<times> sched \<times> tmpfs) option" where
  "read_ps ino buf count offset s = do { w \<leftarrow> proc_read_ps (fst s) count offset; Some (deliver buf w s) }"

definition read_pid_status :: "addr \<Rightarrow> addr \<Rightarrow> u32 \<Rightarrow> u32 \<Rightarrow> sched \<times> tmpfs \<Rightarrow> (int \<times> sched \<times> tmpfs) option" where
  "read_pid_status ino buf count offset s = do {
     n \<leftarrow> tnodes (snd s) ino;
     w \<leftarrow> proc_read_pid_status (t_inode n) (fst s) count offset;
     Some (deliver buf w s) }"

definition get_procfs_ops :: "(sched \<times> tmpfs) fs_operations" where
  "get_procfs_ops = \<lparr>op_create = None, op_open = None, op_close = None, op_read = Some read_ps, op_write = None,
     op_unlink = None, op_mkdir = None, op_rmdir = None, op_readdir = None, op_rename = None\<rparr>"

definition get_proc_pid_ops :: "(sched \<times> tmpfs) fs_operations" where
  "get_proc_pid_ops = \<lparr>op_create = None, op_open = None, op_close = None, op_read = Some read_pid_status, op_write = None,
     op_unlink = None, op_mkdir = None, op_rmdir = None, op_readdir = None, op_rename = None\<rparr>"

subsection \<open>Listing the mount points\<close>

text \<open>\<open>i\<close> is the counter of the loop; each line goes through \<open>kprintf\<close> and so to the log, which may change the file
  system, so that the mount points are read again in every turn.\<close>

partial_function (option) list_mounts_from :: "u32 \<Rightarrow> addr \<Rightarrow> nat \<Rightarrow> vga \<times> tmpfs \<Rightarrow> (vga \<times> tmpfs) option" where
  "list_mounts_from flags buf i s =
     (if i < length (mounts (snd s))
      then do {
        r \<leftarrow> kprintf flags buf (map ch ''%s: type %d'' @ [10])
          [Str_arg (Some (map ch (mp_path (mounts (snd s) ! i)))), Word_arg (ucast (mp_type (mounts (snd s) ! i)))] s;
        list_mounts_from flags buf (i + 1) (snd r) }
      else Some s)"

definition list_mount_points :: "u32 \<Rightarrow> addr \<Rightarrow> vga \<times> tmpfs \<Rightarrow> (vga \<times> tmpfs) option" where
  "list_mount_points flags buf s = list_mounts_from flags buf 0 s"

text \<open>Nothing that \<open>kprintf\<close> does mounts or unmounts, so the loop visits every mount point once.\<close>

lemma talloc_mounts: "talloc n s = Some (p, s') \<Longrightarrow> mounts s' = mounts s"
  by (auto simp: talloc_def bind_eq_Some_conv)

lemma tfree_mounts: "tfree p s = Some s' \<Longrightarrow> mounts s' = mounts s"
  by (auto simp: tfree_def bind_eq_Some_conv)

lemma tmpfs_create_mounts: "tmpfs_create path k q s = Some (p, s') \<Longrightarrow> mounts s' = mounts s"
  by (auto simp: tmpfs_create_def Let_def bind_eq_Some_conv split: if_splits dest!: talloc_mounts)

lemma tmpfs_extend_mounts: "tmpfs_extend ino n s = Some (b, s') \<Longrightarrow> mounts s' = mounts s"
  by (auto simp: tmpfs_extend_def bind_eq_Some_conv split: if_splits dest!: talloc_mounts tfree_mounts)

lemma tmpfs_write_mounts: "tmpfs_write ino buf count off s = Some (v, s') \<Longrightarrow> mounts s' = mounts s"
  by (auto simp: tmpfs_write_def bind_eq_Some_conv split: if_splits dest!: tmpfs_extend_mounts)

lemma fs_open_mounts: "fs_open path flags s = Some (fd, s') \<Longrightarrow> mounts s' = mounts s"
  by (auto simp: fs_open_def alloc_file_descriptor_def bind_eq_Some_conv split: if_splits option.splits dest!: tmpfs_create_mounts)

lemma fs_write_mounts: "fs_write fd buf count s = Some (v, s') \<Longrightarrow> mounts s' = mounts s"
  by (auto simp: fs_write_def advance_def Let_def bind_eq_Some_conv split: if_splits dest!: tmpfs_write_mounts)

lemma fs_close_mounts: "mounts (snd (fs_close fd s)) = mounts s"
  by (simp add: fs_close_def)

lemma kprintf_log_mounts:
  assumes "kprintf_log flags buf out g = Some g'"
  shows "mounts g' = mounts g"
proof -
  obtain fd g1 where o: "fs_open ''/dev/log'' flags (g\<lparr>tbytes := store_bytes buf (out @ [0]) (tbytes g)\<rparr>) = Some (fd, g1)"
    "(if 0 \<le> fd then do { (_, g) \<leftarrow> fs_write fd buf (of_nat (length (takeWhile (\<lambda>c. c \<noteq> 0) out))) g1; Some (snd (fs_close fd g)) }
      else Some g1) = Some g'"
    using assms by (auto simp: kprintf_log_def Let_def bind_eq_Some_conv)
  then show ?thesis using fs_open_mounts [OF o(1)]
    by (auto simp: bind_eq_Some_conv fs_close_mounts split: if_splits dest!: fs_write_mounts)
qed

lemma kprintf_mounts: "kprintf flags buf f args s = Some (n, s') \<Longrightarrow> mounts (snd s') = mounts (snd s)"
  by (auto simp: kprintf_def bind_eq_Some_conv split: if_splits dest!: kprintf_log_mounts)

subsection \<open>Files that can only be read\<close>

lemma store_bytes_at: "k < length w \<Longrightarrow> length w < 2 ^ 32 \<Longrightarrow> store_bytes buf w m (buf + of_nat k) = w ! k"
  using unat_of_nat_small [of k] by (simp add: store_bytes_def)

text \<open>Reading through the table copies exactly the window that \<open>proc_read_ps\<close> gives, and nothing else.\<close>

lemma table_read_ps:
  assumes "op_read get_procfs_ops = Some f" "proc_read_ps s count offset = Some w" "length w < 2 ^ 32"
  shows "\<exists>g'. f ino buf count offset (s, g) = Some (int (length w), s, g') \<and>
    map (\<lambda>k. tbytes g' (buf + of_nat k)) [0..<length w] = w \<and>
    (\<forall>a. length w \<le> unat (a - buf) \<longrightarrow> tbytes g' a = tbytes g a) \<and> g' = g\<lparr>tbytes := tbytes g'\<rparr>"
proof -
  have "map (\<lambda>k. store_bytes buf w (tbytes g) (buf + of_nat k)) [0..<length w] = w"
    using store_bytes_at [OF _ assms(3)] by (intro nth_equalityI) auto
  then show ?thesis using assms(1,2)
    by (auto simp: get_procfs_ops_def read_ps_def deliver_def) (simp add: store_bytes_def)
qed

end
