(* ===== verification/Vfs.thy ===== *)
theory Vfs
  imports Ramfs
begin

text \<open>
  The VFS layer, \<^verbatim>\<open>kernel/fs/vfs.c\<close>, and what the ELF loader \<^verbatim>\<open>kernel/loader/elf.c\<close> does on top of it.

  The mount points are a singly linked list of nodes in the store \<open>mounts\<close>; a node owns a second
  heap block that holds its path, the store \<open>paths\<close>. The functions behind \<open>vfs_open\<close> are stubs in
  the source and are modelled as they are.
\<close>

subsection \<open>Mount points\<close>

record mount_point =
  mp_path :: addr
  mp_root :: addr
  mp_fops :: file_operations
  mp_next :: addr

record vfs =
  vheap :: kheap
  mount_points :: addr
  root_inode :: addr
  mounts :: "addr \<rightharpoonup> mount_point"
  paths :: "addr \<rightharpoonup> string"

definition sizeof_mount_point :: u32 where "sizeof_mount_point = 16"

definition vfs_init :: "vfs \<Rightarrow> vfs" where
  "vfs_init s = s\<lparr>mount_points := NULL, root_inode := NULL\<rparr>"

text \<open>The assignment \<open>root_inode = root_inode\<close> under \<open>strcmp(mount_point, "/") == 0\<close> assigns the parameter to itself:
  the parameter hides the global variable.\<close>

definition vfs_mount :: "string \<Rightarrow> string \<Rightarrow> file_operations \<Rightarrow> addr \<Rightarrow> vfs \<Rightarrow> (int \<times> vfs) option" where
  "vfs_mount device path ops root s = do {
     (new_mount, h) \<leftarrow> kmalloc sizeof_mount_point (vheap s);
     let s = s\<lparr>vheap := h\<rparr>;
     if new_mount = NULL then Some (- 1, s)
     else do {
       (str, h) \<leftarrow> kmalloc (of_nat (length path) + 1) (vheap s);
       let s = s\<lparr>vheap := h\<rparr>;
       if str = NULL
       then do { h \<leftarrow> kfree new_mount (vheap s); Some (- 1, s\<lparr>vheap := h\<rparr>) }
       else do {
         let s = s\<lparr>paths := (paths s)(str \<mapsto> path),
           mounts := (mounts s)(new_mount \<mapsto> \<lparr>mp_path = str, mp_root = root, mp_fops = ops, mp_next = mount_points s\<rparr>)\<rparr>;
         Some (0, s\<lparr>mount_points := new_mount\<rparr>) } } }"

text \<open>The loop of \<open>vfs_umount\<close>: \<open>prev\<close> and \<open>current\<close> where it stops.\<close>

partial_function (option) find_mount ::
  "(addr \<rightharpoonup> mount_point) \<Rightarrow> (addr \<rightharpoonup> string) \<Rightarrow> string \<Rightarrow> addr \<Rightarrow> addr \<Rightarrow> (addr \<times> addr) option" where
  "find_mount ms ps path prev current =
     (if current = NULL then Some (prev, NULL)
      else do {
        m \<leftarrow> ms current;
        q \<leftarrow> ps (mp_path m);
        if q = path then Some (prev, current)
        else find_mount ms ps path current (mp_next m) })"

definition vfs_umount :: "string \<Rightarrow> vfs \<Rightarrow> (int \<times> vfs) option" where
  "vfs_umount path s = do {
     (prev, current) \<leftarrow> find_mount (mounts s) (paths s) path NULL (mount_points s);
     if current = NULL then Some (- 1, s)
     else do {
       m \<leftarrow> mounts s current;
       s \<leftarrow> (if prev \<noteq> NULL
             then do { pm \<leftarrow> mounts s prev; Some (s\<lparr>mounts := (mounts s)(prev \<mapsto> pm\<lparr>mp_next := mp_next m\<rparr>)\<rparr>) }
             else Some (s\<lparr>mount_points := mp_next m\<rparr>));
       h \<leftarrow> kfree (mp_path m) (vheap s);
       h \<leftarrow> kfree current h;
       Some (0, s\<lparr>vheap := h, mounts := (mounts s)(current := None), paths := (paths s)(mp_path m := None)\<rparr>) } }"

subsection \<open>Files\<close>

text \<open>The results of the two pointer parameters are part of the result.\<close>

definition vfs_path_resolve :: "string \<Rightarrow> vfs \<Rightarrow> int \<times> addr \<times> addr" where
  "vfs_path_resolve path s = (0, root_inode s, NULL)"

definition vfs_open :: "string \<Rightarrow> int \<Rightarrow> vfs \<Rightarrow> int \<times> addr option" where
  "vfs_open path flags s =
     (let (ret, ino, basename) = vfs_path_resolve path s
      in if ret < 0 then (ret, None) else (0, Some ino))"

definition vfs_close :: "addr \<Rightarrow> int" where "vfs_close i = 0"

text \<open>The buffer is not written: the bytes read are none.\<close>

definition vfs_read :: "addr \<Rightarrow> addr \<Rightarrow> u32 \<Rightarrow> u32 \<Rightarrow> memory \<Rightarrow> int \<times> memory" where
  "vfs_read i buf count offset m = (0, m)"

definition vfs_write :: "addr \<Rightarrow> addr \<Rightarrow> u32 \<Rightarrow> u32 \<Rightarrow> int" where
  "vfs_write i buf count offset = sint count"

definition vfs_create :: "string \<Rightarrow> file_type \<Rightarrow> int" where "vfs_create path ty = 0"
definition vfs_mkdir :: "string \<Rightarrow> int" where "vfs_mkdir path = 0"
definition vfs_rmdir :: "string \<Rightarrow> int" where "vfs_rmdir path = 0"
definition vfs_unlink :: "string \<Rightarrow> int" where "vfs_unlink path = 0"
definition vfs_readdir :: "string \<Rightarrow> addr \<Rightarrow> u32 \<Rightarrow> u32 \<Rightarrow> int" where "vfs_readdir path buf count offset = 0"

subsection \<open>The mount table as a list\<close>

definition mount_entry :: "vfs \<Rightarrow> addr \<rightharpoonup> string \<times> addr \<times> file_operations" where
  "mount_entry s n = do { m \<leftarrow> mounts s n; q \<leftarrow> paths s (mp_path m); Some (q, mp_root m, mp_fops m) }"

definition path_block :: "vfs \<Rightarrow> addr \<Rightarrow> addr" where
  "path_block s n = (case mounts s n of None \<Rightarrow> NULL | Some m \<Rightarrow> mp_path m)"

definition mount_next :: "vfs \<Rightarrow> addr \<rightharpoonup> addr" where
  "mount_next s = (\<lambda>n. map_option mp_next (mounts s n))"

text \<open>\<open>vfs_rep s ns tbl\<close>: the nodes \<open>ns\<close> hold the mount table \<open>tbl\<close>, latest first; they and their paths are different
  live blocks.\<close>

definition vfs_rep :: "vfs \<Rightarrow> addr list \<Rightarrow> (string \<times> addr \<times> file_operations) list \<Rightarrow> bool" where
  "vfs_rep s ns tbl \<longleftrightarrow> kheap_ok (vheap s) \<and> linked (mount_next s) (mount_points s) ns \<and>
     map (mount_entry s) ns = map Some tbl \<and> distinct (ns @ map (path_block s) ns) \<and>
     set ns \<union> path_block s ` set ns \<subseteq> kheap_live (vheap s)"

text \<open>What unmounting does to the table.\<close>

fun remove_mount :: "string \<Rightarrow> (string \<times> 'b) list \<Rightarrow> (string \<times> 'b) list" where
  "remove_mount p [] = []"
| "remove_mount p (e # es) = (if fst e = p then es else e # remove_mount p es)"

lemma vfs_repD:
  assumes "vfs_rep s ns tbl"
  shows "kheap_ok (vheap s)" "linked (mount_next s) (mount_points s) ns"
    "map (mount_entry s) ns = map Some tbl" "distinct ns" "distinct (map (path_block s) ns)"
    "set ns \<inter> path_block s ` set ns = {}" "set ns \<subseteq> kheap_live (vheap s)"
    "path_block s ` set ns \<subseteq> kheap_live (vheap s)"
  using assms by (auto simp: vfs_rep_def)

text \<open>The parts of the representation depend only on the nodes and their paths.\<close>

lemma vfs_rep_cong:
  assumes "vfs_rep s ns tbl" "mount_points s' = mount_points s" "kheap_ok (vheap s')"
    and "kheap_live (vheap s') \<supseteq> set ns \<union> path_block s ` set ns"
    and "\<And>n. n \<in> set ns \<Longrightarrow> mounts s' n = mounts s n" "\<And>n. n \<in> set ns \<Longrightarrow> paths s' (path_block s n) = paths s (path_block s n)"
  shows "vfs_rep s' ns tbl"
proof -
  have b: "path_block s' n = path_block s n" "mount_entry s' n = mount_entry s n" "mount_next s' n = mount_next s n"
    if "n \<in> set ns" for n
    using assms(5,6) [OF that]
    by (cases "mounts s n"; simp add: path_block_def mount_entry_def mount_next_def)+
  then have "linked (mount_next s') (mount_points s) ns = linked (mount_next s) (mount_points s) ns" by (intro linked_cong) auto
  moreover have "map (path_block s') ns = map (path_block s) ns" "map (mount_entry s') ns = map (mount_entry s) ns"
    "path_block s' ` set ns = path_block s ` set ns" using b by auto
  ultimately show ?thesis using assms(1-4) unfolding vfs_rep_def by metis
qed

lemma vfs_mount_points_update [simp]:
  "mount_next (s\<lparr>mount_points := p\<rparr>) = mount_next s" "mount_entry (s\<lparr>mount_points := p\<rparr>) = mount_entry s"
  "path_block (s\<lparr>mount_points := p\<rparr>) = path_block s"
  by (auto simp: mount_next_def mount_entry_def path_block_def fun_eq_iff)

lemma vfs_rep_push:
  assumes "vfs_rep s ns tbl" "mounts s m = Some r" "mp_next r = mount_points s" "paths s (mp_path r) = Some q"
    and "{m, mp_path r} \<subseteq> kheap_live (vheap s)" "m \<noteq> mp_path r" "{m, mp_path r} \<inter> (set ns \<union> path_block s ` set ns) = {}"
  shows "vfs_rep (s\<lparr>mount_points := m\<rparr>) (m # ns) ((q, mp_root r, mp_fops r) # tbl)"
proof -
  have m: "m \<noteq> NULL" using assms(1,5) kh.null_not_live vfs_repD(1) by auto
  have "path_block s m = mp_path r" "mount_entry s m = Some (q, mp_root r, mp_fops r)" "mount_next s m = Some (mount_points s)"
    using assms(2-4) by (simp_all add: path_block_def mount_entry_def mount_next_def)
  then show ?thesis using m assms vfs_repD [OF assms(1)] by (auto simp: vfs_rep_def)
qed

lemma vfs_mount_rep:
  assumes rep: "vfs_rep s ns tbl" and len: "length path < 0xFFFFFFE8"
  obtains (fail) s' where "vfs_mount dev path ops root s = Some (- 1, s')" "vfs_rep s' ns tbl"
      "kheap_live (vheap s') = kheap_live (vheap s)" "root_inode s' = root_inode s"
  | (got) m s' where "vfs_mount dev path ops root s = Some (0, s')" "vfs_rep s' (m # ns) ((path, root, ops) # tbl)"
      "root_inode s' = root_inode s" "m \<notin> kheap_live (vheap s)" "path_block s' m \<notin> kheap_live (vheap s)"
      "kheap_live (vheap s') = {m, path_block s' m} \<union> kheap_live (vheap s)"
proof -
  note r = vfs_repD [OF rep]
  have n: "sizeof_mount_point \<le> 0xFFFFFFE8" "of_nat (length path) + 1 \<le> (0xFFFFFFE8 :: u32)"
  proof -
    show "sizeof_mount_point \<le> 0xFFFFFFE8" by (simp add: sizeof_mount_point_def)
    have "of_nat (length path) + 1 = (of_nat (Suc (length path)) :: u32)" by simp
    moreover have "unat (of_nat (Suc (length path)) :: u32) = Suc (length path)"
      using len by (intro unat_of_nat_small) simp
    ultimately show "of_nat (length path) + 1 \<le> (0xFFFFFFE8 :: u32)"
      using len by (simp only: word_le_nat_alt) simp
  qed
  from r(1) n(1) show thesis
  proof (cases rule: kh.allocE)
    case null
    then show thesis using rep by (intro fail [of s]) (simp_all add: vfs_mount_def)
  next
    case (fresh m h1)
    from fresh(3) n(2) show thesis
    proof (cases rule: kh.allocE)
      case null
        obtain h2 where h2: "kfree m h1 = Some h2" "kheap_ok h2" "kheap_live h2 = kheap_live (vheap s)"
        using kh.undo_one [OF r(1) n(1) fresh(1,2)] by blast
      have "vfs_rep (s\<lparr>vheap := h2\<rparr>) ns tbl"
        by (rule vfs_rep_cong [OF rep]) (use h2 r(7,8) in auto)
      then show thesis using null h2 fresh(1,2) by (intro fail [of "s\<lparr>vheap := h2\<rparr>"]) (simp_all add: vfs_mount_def)
    next
      case got': (fresh q h2)
      let ?s = "s\<lparr>vheap := h2, paths := (paths s)(q \<mapsto> path),
        mounts := (mounts s)(m \<mapsto> \<lparr>mp_path = q, mp_root = root, mp_fops = ops, mp_next = mount_points s\<rparr>)\<rparr>"
      have "m \<notin> set ns" "q \<notin> path_block s ` set ns" "m \<notin> path_block s ` set ns" "q \<notin> set ns" "q \<noteq> m"
        using r(7,8) fresh(4,5) got'(4) by auto
      moreover have "vfs_rep ?s ns tbl"
      proof (rule vfs_rep_cong [OF rep])
        show "mounts ?s n = mounts s n" if "n \<in> set ns" for n using that calculation(1) by auto
        show "paths ?s (path_block s n) = paths s (path_block s n)" if "n \<in> set ns" for n
          using that calculation(2) by auto
      qed (use got'(3,5) fresh(5) r(7,8) in auto)
      moreover have "path_block ?s ` set ns = path_block s ` set ns"
        using calculation(1) by (intro image_cong) (auto simp: path_block_def)
      ultimately have "vfs_rep (?s\<lparr>mount_points := m\<rparr>) (m # ns) ((path, root, ops) # tbl)"
        using vfs_rep_push [of ?s ns tbl m "\<lparr>mp_path = q, mp_root = root, mp_fops = ops, mp_next = mount_points s\<rparr>" path]
          fresh(5) got'(5) by simp
      moreover have "vfs_mount dev path ops root s = Some (0, ?s\<lparr>mount_points := m\<rparr>)"
        using fresh(1,2) got'(1,2) by (simp add: vfs_mount_def)
      moreover have "path_block (?s\<lparr>mount_points := m\<rparr>) m = q" by (simp add: path_block_def)
      ultimately show thesis using fresh(4,5) got'(4,5)
        by (intro got [of "?s\<lparr>mount_points := m\<rparr>" m]) (simp_all add: insert_commute)
    qed
  qed
qed

text \<open>The search, and taking a node out of a chain.\<close>

definition named :: "vfs \<Rightarrow> string \<Rightarrow> addr \<Rightarrow> bool" where
  "named s path n \<longleftrightarrow> map_option fst (mount_entry s n) = Some path"

lemma find_mount_split:
  assumes "linked (mount_next s) cur ns" "map (mount_entry s) ns = map Some tbl"
  shows "find_mount (mounts s) (paths s) path prev cur =
    Some (last (prev # takeWhile (\<lambda>n. \<not> named s path n) ns),
      case dropWhile (\<lambda>n. \<not> named s path n) ns of [] \<Rightarrow> NULL | n # us \<Rightarrow> n)"
  using assms
proof (induction ns arbitrary: prev cur tbl)
  case Nil
  then show ?case by (simp add: find_mount.simps)
next
  case (Cons n ns)
  obtain m q where m: "mounts s n = Some m" "paths s (mp_path m) = Some q" "mount_entry s n = Some (q, mp_root m, mp_fops m)"
    using Cons.prems(2) by (cases tbl) (auto simp: mount_entry_def bind_eq_Some_conv)
  have l: "cur = n" "n \<noteq> NULL" "linked (mount_next s) (mp_next m) ns" using Cons.prems(1) m(1) by (auto simp: mount_next_def)
  have q: "named s path n \<longleftrightarrow> q = path" using m(3) by (simp add: named_def)
  obtain tbl' where "map (mount_entry s) ns = map Some tbl'" using Cons.prems(2) by (cases tbl) auto
  from Cons.IH [OF l(3) this, of n] show ?case
    using m l(1,2) by (subst find_mount.simps) (simp add: q)
qed

lemma linked_unlink:
  assumes "linked nx p (bs @ n # us)" "distinct (bs @ n # us)" "nx n = Some v"
  shows "if bs = [] then linked nx v us else linked (nx(last bs \<mapsto> v)) p (bs @ us)"
  using assms
proof (induction bs arbitrary: p)
  case (Cons b bs)
  obtain w where w: "p = b" "b \<noteq> NULL" "nx b = Some w" "linked nx w (bs @ n # us)" using Cons.prems by auto
  show ?case
  proof (cases "bs = []")
    case True
    then show ?thesis using Cons.prems w by auto
  next
    case False
    then have "b \<noteq> last bs" using Cons.prems(2) by auto
    then show ?thesis using Cons.IH [OF w(4)] Cons.prems w False by auto
  qed
qed auto

lemma remove_mount_split:
  "path \<notin> fst ` set as \<Longrightarrow> fst e = path \<Longrightarrow> remove_mount path (as @ e # es) = as @ es"
  by (induction as) auto

lemma remove_mount_none: "path \<notin> fst ` set es \<Longrightarrow> remove_mount path es = es"
  by (induction es) auto

lemma named_ex:
  "map (mount_entry s) ns = map Some tbl \<Longrightarrow> path \<in> fst ` set tbl \<longleftrightarrow> (\<exists>n \<in> set ns. named s path n)"
proof (induction ns arbitrary: tbl)
  case (Cons n ns)
  then obtain e es where "tbl = e # es" "mount_entry s n = Some e" "map (mount_entry s) ns = map Some es" by (cases tbl) auto
  then show ?case using Cons.IH [of es] by (cases e) (auto simp: named_def)
qed auto

lemma vfs_umount_rep:
  assumes rep: "vfs_rep s ns tbl"
  obtains (none) "path \<notin> fst ` set tbl" "vfs_umount path s = Some (- 1, s)"
  | (some) bs n us s' where "path \<in> fst ` set tbl" "ns = bs @ n # us" "\<forall>n' \<in> set bs. \<not> named s path n'"
      "vfs_umount path s = Some (0, s')" "vfs_rep s' (bs @ us) (remove_mount path tbl)"
      "kheap_live (vheap s') = kheap_live (vheap s) - {n, path_block s n}" "root_inode s' = root_inode s"
proof -
  note r = vfs_repD [OF rep]
  let ?P = "\<lambda>n. \<not> named s path n"
  note f = find_mount_split [OF r(2,3), of path NULL]
  note ex = named_ex [OF r(3), of path]
  show thesis
  proof (cases "dropWhile ?P ns")
    case Nil
    then have "\<forall>n \<in> set ns. ?P n" by (simp add: dropWhile_eq_Nil_conv)
    then show thesis using f Nil ex by (intro none) (simp_all add: vfs_umount_def)
  next
    case (Cons n us)
    define bs where "bs = takeWhile ?P ns"
    have ns: "ns = bs @ n # us" by (metis Cons bs_def takeWhile_dropWhile_id)
    have bP: "\<forall>n' \<in> set bs. ?P n'" by (auto simp: bs_def dest: set_takeWhileD)
    have np: "named s path n" using Cons by (metis hd_dropWhile list.discI list.sel(1))
    then obtain m where m: "mounts s n = Some m" "paths s (mp_path m) = Some path" "path_block s n = mp_path m"
      by (auto simp: mount_entry_def bind_eq_Some_conv path_block_def named_def)
    have n: "n \<noteq> NULL" "n \<in> set ns" "mount_next s n = Some (mp_next m)"
      using kh.null_not_live [OF r(1)] r(7) ns m(1) by (auto simp: mount_next_def)
    have fm: "find_mount (mounts s) (paths s) path NULL (mount_points s) = Some (last (NULL # bs), n)"
      using f Cons by (simp add: bs_def)
    have tbl: "map (mount_entry s) (bs @ us) = map Some (remove_mount path tbl)"
    proof -
      obtain t1 e t2 where t: "tbl = t1 @ e # t2" "map (mount_entry s) bs = map Some t1"
        "mount_entry s n = Some e" "map (mount_entry s) us = map Some t2"
        using r(3) unfolding ns by (auto simp: map_eq_append_conv append_eq_map_conv map_eq_Cons_conv Cons_eq_map_conv)
      have "path \<notin> fst ` set t1" using named_ex [OF t(2)] bP by blast
      moreover have "fst e = path" using np t(3) by (simp add: named_def)
      ultimately show ?thesis using t remove_mount_split by (metis map_append)
    qed
    obtain h1 where h1: "kfree (mp_path m) (vheap s) = Some h1" "kheap_ok h1" "kheap_live h1 = kheap_live (vheap s) - {mp_path m}"
      using kh.dealloc_live [OF r(1), of "mp_path m"] r(8) n(2) m(3) by (metis imageI subsetD)
    have nq: "n \<noteq> mp_path m" using r(6) n(2) m(3) by (metis disjoint_iff imageI)
    have "n \<in> kheap_live h1" using subsetD [OF r(7) n(2)] nq h1(3) by simp
    then obtain h2 where h2: "kfree n h1 = Some h2" "kheap_ok h2" "kheap_live h2 = kheap_live (vheap s) - {n, mp_path m}"
      using kh.dealloc_live [OF h1(2), of n] h1(3) by (auto simp: Diff_insert2 [symmetric] insert_commute)
    define ms where "ms = (if bs = [] then mounts s else (mounts s)(last bs \<mapsto> (the (mounts s (last bs)))\<lparr>mp_next := mp_next m\<rparr>))"
    let ?s = "s\<lparr>mount_points := (if bs = [] then mp_next m else mount_points s), vheap := h2,
      mounts := ms(n := None), paths := (paths s)(mp_path m := None)\<rparr>"
    have lb: "last bs \<in> set bs" "last bs \<noteq> NULL" "last bs \<noteq> n" "\<exists>b. mounts s (last bs) = Some b" if "bs \<noteq> []"
    proof -
      show l: "last bs \<in> set bs" using that by simp
      then show "last bs \<noteq> n" "last bs \<noteq> NULL" using r(4,7) kh.null_not_live [OF r(1)] ns by auto
      show "\<exists>b. mounts s (last bs) = Some b"
        using l linked_dom [OF r(2)] ns by (auto simp: mount_next_def)
    qed
    have "vfs_umount path s = Some (0, ?s)"
    proof (cases "bs = []")
      case True
      then show ?thesis using fm m(1) n(1) h1(1) h2(1) by (simp add: vfs_umount_def ms_def)
    next
      case False
      then obtain b where "mounts s (last bs) = Some b" using lb(4) by blast
      then show ?thesis using False lb fm m(1) n(1) h1(1) h2(1) by (simp add: vfs_umount_def ms_def)
    qed
    moreover have "vfs_rep ?s (bs @ us) (remove_mount path tbl)"
    proof -
      have d: "n \<notin> set (bs @ us)" "mp_path m \<notin> path_block s ` set (bs @ us)" "distinct (bs @ us)"
        "distinct (map (path_block s) (bs @ us))"
        using r(4,5) m(3) unfolding ns by auto
      have ms: "ms n' = (if n' = last bs \<and> bs \<noteq> [] then map_option (mp_next_update (\<lambda>_. mp_next m)) (mounts s n') else mounts s n')"
        if "n' \<in> set (bs @ us)" for n'
        using lb(4) by (auto simp: ms_def)
      have pb: "path_block ?s n' = path_block s n'" if "n' \<in> set (bs @ us)" for n'
        using ms [OF that] that d(1) by (cases "mounts s n'") (auto simp: path_block_def)
      have "mount_entry ?s n' = mount_entry s n'" if "n' \<in> set (bs @ us)" for n'
      proof -
        have "path_block s n' \<noteq> mp_path m" using that d(2) by (metis imageI)
        then show ?thesis using ms [OF that] that d(1)
          by (cases "mounts s n'") (auto simp: mount_entry_def path_block_def)
      qed
      then have "map (mount_entry ?s) (bs @ us) = map Some (remove_mount path tbl)"
        unfolding tbl [symmetric] by (intro map_cong refl)
      moreover have "map (path_block ?s) (bs @ us) = map (path_block s) (bs @ us)" using pb by (intro map_cong refl)
      moreover have "path_block ?s ` set (bs @ us) = path_block s ` set (bs @ us)" using pb by (intro image_cong refl)
      moreover have "linked (mount_next ?s) (mount_points ?s) (bs @ us)"
      proof -
        have nx: "mount_next ?s n' = (if n' = last bs \<and> bs \<noteq> [] then Some (mp_next m) else mount_next s n')"
          if "n' \<in> set (bs @ us)" for n'
          using ms [OF that] that d(1) lb(4) by (auto simp: mount_next_def)
        note u = linked_unlink [OF r(2) [unfolded ns] r(4) [unfolded ns] n(3)]
        show ?thesis
        proof (cases "bs = []")
          case True
          then have "linked (mount_next ?s) (mp_next m) us = linked (mount_next s) (mp_next m) us"
            using nx by (intro linked_cong) simp
          then show ?thesis using u True by simp
        next
          case False
          then have "linked (mount_next ?s) (mount_points s) (bs @ us) =
            linked ((mount_next s)(last bs \<mapsto> mp_next m)) (mount_points s) (bs @ us)"
            using nx by (intro linked_cong) simp
          then show ?thesis using u False by simp
        qed
      qed
      moreover have "set (bs @ us) \<union> path_block s ` set (bs @ us) \<subseteq> kheap_live (vheap ?s)"
      proof -
        have "path_block s ` set (bs @ us) \<subseteq> path_block s ` set ns" by (rule image_mono) (auto simp: ns)
        then have "set (bs @ us) \<union> path_block s ` set (bs @ us) \<subseteq> kheap_live (vheap s)"
          using r(7,8) ns by auto
        moreover have "mp_path m \<notin> set (bs @ us)" "n \<notin> path_block s ` set (bs @ us)"
          using r(6) n(2) m(3) unfolding ns by auto
        ultimately have "set (bs @ us) \<union> path_block s ` set (bs @ us) \<subseteq> kheap_live h2"
          using d(1,2) unfolding h2(3) subset_Diff_insert Diff_empty Un_iff by simp
        then show ?thesis by simp
      qed
      moreover have "set (bs @ us) \<inter> path_block s ` set (bs @ us) = {}" using r(6) unfolding ns by auto
      ultimately have "vfs_rep ?s (bs @ us) (remove_mount path tbl) \<longleftrightarrow> kheap_ok (vheap ?s)"
        using d(3,4) unfolding vfs_rep_def distinct_append [of "bs @ us"] set_map by (simp only: simp_thms)
      then show ?thesis using h2(2) by simp
    qed
    moreover have "kheap_live (vheap ?s) = kheap_live (vheap s) - {n, path_block s n}" using h2(3) m(3) by simp
    ultimately show thesis using ns bP np ex n(2) by (intro some [of bs n us ?s]) auto
  qed
qed

subsection \<open>Properties\<close>

text \<open>C38: The mount table is a stack of entries with removal by path. \<open>vfs_mount\<close> either returns -1 with the
  table and the live memory as they were, or 0 with the new entry in front; unmounting that path then returns 0 and gives
  back the old table and exactly the memory the mount took. Unmounting any path removes its latest entry, or
  returns -1 and changes nothing when there is none. The global root inode never changes, not even when \<open>/\<close> is mounted.\<close>

theorem vfs_mount_umount:
  assumes "vfs_rep s ns tbl" "length path < 0xFFFFFFE8"
  shows "(\<exists>r s'. vfs_mount dev path ops root s = Some (r, s') \<and> root_inode s' = root_inode s \<and>
      (r = - 1 \<and> vfs_rep s' ns tbl \<and> kheap_live (vheap s') = kheap_live (vheap s) \<or>
       r = 0 \<and> (\<exists>m s''. vfs_rep s' (m # ns) ((path, root, ops) # tbl) \<and> vfs_umount path s' = Some (0, s'') \<and>
         vfs_rep s'' ns tbl \<and> kheap_live (vheap s'') = kheap_live (vheap s)))) \<and>
    (\<exists>s' ns'. vfs_umount path' s = Some (if path' \<in> fst ` set tbl then 0 else - 1, s') \<and>
       vfs_rep s' ns' (remove_mount path' tbl) \<and> root_inode s' = root_inode s)"
proof (rule conjI)
  show "\<exists>s' ns'. vfs_umount path' s = Some (if path' \<in> fst ` set tbl then 0 else - 1, s') \<and>
       vfs_rep s' ns' (remove_mount path' tbl) \<and> root_inode s' = root_inode s"
    using assms(1)
  proof (cases rule: vfs_umount_rep [where path = path'])
    case none
    then show ?thesis using assms(1) by (intro exI [of _ s] exI [of _ ns]) (simp add: remove_mount_none)
  next
    case (some bs n us s')
    then show ?thesis by (intro exI [of _ s'] exI [of _ "bs @ us"]) simp
  qed
  from assms show "\<exists>r s'. vfs_mount dev path ops root s = Some (r, s') \<and> root_inode s' = root_inode s \<and>
      (r = - 1 \<and> vfs_rep s' ns tbl \<and> kheap_live (vheap s') = kheap_live (vheap s) \<or>
       r = 0 \<and> (\<exists>m s''. vfs_rep s' (m # ns) ((path, root, ops) # tbl) \<and> vfs_umount path s' = Some (0, s'') \<and>
         vfs_rep s'' ns tbl \<and> kheap_live (vheap s'') = kheap_live (vheap s)))"
  proof (cases rule: vfs_mount_rep [where dev = dev and ops = ops and root = root])
    case (got m s')
    have nm: "named s' path m" using vfs_repD(3) [OF got(2)] by (simp add: named_def)
    from got(2) have "\<exists>s''. vfs_umount path s' = Some (0, s'') \<and> vfs_rep s'' ns tbl \<and>
      kheap_live (vheap s'') = kheap_live (vheap s)"
    proof (cases rule: vfs_umount_rep [where path = path])
      case (some bs n us s'')
      have "bs = []" using some(2,3) nm by (cases bs) auto
      then show ?thesis using some got(4-6) by (intro exI [of _ s'']) auto
    qed simp
    then show ?thesis using got(1-3) by (intro exI [of _ 0] exI [of _ s']) auto
  qed blast
qed

definition vfs0 :: vfs where
  "vfs0 = vfs_init \<lparr>vheap = init_kheap kheap_boot, mount_points = 0, root_inode = 0, mounts = Map.empty, paths = Map.empty\<rparr>"

theorem vfs_mount_umount_witness:
  "\<exists>r s s''. vfs_mount ''ram0'' ''/'' Ramfs_file_ops 0xC0000010 vfs0 = Some (r, s) \<and> root_inode s = NULL \<and>
     vfs_umount ''/'' vfs0 = Some (- 1, s'')"
proof -
  have "vfs_rep vfs0 [] []" by (simp add: vfs_rep_def vfs0_def vfs_init_def kheap_ok_init)
  from vfs_mount_umount [OF this, of "''/''" "''ram0''" Ramfs_file_ops "0xC0000010" "''/''"]
  show ?thesis by (auto simp: vfs0_def vfs_init_def)
qed

end
