(* ===== verification/Elf.thy ===== *)
theory Elf
  imports Vfs
begin

text \<open>
  The ELF loader, \<^verbatim>\<open>kernel/loader/elf.c\<close> and \<^verbatim>\<open>include/loader/elf.h\<close>.

  The loader keeps the file header and one program header in local variables that \<^verbatim>\<open>vfs_read\<close> is to
  fill; \<open>vfs_read\<close> of \<^verbatim>\<open>vfs.c\<close> writes nothing, so they keep what was on the stack, the arguments
  \<open>ehdr\<close> and \<open>phdr\<close> with their addresses. Where a segment goes is the statement
  \<^verbatim>\<open>page_dir->tables[p_vaddr / 1 MB] = mem\<close>; the sources declare a page directory as an array of
  entries without a member \<^verbatim>\<open>tables\<close>, so this statement is an argument \<open>install\<close> that acts on a state of its own.
\<close>

subsection \<open>Headers\<close>

record elf32_ehdr =
  e_ident :: "u8 list"
  e_type :: u16
  e_machine :: u16
  e_version :: u32
  e_entry :: u32
  e_phoff :: u32
  e_shoff :: u32
  e_flags :: u32
  e_ehsize :: u16
  e_phentsize :: u16
  e_phnum :: u16
  e_shentsize :: u16
  e_shnum :: u16
  e_shstrndx :: u16

record elf32_phdr =
  p_type :: u32
  p_offset :: u32
  p_vaddr :: u32
  p_paddr :: u32
  p_filesz :: u32
  p_memsz :: u32
  p_flags :: u32
  p_align :: u32

definition sizeof_ehdr :: u32 where "sizeof_ehdr = 52"
definition sizeof_phdr :: u32 where "sizeof_phdr = 32"

definition ELFMAG :: "u8 list" where "ELFMAG = [0x7f, 0x45, 0x4c, 0x46]"
definition ELFCLASS32 :: u8 where "ELFCLASS32 = 1"
definition ELFDATA2LSB :: u8 where "ELFDATA2LSB = 1"
definition ET_EXEC :: u16 where "ET_EXEC = 2"
definition PT_LOAD :: u32 where "PT_LOAD = 1"

text \<open>\<open>e_ident\<close> has 16 elements.\<close>

definition elf_validate_header :: "elf32_ehdr \<Rightarrow> int" where
  "elf_validate_header ehdr =
     (if e_ident ehdr ! 0 \<noteq> ELFMAG ! 0 \<or> e_ident ehdr ! 1 \<noteq> ELFMAG ! 1 \<or>
         e_ident ehdr ! 2 \<noteq> ELFMAG ! 2 \<or> e_ident ehdr ! 3 \<noteq> ELFMAG ! 3 then - 1
      else if e_ident ehdr ! 4 \<noteq> ELFCLASS32 then - 1
      else if e_ident ehdr ! 5 \<noteq> ELFDATA2LSB then - 1
      else if e_type ehdr \<noteq> ET_EXEC then - 1
      else 0)"

subsection \<open>Loading\<close>

definition read_file :: "addr \<Rightarrow> addr \<Rightarrow> u32 \<Rightarrow> u32 \<Rightarrow> memory \<Rightarrow> int \<times> memory" where
  "read_file i buf count offset m = vfs_read i buf count offset m"

text \<open>The state is the heap, the memory and what \<open>install\<close> changes.\<close>

definition elf_load_segment ::
    "elf32_phdr \<Rightarrow> addr \<Rightarrow> (u32 \<Rightarrow> addr \<Rightarrow> 'd \<Rightarrow> 'd option) \<Rightarrow> kheap \<times> memory \<times> 'd \<Rightarrow> (int \<times> kheap \<times> memory \<times> 'd) option" where
  "elf_load_segment phdr i install = (\<lambda>(h, m, d).
     if p_type phdr \<noteq> PT_LOAD then Some (0, h, m, d)
     else do {
       let mem_size = p_memsz phdr;
       if mem_size = 0 then Some (0, h, m, d)
       else do {
         (p, h) \<leftarrow> kmalloc mem_size h;
         if p = NULL then Some (- 1, h, m, d)
         else do {
           let (bytes_read, m) = (if p_filesz phdr > 0 then read_file i p (p_filesz phdr) (p_offset phdr) m else (0, m));
           if p_filesz phdr > 0 \<and> word_of_int bytes_read \<noteq> p_filesz phdr
           then do { h \<leftarrow> kfree p h; Some (- 1, h, m, d) }
           else do {
             let m = (if p_filesz phdr < p_memsz phdr
                      then memset (p + p_filesz phdr) 0 (p_memsz phdr - p_filesz phdr) m else m);
             d \<leftarrow> install (p_vaddr phdr div 0x100000) p d;
             Some (0, h, m, d) } } } })"

text \<open>The loop over the program headers; \<open>ks\<close> are the indices left.\<close>

fun load_segments ::
    "nat list \<Rightarrow> elf32_ehdr \<Rightarrow> addr \<times> elf32_phdr \<Rightarrow> addr \<Rightarrow> (u32 \<Rightarrow> addr \<Rightarrow> 'd \<Rightarrow> 'd option) \<Rightarrow>
     kheap \<times> memory \<times> 'd \<Rightarrow> (int \<times> kheap \<times> memory \<times> 'd) option" where
  "load_segments [] ehdr phdr i install s = Some (0, s)"
| "load_segments (k # ks) ehdr phdr i install s = (case s of (h, m, d) \<Rightarrow> do {
     let phdr_offset = e_phoff ehdr + of_nat k * ucast (e_phentsize ehdr);
     let (bytes_read, m) = read_file i (fst phdr) sizeof_phdr phdr_offset m;
     if word_of_int bytes_read \<noteq> sizeof_phdr then Some (- 1, h, m, d)
     else do {
       (r, s) \<leftarrow> elf_load_segment (snd phdr) i install (h, m, d);
       if r < 0 then Some (- 1, s) else load_segments ks ehdr phdr i install s } })"

text \<open>The result: the return value and what is stored to \<open>*entry_point\<close>, if anything.\<close>

definition elf_load ::
    "string \<Rightarrow> addr \<times> elf32_ehdr \<Rightarrow> addr \<times> elf32_phdr \<Rightarrow> (u32 \<Rightarrow> addr \<Rightarrow> 'd \<Rightarrow> 'd option) \<Rightarrow>
     vfs \<times> memory \<times> 'd \<Rightarrow> (int \<times> u32 option \<times> vfs \<times> memory \<times> 'd) option" where
  "elf_load path ehdr phdr install = (\<lambda>(s, m, d). do {
     let (r, node) = vfs_open path 0 s;
     if r < 0 then Some (- 1, None, s, m, d)
     else do {
       i \<leftarrow> node;
       let (bytes_read, m) = read_file i (fst ehdr) sizeof_ehdr 0 m;
       if word_of_int bytes_read \<noteq> sizeof_ehdr then Some (- 1, None, s, m, d)
       else if elf_validate_header (snd ehdr) < 0 then Some (- 1, None, s, m, d)
       else do {
         (r, h, m, d) \<leftarrow> load_segments [0..<unat (e_phnum (snd ehdr))] (snd ehdr) phdr i install (vheap s, m, d);
         let s = s\<lparr>vheap := h\<rparr>;
         if r < 0 then Some (- 1, None, s, m, d)
         else Some (0, Some (e_entry (snd ehdr)), s, m, d) } } })"

subsection \<open>What can be loaded\<close>

text \<open>Every load fails at the file header, whatever the path, the mounts and the stack.\<close>

lemma elf_load_never: "elf_load path ehdr phdr install (s, m, d) = Some (- 1, None, s, m, d)"
  by (simp add: elf_load_def vfs_open_def vfs_path_resolve_def read_file_def vfs_read_def sizeof_ehdr_def)

subsection \<open>Properties\<close>

text \<open>What \<open>elf_load_segment\<close> does with a loadable segment. It returns -1, with the memory and the page
  directory as they were and the heap's live blocks too, when there is no heap block and always when the
  segment has bytes in the file. A segment without them (a \<^verbatim>\<open>.bss\<close>) gets a new block, filled with zeros up to its
  size and not a byte further, and the block is installed at the segment's virtual address.\<close>

theorem elf_load_segment_effect:
  assumes "kheap_ok h" "p_type phdr = PT_LOAD" "p_memsz phdr \<noteq> 0" "p_memsz phdr \<le> 0xFFFFFFE8"
    and inst: "\<And>k p. \<exists>d'. install k p d = Some d'"
  shows "\<exists>r h' m' d'. elf_load_segment phdr i install (h, m, d) = Some (r, h', m', d') \<and> kheap_ok h' \<and>
    (r = - 1 \<and> m' = m \<and> d' = d \<and> kheap_live h' = kheap_live h \<or>
     r = 0 \<and> p_filesz phdr = 0 \<and> (\<exists>p. p \<noteq> NULL \<and> p \<notin> kheap_live h \<and> kheap_live h' = insert p (kheap_live h) \<and>
       install (p_vaddr phdr div 0x100000) p d = Some d' \<and>
       (\<forall>a. m' a = (if a - p < p_memsz phdr then 0 else m a))))"
  using assms(1,4)
proof (cases rule: kh.allocE)
  case null
  then show ?thesis using assms(1-3) by (simp add: elf_load_segment_def)
next
  case (fresh p h1)
  obtain h2 where h2: "kfree p h1 = Some h2" "kheap_ok h2" "kheap_live h2 = kheap_live h"
    using kh.undo_one [OF assms(1,4) fresh(1,2)] by blast
  obtain d' where "install (p_vaddr phdr div 0x100000) p d = Some d'" using inst by blast
  then show ?thesis using fresh h2 assms(2,3)
    by (cases "p_filesz phdr = 0")
      (auto simp: elf_load_segment_def read_file_def vfs_read_def memset_apply word_gt_0 bind_eq_Some_conv)
qed

definition bss :: elf32_phdr where
  "bss = \<lparr>p_type = PT_LOAD, p_offset = 0, p_vaddr = 0x8400000, p_paddr = 0, p_filesz = 0, p_memsz = 100, p_flags = 6, p_align = 4\<rparr>"

theorem elf_load_segment_effect_witness:
  "\<exists>r h m d. elf_load_segment bss 0 (\<lambda>k p d. Some (k, p)) (init_kheap kheap_boot, \<lambda>_. 0xFF, (0, 0)) = Some (r, h, m, d) \<and>
     (r = - 1 \<or> r = 0 \<and> (\<exists>p. d = (132, p) \<and> (\<forall>a. m a = (if a - p < 100 then 0 else 0xFF))))"
proof -
  have "0x8400000 div 0x100000 = (132 :: u32)" by code_simp
  then show ?thesis
    using elf_load_segment_effect [OF kheap_ok_init, of bss "\<lambda>k p d. Some (k, p)" "(0, 0)" 0 kheap_boot "\<lambda>_. 0xFF"]
    by (auto simp: bss_def)
qed

end
