(* ===== verification/Syscall.thy ===== *)
theory Syscall
  imports Sched Mmap Elf "HOL-Library.Signed_Division"
begin

text \<open>
  System calls: \<^verbatim>\<open>kernel/syscall.c\<close> with \<^verbatim>\<open>include/syscall.h\<close>, \<^verbatim>\<open>include/proc/regs.h\<close> and the table of
  \<^verbatim>\<open>kernel/table.S\<close>, over the scheduler, the page tables and the ELF loader.

  Three things the handlers call are not in the sources and are the fields of the record \<open>external\<close>:
  \<^verbatim>\<open>kwrite\<close>, the \<^verbatim>\<open>keyboard_read\<close> that takes a buffer and a count (the one of \<^verbatim>\<open>lib/keyboard.c\<close> takes an
  event), and the update of \<^verbatim>\<open>page_dir->tables\<close> in the loader. A fourth one, \<open>until_back\<close>, is what the rest of
  the system does between a call of \<^verbatim>\<open>schedule\<close> that switches away and its return to the caller, with no value when it
  never returns; the switch is assembly, and no theorem assumes anything of it. Results of type \<^verbatim>\<open>int\<close> are words, as they end up in EAX.
\<close>

unbundle bit_operations_syntax

subsection \<open>State\<close>

text \<open>\<open>struct regs\<close>: what the handler is given.\<close>

record sregs =
  s_eax :: u32
  s_ebx :: u32
  s_ecx :: u32
  s_edx :: u32
  s_esi :: u32
  s_edi :: u32
  s_ebp :: u32
  s_esp :: u32
  s_eip :: u32
  s_eflags :: u32
  s_cs :: u32
  s_ds :: u32
  s_es :: u32
  s_fs :: u32
  s_gs :: u32
  s_ss :: u32

text \<open>The kernel heap is the one in \<open>sc\<close>.\<close>

record 'io machine =
  sc :: sched
  pg :: paging
  vf :: vfs
  umem :: memory
  io :: 'io

record 'io external =
  kwrite :: "addr \<Rightarrow> u32 \<Rightarrow> 'io machine \<Rightarrow> 'io machine option"
  keyboard_read_buf :: "addr \<Rightarrow> u32 \<Rightarrow> 'io machine \<Rightarrow> (u32 \<times> 'io machine) option"
  install :: "u32 \<Rightarrow> addr \<Rightarrow> 'io machine \<Rightarrow> 'io machine option"
  until_back :: "'io machine \<Rightarrow> 'io machine option"
  stack_ehdr :: "addr \<times> elf32_ehdr"
  stack_phdr :: "addr \<times> elf32_phdr"

type_synonym 'io handler = "sregs \<Rightarrow> 'io machine \<Rightarrow> (u32 \<times> 'io machine) option"

definition lift_sched :: "(sched \<Rightarrow> sched option) \<Rightarrow> 'io machine \<Rightarrow> 'io machine option" where
  "lift_sched f m = do { s \<leftarrow> f (sc m); Some (m\<lparr>sc := s\<rparr>) }"

definition mod_current :: "(task \<Rightarrow> task) \<Rightarrow> 'io machine \<Rightarrow> 'io machine option" where
  "mod_current f m = lift_sched (mod_task (current_task (sc m)) f) m"

definition MAX_SYSCALLS :: u32 where "MAX_SYSCALLS = 12"

subsection \<open>The handlers\<close>

text \<open>The last call of \<open>task_exit\<close> is \<open>schedule\<close>.\<close>

definition sys_exit_handler :: "'io external \<Rightarrow> 'io handler" where
  "sys_exit_handler x r m = do { m \<leftarrow> lift_sched task_exit m; m \<leftarrow> until_back x m; Some (0, m) }"

text \<open>\<open>memcpy(&child->regs, regs, sizeof(regs_context_t))\<close>: the two structures have their fields in different orders.\<close>

definition regs_context_of_bytes :: "sregs \<Rightarrow> regs_context" where
  "regs_context_of_bytes r = \<lparr>edi = s_eax r, esi = s_ebx r, ebp = s_ecx r, esp = s_edx r, ebx = s_esi r,
     edx = s_edi r, ecx = s_ebp r, eax = s_esp r, eip = s_eip r, eflags = s_eflags r, cs = s_cs r, ds = s_ds r,
     es = s_es r, fs = s_fs r, gs = s_gs r, ss = s_ss r\<rparr>"

definition sys_fork_handler :: "'io handler" where
  "sys_fork_handler r m = do {
     t \<leftarrow> tasks (sc m) (current_task (sc m));
     (child, s) \<leftarrow> create_task (s_eip r) ''forked'' (priority t) (sc m);
     if child = NULL then Some (- 1, m\<lparr>sc := s\<rparr>)
     else do {
       s \<leftarrow> mod_task child (\<lambda>u. u\<lparr>regs := (regs_context_of_bytes r)\<lparr>eax := 0\<rparr>\<rparr>) s;
       cur \<leftarrow> tasks s (current_task s);
       s \<leftarrow> mod_task child (\<lambda>u. u\<lparr>page_dir := page_dir cur, heap_start := heap_start cur, heap_end := heap_end cur,
              memory_usage_kb := memory_usage_kb cur, user_stack_top := user_stack_top cur\<rparr>) s;
       u \<leftarrow> tasks s child;
       Some (pid u, m\<lparr>sc := s\<rparr>) } }"

definition sys_wait_handler :: "'io handler" where
  "sys_wait_handler r m = Some (0, m)"

definition sys_write_handler :: "'io external \<Rightarrow> 'io handler" where
  "sys_write_handler x r m =
     (if s_ebx r = 1 then do { m \<leftarrow> kwrite x (s_ecx r) (s_edx r) m; Some (s_edx r, m) }
      else Some (- 1, m))"

definition sys_read_handler :: "'io external \<Rightarrow> 'io handler" where
  "sys_read_handler x r m =
     (if s_ebx r = 0 then keyboard_read_buf x (s_ecx r) (s_edx r) m else Some (- 1, m))"

definition sys_open_handler :: "'io handler" where "sys_open_handler r m = Some (1, m)"
definition sys_close_handler :: "'io handler" where "sys_close_handler r m = Some (0, m)"

definition sys_mmap_handler :: "'io handler" where
  "sys_mmap_handler r m =
     (let (mapped_addr, p) = mmap (s_ebx r) (s_ecx r) (s_edx r) (pg m)
      in if mapped_addr = NULL then Some (- 1, m\<lparr>pg := p\<rparr>) else Some (mapped_addr, m\<lparr>pg := p\<rparr>))"

definition sys_munmap_handler :: "'io handler" where
  "sys_munmap_handler r m = Some (0, m\<lparr>pg := munmap (s_ebx r) (s_ecx r) (pg m)\<rparr>)"

text \<open>\<open>(increment + 1023) / 1024\<close> is signed: it truncates towards zero, and an overflow of the sum is undefined.\<close>

definition kb_of :: "u32 \<Rightarrow> u32 option" where
  "kb_of inc = (if sint inc + 1023 < 2 ^ 31 then Some (word_of_int ((sint inc + 1023) sdiv 1024)) else None)"

definition sys_sbrk_handler :: "'io handler" where
  "sys_sbrk_handler r m = do {
     let increment = s_ebx r;
     t \<leftarrow> tasks (sc m) (current_task (sc m));
     m \<leftarrow> (if heap_start t = 0
           then mod_current (\<lambda>t. t\<lparr>heap_start := 0x08048000 + 0x1000, heap_end := 0x08048000 + 0x1000\<rparr>) m
           else Some m);
     let old_heap_end = (if heap_start t = 0 then 0x08048000 + 0x1000 else heap_end t);
     let new_heap_end = old_heap_end + increment;
     if new_heap_end > 0xC0000000 then Some (- 1, m)
     else do {
       kb \<leftarrow> kb_of increment;
       m \<leftarrow> mod_current (\<lambda>t. t\<lparr>heap_end := new_heap_end, memory_usage_kb := memory_usage_kb t + kb\<rparr>) m;
       Some (old_heap_end, m) } }"

partial_function (option) sleep_until :: "'io external \<Rightarrow> u32 \<Rightarrow> 'io machine \<Rightarrow> 'io machine option" where
  "sleep_until x end_ticks m =
     (if get_system_ticks (sc m) < end_ticks
      then do { m \<leftarrow> lift_sched schedule m; m \<leftarrow> until_back x m; sleep_until x end_ticks m }
      else Some m)"

definition sys_sleep_handler :: "'io external \<Rightarrow> 'io handler" where
  "sys_sleep_handler x r m = do {
     let start_ticks = get_system_ticks (sc m);
     let end_ticks = start_ticks + s_ebx r * 100;
     m \<leftarrow> mod_current (\<lambda>t. t\<lparr>state := TASK_BLOCKED\<rparr>) m;
     m \<leftarrow> sleep_until x end_ticks m;
     m \<leftarrow> mod_current (\<lambda>t. t\<lparr>state := TASK_READY\<rparr>) m;
     Some (0, m) }"

text \<open>The string at an address of the caller; \<^verbatim>\<open>strncpy\<close> with bound 31 and the zero byte behind it keep its first 31
  characters (and the rest of the 32 bytes zero).\<close>

definition string_at :: "addr \<Rightarrow> memory \<Rightarrow> string option" where
  "string_at p m = do { n \<leftarrow> strlen_from m p 0; Some (map (\<lambda>i. char_of (unat (m (p + of_nat i)))) [0..<unat n]) }"

definition sys_execve_handler :: "'io external \<Rightarrow> 'io handler" where
  "sys_execve_handler x r m = do {
     path \<leftarrow> string_at (s_ebx r) (umem m);
     (ret, entry_point, v, mem, m) \<leftarrow> elf_load path (stack_ehdr x) (stack_phdr x) (install x) ((vf m)\<lparr>vheap := heap (sc m)\<rparr>, umem m, m);
     let m = m\<lparr>sc := (sc m)\<lparr>heap := vheap v\<rparr>, vf := v\<lparr>vheap := vheap (vf m)\<rparr>, umem := mem\<rparr>;
     if ret < 0 then Some (- 1, m)
     else do {
       e \<leftarrow> entry_point;
       m \<leftarrow> mod_current (\<lambda>t. t\<lparr>name := take 31 path, regs := (regs t)\<lparr>eip := e\<rparr>\<rparr>) m;
       Some (0, m) } }"

subsection \<open>Dispatch\<close>

definition syscall_table :: "'io external \<Rightarrow> 'io handler list" where
  "syscall_table x = [sys_exit_handler x, sys_fork_handler, sys_wait_handler, sys_write_handler x, sys_read_handler x,
     sys_open_handler, sys_close_handler, sys_mmap_handler, sys_munmap_handler, sys_sbrk_handler, sys_sleep_handler x,
     sys_execve_handler x]"

definition syscall_handler :: "'io external \<Rightarrow> sregs \<Rightarrow> 'io machine \<Rightarrow> (sregs \<times> 'io machine) option" where
  "syscall_handler x r m =
     (let syscall_num = s_eax r
      in if syscall_num \<ge> MAX_SYSCALLS then Some (r\<lparr>s_eax := - 1\<rparr>, m)
         else do {
           (v, m) \<leftarrow> (syscall_table x ! unat syscall_num) r m;
           Some (r\<lparr>s_eax := v\<rparr>, m) })"

subsection \<open>Growing the heap\<close>

text \<open>The heap of a task as \<open>sbrk\<close> sees it: the first call sets it up.\<close>

definition with_heap :: "task \<Rightarrow> task" where
  "with_heap t = (if heap_start t = 0 then t\<lparr>heap_start := 0x08049000, heap_end := 0x08049000\<rparr> else t)"

definition set_current :: "task \<Rightarrow> 'io machine \<Rightarrow> 'io machine" where
  "set_current t m = m\<lparr>sc := (sc m)\<lparr>tasks := (tasks (sc m))(current_task (sc m) \<mapsto> t)\<rparr>\<rparr>"

lemma set_current_simps [simp]:
  "tasks (sc (set_current t m)) = (tasks (sc m))(current_task (sc m) \<mapsto> t)"
  "current_task (sc (set_current t m)) = current_task (sc m)" "set_current t (set_current u m) = set_current t m"
  by (simp_all add: set_current_def)

lemma mod_current_some: "tasks (sc m) (current_task (sc m)) = Some t \<Longrightarrow> mod_current f m = Some (set_current (f t) m)"
  by (simp add: mod_current_def lift_sched_def mod_task_def set_current_def)

lemma set_current_same: "tasks (sc m) (current_task (sc m)) = Some t \<Longrightarrow> set_current t m = m"
  by (simp add: set_current_def fun_upd_idem)

lemma sbrk_unfold:
  assumes "tasks (sc m) (current_task (sc m)) = Some t"
  shows "sys_sbrk_handler r m =
    (let t' = with_heap t; e = heap_end t' + s_ebx r
     in if e > 0xC0000000 then Some (- 1, set_current t' m)
        else do { kb \<leftarrow> kb_of (s_ebx r);
          Some (heap_end t', set_current (t'\<lparr>heap_end := e, memory_usage_kb := memory_usage_kb t' + kb\<rparr>) m) })"
  using assms
  by (cases "heap_start t = 0")
    (simp_all add: sys_sbrk_handler_def with_heap_def Let_def mod_current_some set_current_same cong: if_cong)

lemma kb_of_small:
  assumes "unat inc < 2 ^ 31 - 1023"
  shows "kb_of inc = Some (of_nat ((unat inc + 1023) div 1024))"
proof -
  have u: "uint inc = int (unat inc)" by simp
  have "unat inc < 2147483648" using assms by simp
  then have "int (unat inc) < int 2147483648" by (simp only: of_nat_less_iff)
  then have "uint inc < 2 ^ 31" by simp
  moreover have "- (2 ^ 31) \<le> uint inc" by (rule order_trans [OF _ uint_nonnegative]) simp
  ultimately have si: "sint inc = int (unat inc)"
    unfolding u [symmetric] sint_uint by (intro signed_take_bit_int_eq_self) simp_all
  have "0 < int (unat inc) + 1023" using of_nat_0_le_iff [of "unat inc", where 'a = int] by linarith
  then have "(int (unat inc) + 1023) sdiv 1024 = (int (unat inc) + 1023) div 1024"
    unfolding signed_divide_int_def by (simp only: sgn_1_pos [THEN iffD2] abs_of_pos sgn_1_pos mult_1)
  then have "(int (unat inc) + 1023) sdiv 1024 = int ((unat inc + 1023) div 1024)" by (simp add: zdiv_int)
  moreover have "unat inc < 2147482625" using assms by simp
  then have "int (unat inc) < int 2147482625" by (simp only: of_nat_less_iff)
  ultimately show ?thesis unfolding kb_of_def si by simp
qed

text \<open>The sum is not checked for wrap-around: a heap that ends at \<open>0xB0000000\<close> grown by \<open>0x60000000\<close> ends at \<open>0x10000000\<close>.\<close>

lemma sbrk_wraps:
  assumes "tasks (sc m) (current_task (sc m)) = Some t" "heap_start t \<noteq> 0" "heap_end t = 0xB0000000" "s_ebx r = 0x60000000"
  shows "\<exists>u m'. sys_sbrk_handler r m = Some (0xB0000000, m') \<and> tasks (sc m') (current_task (sc m)) = Some u \<and>
    heap_end u = 0x10000000"
  using assms kb_of_small [of "0x60000000"]
  by (simp add: sbrk_unfold with_heap_def)

text \<open>The end of a sleep is not checked for wrap-around either: when it wraps, \<open>sleep\<close> does not wait at all. It leaves the
  current task ready, not running.\<close>

lemma sleep_wraps:
  assumes "tasks (sc m) (current_task (sc m)) = Some t"
    and "get_system_ticks (sc m) + s_ebx r * 100 \<le> get_system_ticks (sc m)"
  shows "sys_sleep_handler x r m = Some (0, set_current (t\<lparr>state := TASK_READY\<rparr>) m)"
proof -
  let ?b = "set_current (t\<lparr>state := TASK_BLOCKED\<rparr>) m"
  have "get_system_ticks (sc ?b) = get_system_ticks (sc m)" by (simp add: set_current_def get_system_ticks_def)
  moreover have "\<not> get_system_ticks (sc m) < get_system_ticks (sc m) + s_ebx r * 100" using assms(2) by (simp only: not_less not_not)
  ultimately have "sleep_until x (get_system_ticks (sc m) + s_ebx r * 100) ?b = Some ?b"
    by (subst sleep_until.simps) simp
  then show ?thesis using assms(1) by (simp add: sys_sleep_handler_def mod_current_some Let_def)
qed

subsection \<open>Changing the current task and forking\<close>

lemma sched_ok_mod:
  assumes "sched_ok s qs" "tasks s p = Some t" "priority u = priority t" "sibling_next u = sibling_next t"
    and "time_slice u = time_slice t"
  shows "sched_ok (s\<lparr>tasks := (tasks s)(p \<mapsto> u)\<rparr>) qs"
  using assms sched_wf_mod [of s qs p t u] by (auto simp: sched_ok_def)

lemma fork_effect:
  assumes ok: "sched_ok (sc m) qs" and t: "tasks (sc m) (current_task (sc m)) = Some t"
  obtains (fail) s' where "sys_fork_handler r m = Some (- 1, m\<lparr>sc := s'\<rparr>)" "sched_ok s' qs" "tasks s' = tasks (sc m)"
      "current_task s' = current_task (sc m)" "kheap_live (heap s') = kheap_live (heap (sc m))"
  | (child) p u d s' where "sys_fork_handler r m = Some (next_pid (sc m), m\<lparr>sc := s'\<rparr>)" "p \<notin> dom (tasks (sc m))"
      "tasks s' = (tasks (sc m))(p \<mapsto> u)" "current_task s' = current_task (sc m)"
      "sched_ok s' (qs[unat (priority t) := p # qs ! unat (priority t)])"
      "pid u = next_pid (sc m)" "state u = TASK_READY" "priority u = priority t" "parent u = current_task (sc m)"
      "regs u = (regs_context_of_bytes r)\<lparr>eax := 0\<rparr>" "page_dir u = page_dir t" "heap_start u = heap_start t"
      "heap_end u = heap_end t" "d \<in> kheap_live (heap s') - kheap_live (heap (sc m))"
      "d \<noteq> p" "d \<noteq> kernel_stack_top u - 4096"
proof -
  let ?s = "sc m" and ?k = "unat (priority t)"
  have wf: "kheap_ok (heap ?s)" "dom (tasks ?s) \<subseteq> kheap_live (heap ?s)" "length ''forked'' < 32" "priority t < MAX_PRIORITY"
    using ok t by (auto simp: sched_ok_def sched_wf_def ran_def)
  note created = sched_ok_create [OF ok wf(3), of "s_eip r" "priority t"]
  from wf show thesis
  proof (cases rule: create_taskE [where e = "s_eip r"])
    case f: (fail h n' ds)
    then have "sys_fork_handler r m = Some (- 1, m\<lparr>sc := ?s\<lparr>heap := h, next_pid := n', dirs := ds\<rparr>\<rparr>)"
      using t by (simp add: sys_fork_handler_def)
    then show thesis using created f by (intro fail [of "?s\<lparr>heap := h, next_pid := n', dirs := ds\<rparr>"]) auto
  next
    case (got p d k c h)
    let ?s1 = "?s\<lparr>heap := h, next_pid := next_pid ?s + 1, tasks := (tasks ?s)(p \<mapsto> c),
      dirs := (dirs ?s)(d := dirs ?s (kernel_dir ?s)), ready_queue := (ready_queue ?s)[?k := p]\<rparr>"
    let ?u = "c\<lparr>regs := (regs_context_of_bytes r)\<lparr>eax := 0\<rparr>, page_dir := page_dir t, heap_start := heap_start t,
      heap_end := heap_end t, memory_usage_kb := memory_usage_kb t, user_stack_top := user_stack_top t\<rparr>"
    let ?s2 = "?s1\<lparr>tasks := (tasks ?s1)(p \<mapsto> ?u)\<rparr>"
    have p: "p \<notin> dom (tasks ?s)" "p \<noteq> current_task ?s" using got(6) wf(2) t by auto
    have ok1: "sched_ok ?s1 (qs[?k := p # qs ! ?k])" using created got(1,2) by auto
    have ok2: "sched_ok ?s2 (qs[?k := p # qs ! ?k])" by (rule sched_ok_mod [OF ok1, of p c]) simp_all
    have pid: "pid c = next_pid ?s" using got(8) by simp
    have "sys_fork_handler r m = Some (next_pid ?s, m\<lparr>sc := ?s2\<rparr>)"
      using t got(1,2) p(2) pid by (simp add: sys_fork_handler_def mod_task_def)
    then show thesis using ok2 p(1) got(5-8)
      by (intro child [of ?s2 p ?u d]) (auto simp: task_zero_def)
  qed
qed

text \<open>What a system call needs and keeps: a well-formed scheduler with a current task.\<close>

definition machine_ok :: "'io machine \<Rightarrow> bool" where
  "machine_ok m \<longleftrightarrow> (\<exists>qs. sched_ok (sc m) qs) \<and> current_task (sc m) \<noteq> NULL"

lemma machine_ok_current: "machine_ok m \<Longrightarrow> \<exists>t. tasks (sc m) (current_task (sc m)) = Some t"
  by (auto simp: machine_ok_def sched_ok_def)

lemma machine_ok_other [simp]: "machine_ok (m\<lparr>pg := p\<rparr>) = machine_ok m"
  by (simp add: machine_ok_def)

lemma machine_ok_set:
  assumes "machine_ok m" "tasks (sc m) (current_task (sc m)) = Some t"
    and "priority u = priority t" "sibling_next u = sibling_next t" "time_slice u = time_slice t"
  shows "machine_ok (set_current u m)"
  using assms sched_ok_mod [of "sc m" _ "current_task (sc m)" t u] by (auto simp: machine_ok_def set_current_def)

lemma fork_safe:
  assumes "machine_ok m"
  shows "\<exists>v m'. sys_fork_handler r m = Some (v, m') \<and> machine_ok m'"
proof -
  obtain qs t where ok: "sched_ok (sc m) qs" and t: "tasks (sc m) (current_task (sc m)) = Some t"
    using assms machine_ok_current [OF assms] by (auto simp: machine_ok_def)
  have c: "current_task (sc m) \<noteq> NULL" using assms by (simp add: machine_ok_def)
  from ok t show ?thesis
    by (cases rule: fork_effect [where r = r]) (use c in \<open>auto simp: machine_ok_def\<close>)
qed

lemma sbrk_safe:
  assumes "machine_ok m" "kb_of (s_ebx r) \<noteq> None"
  shows "\<exists>v m'. sys_sbrk_handler r m = Some (v, m') \<and> machine_ok m'"
proof -
  obtain t where t: "tasks (sc m) (current_task (sc m)) = Some t" using machine_ok_current [OF assms(1)] by blast
  show ?thesis unfolding sbrk_unfold [OF t] using assms(2)
    by (auto simp: Let_def with_heap_def intro!: machine_ok_set [OF assms(1) t])
qed

lemma execve_fails:
  "string_at (s_ebx r) (umem m) \<noteq> None \<Longrightarrow> sys_execve_handler x r m = Some (- 1, m)"
  by (auto simp: sys_execve_handler_def elf_load_never)

text \<open>The page directory of a task is the kernel's, or a block of its own that is no task.\<close>

definition own_directory :: "sched \<Rightarrow> task \<Rightarrow> bool" where
  "own_directory s t \<longleftrightarrow> page_dir t = NULL \<or> page_dir t = kernel_dir s \<or> page_dir t \<in> kheap_live (heap s) - dom (tasks s)"

lemma exit_switches:
  assumes ok: "sched_ok s qs" and t: "tasks s (current_task s) = Some t" and own: "own_directory s t"
  shows "\<exists>s' qs'. task_exit s = Some s' \<and> sched_ok s' qs' \<and> current_task s' \<noteq> NULL \<and> dom (tasks s) \<subseteq> dom (tasks s') \<and>
    insert (current_task s') (queued qs') \<inter> dom (tasks s) \<subseteq> insert (current_task s) (queued qs)"
proof -
  let ?s = "\<lambda>h. s\<lparr>tasks := (tasks s)(current_task s \<mapsto> t\<lparr>state := TASK_ZOMBIE\<rparr>), heap := h\<rparr>"
  have c: "current_task s \<noteq> NULL" using t sched_ok_null [OF ok] by auto
  have dom: "dom (tasks (?s h)) = dom (tasks s)" "current_task (?s h) = current_task s" for h using t by auto
  obtain h where h: "task_exit s = schedule (?s h)" "sched_ok (?s h) qs"
    using task_exit_prepares [OF ok t] own unfolding own_directory_def by metis
  obtain s' where "schedule (?s h) = Some s'" "current_task s' \<noteq> NULL" using schedule_current [OF h(2)] c by auto
  then show ?thesis using schedule_step [OF h(2), unfolded dom] h(1) by auto
qed

lemma table_safe:
  assumes "machine_ok m" "n \<in> {1, 2, 3, 4, 5, 6, 7, 8, 9, 11}"
    and "n = 3 \<longrightarrow> s_ebx r \<noteq> 1" "n = 4 \<longrightarrow> s_ebx r \<noteq> 0"
    and "n = 9 \<longrightarrow> kb_of (s_ebx r) \<noteq> None" "n = 11 \<longrightarrow> string_at (s_ebx r) (umem m) \<noteq> None"
  shows "\<exists>v m'. (syscall_table x ! n) r m = Some (v, m') \<and> machine_ok m' \<and> (n = 11 \<longrightarrow> v = - 1 \<and> m' = m)"
proof -
  have "\<exists>v m'. (syscall_table x ! n) r m = Some (v, m') \<and> machine_ok m'" if "n \<noteq> 11"
    using assms that fork_safe [OF assms(1), of r] sbrk_safe [OF assms(1), of r]
    by (auto simp: syscall_table_def sys_wait_handler_def sys_write_handler_def sys_read_handler_def
      sys_open_handler_def sys_close_handler_def sys_mmap_handler_def sys_munmap_handler_def split: prod.splits)
  moreover have "(syscall_table x ! 11) r m = Some (- 1, m)" if "n = 11"
    using execve_fails [of r m x] assms(6) that by (simp add: syscall_table_def)
  ultimately show ?thesis using assms(1) by (cases "n = 11") auto
qed

subsection \<open>Properties\<close>

text \<open>C22: \<open>sbrk\<close> grows the heap of the current task. For an increment of less than 1 GB on a heap that ends in user
  space it returns the old end and moves the end up by exactly the increment, without wrap-around, and counts
  the memory in started kilobytes; when the new end would lie above \<open>0xC0000000\<close> it returns -1 (\<^verbatim>\<open>docs/SYSCALLS.md\<close> says \<^verbatim>\<open>NULL\<close>) and the end stays.
  The first call sets the heap up at \<open>0x08049000\<close>. Nothing else of the machine changes.\<close>

theorem sbrk_grows:
  assumes "tasks (sc m) (current_task (sc m)) = Some t" "s_ebx r < 0x40000000"
    and "u = with_heap t" "heap_end u \<le> 0xC0000000"
  shows "if unat (heap_end u) + unat (s_ebx r) \<le> 0xC0000000
    then (\<exists>e. unat e = unat (heap_end u) + unat (s_ebx r) \<and> sys_sbrk_handler r m = Some (heap_end u,
        set_current (u\<lparr>heap_end := e,
          memory_usage_kb := memory_usage_kb u + of_nat ((unat (s_ebx r) + 1023) div 1024)\<rparr>) m))
    else sys_sbrk_handler r m = Some (- 1, set_current u m)"
proof -
  have i: "unat (s_ebx r) < 0x40000000" "unat (heap_end u) \<le> 0xC0000000"
    using assms(2,4) by (simp_all add: word_less_nat_alt word_le_nat_alt)
  then have e: "unat (heap_end u + s_ebx r) = unat (heap_end u) + unat (s_ebx r)" by (intro unat_plus_small) simp
  have "kb_of (s_ebx r) = Some (of_nat ((unat (s_ebx r) + 1023) div 1024))" using i by (intro kb_of_small) simp
  moreover have "heap_end u + s_ebx r > 0xC0000000 \<longleftrightarrow> \<not> unat (heap_end u) + unat (s_ebx r) \<le> 0xC0000000"
    unfolding word_less_nat_alt e by (simp add: not_le)
  ultimately show ?thesis
    using sbrk_unfold [OF assms(1), of r] e assms(3) by (auto simp: Let_def)
qed

text \<open>A booted machine whose current task has made no \<open>sbrk\<close> yet.\<close>

definition machine_of :: "sched \<Rightarrow> unit machine" where
  "machine_of s = \<lparr>sc = s, pg = \<lparr>total_frames = 0, used_frames = 0, frame_bitmap = 0, kernel_page_dir = 0, cr0 = 0, mem = (\<lambda>_. 0)\<rparr>,
     vf = vfs0, umem = (\<lambda>_. 0), io = ()\<rparr>"

definition regs_of :: "u32 \<Rightarrow> u32 \<Rightarrow> sregs" where
  "regs_of num arg = \<lparr>s_eax = num, s_ebx = arg, s_ecx = 0xC, s_edx = 0xD, s_esi = 0x51, s_edi = 0xD1, s_ebp = 0xB, s_esp = 0xC0FF0000,
     s_eip = 0x08048010, s_eflags = 0x202, s_cs = 8, s_ds = 16, s_es = 16, s_fs = 16, s_gs = 16, s_ss = 16\<rparr>"

text \<open>Some externals: nothing is printed or read, and the rest of the system only lets the clock tick.\<close>

definition ticking :: "unit external" where
  "ticking = \<lparr>kwrite = (\<lambda>_ _. Some), keyboard_read_buf = (\<lambda>_ _ m. Some (0, m)), install = (\<lambda>_ _. Some),
     until_back = (\<lambda>m. Some (m\<lparr>sc := (sc m)\<lparr>system_ticks := system_ticks (sc m) + 1\<rparr>\<rparr>)),
     stack_ehdr = (0xC0FF1000, \<lparr>e_ident = replicate 16 0, e_type = 0, e_machine = 0, e_version = 0, e_entry = 0, e_phoff = 0, e_shoff = 0,
       e_flags = 0, e_ehsize = 0, e_phentsize = 0, e_phnum = 0, e_shentsize = 0, e_shnum = 0, e_shstrndx = 0\<rparr>),
     stack_phdr = (0xC0FF2000, \<lparr>p_type = 0, p_offset = 0, p_vaddr = 0, p_paddr = 0, p_filesz = 0, p_memsz = 0, p_flags = 0, p_align = 0\<rparr>)\<rparr>"

lemma booted_machine:
  obtains s qs t where "sched_init machine0 = Some s" "sched_ok s qs" "current_task s \<noteq> NULL"
    "tasks s (current_task s) = Some t" "priority t = 0" "time_slice t \<noteq> 1"
proof -
  obtain s a b t where s: "sched_init machine0 = Some s" "sched_ok s ((replicate 16 [])[0 := [a], 5 := [b]])"
      "current_task s = a" "tasks s a = Some t" "time_slice t = TIME_SLICE" "priority t = 0" "a \<noteq> NULL"
    by (rule machine0_boots)
  show thesis using s by (intro that [OF s(1,2)]) (auto simp: TIME_SLICE_def)
qed

theorem sbrk_grows_witness:
  "\<exists>s t u m'. tasks s (current_task s) = Some t \<and> u = t\<lparr>heap_start := 0x08049000, heap_end := 0xBFFFF000\<rparr> \<and>
     sys_sbrk_handler (regs_of 9 0x1000) (set_current u (machine_of s)) = Some (0xBFFFF000, m') \<and>
     sys_sbrk_handler (regs_of 9 0x1001) (set_current u (machine_of s)) = Some (- 1, set_current u (machine_of s))"
proof -
  obtain s qs t where "sched_init machine0 = Some s" "sched_ok s qs" "current_task s \<noteq> NULL"
    and t: "tasks s (current_task s) = Some t" and "priority t = 0" "time_slice t \<noteq> 1" by (rule booted_machine)
  let ?u = "t\<lparr>heap_start := 0x08049000, heap_end := 0xBFFFF000\<rparr>"
  let ?m = "set_current ?u (machine_of s)"
  have u: "tasks (sc ?m) (current_task (sc ?m)) = Some ?u" by (simp add: machine_of_def)
  have w: "with_heap ?u = ?u" by (simp add: with_heap_def)
  have h: "s_ebx (regs_of 9 0x1000) < 0x40000000" "s_ebx (regs_of 9 0x1001) < 0x40000000" "?u = with_heap ?u" "heap_end ?u \<le> 0xC0000000"
    using w by (simp_all add: regs_of_def)
  have n: "unat (heap_end ?u) + unat (s_ebx (regs_of 9 0x1000)) \<le> 0xC0000000"
    "\<not> unat (heap_end ?u) + unat (s_ebx (regs_of 9 0x1001)) \<le> 0xC0000000" "heap_end ?u = 0xBFFFF000"
    by (simp_all add: regs_of_def)
  note g = sbrk_grows [OF u h(1,3,4)] sbrk_grows [OF u h(2,3,4)]
  obtain m' where "sys_sbrk_handler (regs_of 9 0x1000) ?m = Some (0xBFFFF000, m')"
    using g(1) unfolding n(3) if_P [OF n(1) [unfolded n(3)]] by blast
  moreover have "sys_sbrk_handler (regs_of 9 0x1001) ?m = Some (- 1, ?m)"
    using g(2) unfolding if_not_P [OF n(2)] set_current_simps(3) .
  ultimately show ?thesis using t by blast
qed

text \<open>C21: \<open>fork\<close>. From a well-formed scheduler it returns -1, with the tasks, the queues and the live memory as they
  were, or the pid of a new ready task that is first in the queue of its parent's priority. The registers of that
  child are not its parent's: the two C structures have different field orders, so the child starts with the
  parent's EDX as its stack pointer, EAX in EDI, EBX in ESI and so on (only the instruction
  pointer, the flags and the segments agree). It shares the page directory of its parent, and the page directory and its
  memory that \<open>create_task\<close> made for it stays allocated with no task pointing to it.\<close>

theorem fork_child:
  assumes "sched_ok (sc m) qs" "tasks (sc m) (current_task (sc m)) = Some t"
  shows "\<exists>v s'. sys_fork_handler r m = Some (v, m\<lparr>sc := s'\<rparr>) \<and> current_task s' = current_task (sc m) \<and>
    (v = - 1 \<and> sched_ok s' qs \<and> tasks s' = tasks (sc m) \<and> kheap_live (heap s') = kheap_live (heap (sc m)) \<or>
     (\<exists>p u d. v = pid u \<and> pid u = next_pid (sc m) \<and> p \<notin> dom (tasks (sc m)) \<and> tasks s' = (tasks (sc m))(p \<mapsto> u) \<and>
        sched_ok s' (qs[unat (priority t) := p # qs ! unat (priority t)]) \<and> state u = TASK_READY \<and>
        eax (regs u) = 0 \<and> eip (regs u) = s_eip r \<and> esp (regs u) = s_edx r \<and> edi (regs u) = s_eax r \<and>
        esi (regs u) = s_ebx r \<and> ebp (regs u) = s_ecx r \<and> ebx (regs u) = s_esi r \<and> edx (regs u) = s_edi r \<and>
        ecx (regs u) = s_ebp r \<and>
        page_dir u = page_dir t \<and> d \<in> kheap_live (heap s') - kheap_live (heap (sc m)) \<and>
        d \<noteq> p \<and> d \<noteq> kernel_stack_top u - 4096))"
  using assms
proof (cases rule: fork_effect [where r = r])
  case (fail s')
  then show ?thesis by blast
next
  case (child p u d s')
  then show ?thesis
    by (intro exI [of _ "next_pid (sc m)"] exI [of _ s'] conjI disjI2 exI [of _ p] exI [of _ u] exI [of _ d])
      (simp_all add: regs_context_of_bytes_def)
qed

theorem fork_child_witness:
  "\<exists>s v s'. sched_init machine0 = Some s \<and> sys_fork_handler (regs_of 1 0) (machine_of s) = Some (v, (machine_of s)\<lparr>sc := s'\<rparr>) \<and>
     current_task s' = current_task s"
proof -
  obtain s qs t where s: "sched_init machine0 = Some s" "sched_ok s qs" "current_task s \<noteq> NULL"
    "tasks s (current_task s) = Some t" "priority t = 0" "time_slice t \<noteq> 1" by (rule booted_machine)
  then show ?thesis using fork_child [of "machine_of s" qs t "regs_of 1 0"] by (auto simp: machine_of_def)
qed

text \<open>C19: System calls are safe on a well-formed machine. \<open>exit\<close> and \<open>sleep\<close>, which give the processor away, and the two
  calls that leave the modelled code (\<open>write\<close> to the console, \<open>read\<close> from the keyboard) apart, every call returns,
  changes of the caller's registers only EAX and keeps the machine well formed: whatever the number, \<open>fork\<close>, \<open>wait\<close>,
  \<open>open\<close>, \<open>close\<close>, \<open>mmap\<close> and \<open>munmap\<close> with any arguments, \<open>sbrk\<close> with an increment whose rounding does not
  overflow, \<open>execve\<close> with a path that is a string. An invalid number gives -1 and changes nothing, and so does every
  \<open>execve\<close>.\<close>

theorem syscall_safe:
  assumes "machine_ok m" "s_eax r \<notin> {0, 10}" "s_eax r = 3 \<longrightarrow> s_ebx r \<noteq> 1" "s_eax r = 4 \<longrightarrow> s_ebx r \<noteq> 0"
    and "s_eax r = 9 \<longrightarrow> kb_of (s_ebx r) \<noteq> None" "s_eax r = 11 \<longrightarrow> string_at (s_ebx r) (umem m) \<noteq> None"
  shows "\<exists>v m'. syscall_handler x r m = Some (r\<lparr>s_eax := v\<rparr>, m') \<and> machine_ok m' \<and>
    (12 \<le> s_eax r \<longrightarrow> v = - 1 \<and> m' = m) \<and> (s_eax r = 11 \<longrightarrow> v = - 1 \<and> m' = m)"
proof (cases "s_eax r \<ge> MAX_SYSCALLS")
  case True
  then show ?thesis using assms(1) by (auto simp: syscall_handler_def MAX_SYSCALLS_def Let_def)
next
  case False
  let ?n = "unat (s_eax r)"
  have r: "s_eax r = k \<longleftrightarrow> ?n = unat k" for k by (simp add: word_unat_eq_iff)
  have lt: "?n < 12" using False by (simp add: MAX_SYSCALLS_def word_less_nat_alt not_le)
  moreover have "?n \<noteq> 10" "?n \<noteq> 0" using assms(2) r [of 10] r [of 0] by simp_all
  ultimately have n: "?n \<in> {1, 2, 3, 4, 5, 6, 7, 8, 9, 11}" by simp presburger
  have "?n = 3 \<longrightarrow> s_ebx r \<noteq> 1" "?n = 4 \<longrightarrow> s_ebx r \<noteq> 0" "?n = 9 \<longrightarrow> kb_of (s_ebx r) \<noteq> None"
    "?n = 11 \<longrightarrow> string_at (s_ebx r) (umem m) \<noteq> None"
    using assms(3-6) unfolding r by simp_all
  from table_safe [OF assms(1) n this, where x = x]
  obtain v m' where "(syscall_table x ! ?n) r m = Some (v, m')" "machine_ok m'" "?n = 11 \<longrightarrow> v = - 1 \<and> m' = m"
    by (elim exE conjE)
  then show ?thesis using False lt r [of 11]
    by (intro exI [of _ v] exI [of _ m']) (auto simp: syscall_handler_def MAX_SYSCALLS_def Let_def not_le)
qed

theorem syscall_safe_witness:
  "\<exists>s. sched_init machine0 = Some s \<and> (\<forall>x. \<exists>v m'.
     syscall_handler x (regs_of 12 0) (machine_of s) = Some ((regs_of 12 0)\<lparr>s_eax := - 1\<rparr>, machine_of s) \<and>
     syscall_handler x (regs_of 1 0) (machine_of s) = Some ((regs_of 1 0)\<lparr>s_eax := v\<rparr>, m') \<and> machine_ok m')"
proof -
  obtain s qs t where s: "sched_init machine0 = Some s" "sched_ok s qs" "current_task s \<noteq> NULL"
    "tasks s (current_task s) = Some t" "priority t = 0" "time_slice t \<noteq> 1" by (rule booted_machine)
  then have ok: "machine_ok (machine_of s)" by (auto simp: machine_ok_def machine_of_def)
  have "\<exists>v m'. syscall_handler x (regs_of 12 0) (machine_of s) = Some ((regs_of 12 0)\<lparr>s_eax := - 1\<rparr>, machine_of s) \<and>
     syscall_handler x (regs_of 1 0) (machine_of s) = Some ((regs_of 1 0)\<lparr>s_eax := v\<rparr>, m') \<and> machine_ok m'" for x
    using syscall_safe [OF ok, of "regs_of 12 0" x] syscall_safe [OF ok, of "regs_of 1 0" x] by (auto simp: regs_of_def)
  then show ?thesis using s(1) by blast
qed

end
