(* ===== verification/Libc.thy ===== *)
theory Libc
  imports Kprintf Syscall
begin

text \<open>
  The library of user programs: \<^verbatim>\<open>lib/libc.c\<close>, of which \<^verbatim>\<open>user-lib/libc.c\<close> is a copy, on the system calls.

  \<^verbatim>\<open>int 0x80\<close> takes the number from EAX only: the inline assembly of \<^verbatim>\<open>syscall\<close> puts none of its further arguments
  into a register. So the model has the registers of the caller as an argument beside the arguments of the C
  functions; a function that makes several calls gets them as a function from the number of the call.
\<close>

unbundle bit_operations_syntax

subsection \<open>System calls\<close>

definition SYS_exit :: u32 where "SYS_exit = 0"
definition SYS_write :: u32 where "SYS_write = 3"
definition SYS_read :: u32 where "SYS_read = 4"
definition SYS_open :: u32 where "SYS_open = 5"
definition SYS_close :: u32 where "SYS_close = 6"
definition SYS_sbrk :: u32 where "SYS_sbrk = 9"
definition SYS_sleep :: u32 where "SYS_sleep = 10"

text \<open>The list is the variable arguments.\<close>

definition syscall :: "'io external \<Rightarrow> u32 \<Rightarrow> u32 list \<Rightarrow> 'io handler" where
  "syscall x num args r m = do { (r, m) \<leftarrow> syscall_handler x (r\<lparr>s_eax := num\<rparr>) m; Some (s_eax r, m) }"

definition user_write :: "'io external \<Rightarrow> u32 \<Rightarrow> addr \<Rightarrow> u32 \<Rightarrow> 'io handler" where
  "user_write x fd buf count = syscall x SYS_write [fd, buf, count]"

definition user_read :: "'io external \<Rightarrow> u32 \<Rightarrow> addr \<Rightarrow> u32 \<Rightarrow> 'io handler" where
  "user_read x fd buf count = syscall x SYS_read [fd, buf, count]"

definition user_open :: "'io external \<Rightarrow> addr \<Rightarrow> u32 \<Rightarrow> 'io handler" where
  "user_open x path flags = syscall x SYS_open [path, flags]"

definition user_close :: "'io external \<Rightarrow> u32 \<Rightarrow> 'io handler" where
  "user_close x fd = syscall x SYS_close [fd]"

definition sbrk :: "'io external \<Rightarrow> u32 \<Rightarrow> 'io handler" where
  "sbrk x increment = syscall x SYS_sbrk [increment]"

definition sleep :: "'io external \<Rightarrow> u32 \<Rightarrow> 'io handler" where
  "sleep x seconds = syscall x SYS_sleep [seconds]"

definition exit :: "'io external \<Rightarrow> u32 \<Rightarrow> sregs \<Rightarrow> 'io machine \<Rightarrow> 'io machine option" where
  "exit x status r m = do { (_, m) \<leftarrow> syscall x SYS_exit [status] r m; Some m }"

subsection \<open>Memory\<close>

definition malloc :: "'io external \<Rightarrow> u32 \<Rightarrow> 'io handler" where
  "malloc x sz r m = (let sz = (sz + 4095) AND NOT 4095 in sbrk x sz r m)"

definition user_free :: "addr \<Rightarrow> 'io machine \<Rightarrow> 'io machine" where
  "user_free ptr m = m"

subsection \<open>Output\<close>

text \<open>The loop of \<open>printf\<close> is the loop of \<open>kprintf\<close>, statement for statement, with 1023 for
  \<^verbatim>\<open>PRINTF_BUFFER_SIZE - 1\<close>. \<open>buf\<close> is the buffer on the stack, \<open>log_path\<close> the string \<^verbatim>\<open>"/dev/log"\<close>; \<open>flags\<close> is
  \<^verbatim>\<open>O_WRONLY\<close>, which no header defines.\<close>

definition printf :: "'io external \<Rightarrow> addr \<Rightarrow> addr \<Rightarrow> u32 \<Rightarrow> u8 list \<Rightarrow> fmt_arg list \<Rightarrow> (nat \<Rightarrow> sregs) \<Rightarrow> 'io machine \<Rightarrow>
    (u32 \<times> 'io machine) option" where
  "printf x buf log_path flags format args r m = do {
     text \<leftarrow> kprintf_format format args [];
     if PRINTF_BUFFER_SIZE \<le> length text then None
     else do {
       let m = m\<lparr>umem := store_bytes buf (text @ [0]) (umem m)\<rparr>;
       (ret, m) \<leftarrow> user_write x 1 buf (of_nat (length text)) (r 0) m;
       (log_fd, m) \<leftarrow> user_open x log_path flags (r 1) m;
       m \<leftarrow> (if 0 \<le> sint log_fd
             then do {
               (_, m) \<leftarrow> user_write x log_fd buf (of_nat (length text)) (r 2) m;
               (_, m) \<leftarrow> user_close x log_fd (r 3) m;
               Some m }
             else Some m);
       Some (ret, m) } }"

subsection \<open>What the calls do\<close>

lemma syscall_sbrk: "syscall x SYS_sbrk args r m = sys_sbrk_handler (r\<lparr>s_eax := SYS_sbrk\<rparr>) m"
  by (cases "sys_sbrk_handler (r\<lparr>s_eax := SYS_sbrk\<rparr>) m")
    (auto simp: syscall_def syscall_handler_def syscall_table_def MAX_SYSCALLS_def SYS_sbrk_def)

lemma syscall_write: "syscall x SYS_write args r m = sys_write_handler x (r\<lparr>s_eax := SYS_write\<rparr>) m"
  by (cases "sys_write_handler x (r\<lparr>s_eax := SYS_write\<rparr>) m")
    (auto simp: syscall_def syscall_handler_def syscall_table_def MAX_SYSCALLS_def SYS_write_def)

lemma syscall_open: "syscall x SYS_open args r m = Some (1, m)"
  by (simp add: syscall_def syscall_handler_def syscall_table_def MAX_SYSCALLS_def SYS_open_def sys_open_handler_def)

lemma syscall_close: "syscall x SYS_close args r m = Some (0, m)"
  by (simp add: syscall_def syscall_handler_def syscall_table_def MAX_SYSCALLS_def SYS_close_def sys_close_handler_def)

lemma malloc_grows:
  assumes "tasks (sc m) (current_task (sc m)) = Some t" "u = with_heap t"
    and "unat (heap_end u) + unat (s_ebx r) \<le> 0xC0000000" "s_ebx r < 0x40000000"
  obtains v where "malloc x n r m = Some (heap_end u, set_current v m)" "heap_start v = heap_start u" "heap_start u \<noteq> 0"
    "unat (heap_end v) = unat (heap_end u) + unat (s_ebx r)" "heap_end v = heap_end u + s_ebx r"
proof -
  let ?e = "heap_end u + s_ebx r"
  have i: "unat (s_ebx r) < 0x40000000" using assms(4) by (simp add: word_less_nat_alt)
  have e: "unat ?e = unat (heap_end u) + unat (s_ebx r)" using assms(3) by (intro unat_plus_small) simp
  have kb: "kb_of (s_ebx r) = Some (of_nat ((unat (s_ebx r) + 1023) div 1024))" using i by (intro kb_of_small) simp
  have le: "\<not> ?e > 0xC0000000" unfolding word_less_nat_alt e using assms(3) by simp
  show thesis
  proof (rule that)
    show "malloc x n r m = Some (heap_end u, set_current (u\<lparr>heap_end := ?e,
        memory_usage_kb := memory_usage_kb u + of_nat ((unat (s_ebx r) + 1023) div 1024)\<rparr>) m)"
      using sbrk_unfold [OF assms(1), of "r\<lparr>s_eax := SYS_sbrk\<rparr>"] kb le assms(2)
      by (simp add: malloc_def sbrk_def syscall_sbrk Let_def)
  qed (use e assms(2) in \<open>auto simp: with_heap_def\<close>)
qed

subsection \<open>Properties\<close>

text \<open>C23: the size of a block does not reach the kernel. Two calls of \<open>malloc\<close>, of whatever sizes, give addresses whose
  distance is what register EBX holds at the first call: with 0 in EBX both blocks are the same memory.\<close>

theorem malloc_blocks:
  assumes "tasks (sc m) (current_task (sc m)) = Some t" "heap_end (with_heap t) \<le> 0x80000000"
    and "s_ebx r < 0x20000000" "s_ebx r' < 0x20000000"
  shows "\<exists>p m' m''. malloc x n r m = Some (p, m') \<and> malloc x k r' m' = Some (p + s_ebx r, m'')"
proof -
  let ?u = "with_heap t"
  have n: "unat (heap_end ?u) \<le> 0x80000000" "unat (s_ebx r) < 0x20000000" "unat (s_ebx r') < 0x20000000"
    using assms(2-4) by (simp_all add: word_le_nat_alt word_less_nat_alt)
  obtain v where v: "malloc x n r m = Some (heap_end ?u, set_current v m)" "heap_start v = heap_start ?u" "heap_start ?u \<noteq> 0"
    "unat (heap_end v) = unat (heap_end ?u) + unat (s_ebx r)" "heap_end v = heap_end ?u + s_ebx r"
  proof (rule malloc_grows [OF assms(1) refl])
    show "unat (heap_end ?u) + unat (s_ebx r) \<le> 0xC0000000" using n by simp
    show "s_ebx r < 0x40000000" using n(2) by (simp add: word_less_nat_alt)
  qed blast
  have w: "with_heap v = v" using v(2,3) by (simp add: with_heap_def)
  obtain v' where "malloc x k r' (set_current v m) = Some (heap_end v, set_current v' (set_current v m))"
  proof (rule malloc_grows [where u = v and m = "set_current v m" and t = v and r = r'])
    show "tasks (sc (set_current v m)) (current_task (sc (set_current v m))) = Some v" by simp
    show "v = with_heap v" using w by simp
    show "unat (heap_end v) + unat (s_ebx r') \<le> 0xC0000000" using n v(4) by simp
    show "s_ebx r' < 0x40000000" using n(3) by (simp add: word_less_nat_alt)
  qed blast
  then show ?thesis using v(1,5) by auto
qed

theorem malloc_blocks_witness:
  "\<exists>s t m. tasks s (current_task s) = Some t \<and> m = set_current (t\<lparr>heap_start := 0\<rparr>) (machine_of s) \<and>
     (\<forall>x. \<exists>p m' m''. malloc x 100000 (regs_of 9 0) m = Some (p, m') \<and> malloc x 5000 (regs_of 9 0) m' = Some (p, m''))"
proof -
  obtain s qs t where "sched_init machine0 = Some s" "sched_ok s qs" "current_task s \<noteq> NULL"
    and t: "tasks s (current_task s) = Some t" and "priority t = 0" "time_slice t \<noteq> 1" by (rule booted_machine)
  let ?m = "set_current (t\<lparr>heap_start := 0\<rparr>) (machine_of s)"
  have u: "tasks (sc ?m) (current_task (sc ?m)) = Some (t\<lparr>heap_start := 0\<rparr>)" by (simp add: machine_of_def)
  have "heap_end (with_heap (t\<lparr>heap_start := 0\<rparr>)) \<le> 0x80000000" "s_ebx (regs_of 9 0) < 0x20000000" "s_ebx (regs_of 9 0) = 0"
    by (simp_all add: with_heap_def regs_of_def)
  then show ?thesis using malloc_blocks [OF u, of "regs_of 9 0" "regs_of 9 0" _ 100000 5000] t by auto
qed

text \<open>A program whose registers EBX do not hold 1 by accident prints nothing: \<open>printf\<close> of any format whose text fits
  the buffer returns -1, the machine is as before but for the buffer, and the console is not called.\<close>

theorem printf_prints_nothing:
  assumes "kprintf_format format args [] = Some out" "length out < PRINTF_BUFFER_SIZE" "s_ebx (r 0) \<noteq> 1" "s_ebx (r 2) \<noteq> 1"
  shows "printf x buf log_path flags format args r m = Some (- 1, m\<lparr>umem := store_bytes buf (out @ [0]) (umem m)\<rparr>)"
  using assms
  by (simp add: printf_def user_write_def user_open_def user_close_def syscall_write syscall_open syscall_close
      sys_write_handler_def)

theorem printf_prints_nothing_witness:
  "\<forall>x. \<exists>m'. printf x 0x9000 0xA000 1 (map ch ''pid %s'') [Str_arg (Some [ch CHR ''7''])] (\<lambda>_. regs_of 3 0) (machine_of machine0) = Some (- 1, m') \<and>
    umem m' 0x9004 = ch CHR ''7''"
proof
  fix x
  have f: "kprintf_format (map ch ''pid %s'') [Str_arg (Some [ch CHR ''7''])] [] = Some (map ch ''pid 7'')"
    by (simp add: kprintf_conv_def PRINTF_BUFFER_SIZE_def str_text_def ch_def)
  have "length (map ch ''pid 7'') < PRINTF_BUFFER_SIZE" "s_ebx (regs_of 3 0) \<noteq> 1" by (simp_all add: PRINTF_BUFFER_SIZE_def regs_of_def)
  then show "\<exists>m'. printf x 0x9000 0xA000 1 (map ch ''pid %s'') [Str_arg (Some [ch CHR ''7''])] (\<lambda>_. regs_of 3 0) (machine_of machine0) = Some (- 1, m') \<and>
    umem m' 0x9004 = ch CHR ''7''"
    using printf_prints_nothing [OF f, of "\<lambda>_. regs_of 3 0" x "0x9000" "0xA000" 1 "machine_of machine0"]
    by (simp add: store_bytes_def)
qed

end
