(* ===== verification/Machine.thy ===== *)
theory Machine
  imports Syscall
begin

text \<open>
  The kernel as a machine: timer interrupts (\<^verbatim>\<open>kernel/proc/sched.c\<close>) and system calls (\<^verbatim>\<open>kernel/syscall.c\<close>) in any
  order, from the initialised scheduler on.

  A system call that stays in the modelled code is one step. The two calls that give the processor away
  are cut where they do: \<open>exit\<close> is the step to the end of \<open>task_exit\<close>, and \<open>sleep\<close> consists of marking the caller as
  blocked, of calls of \<open>schedule\<close> and of marking the caller as ready again; any task may take such a step at any time.
  \<open>exit\<close> is a step when the page directory it frees is a block of its own, which two tasks that share one after
  \<open>fork\<close> do not keep up when both exit. Nothing is assumed of the parts the sources do not define: \<open>write\<close> to
  the console and \<open>read\<close> from the keyboard, which call them, are no steps.
\<close>

subsection \<open>Steps\<close>

text \<open>The calls that neither leave the modelled code nor give the processor away.\<close>

definition inner_call :: "sregs \<Rightarrow> bool" where
  "inner_call r \<longleftrightarrow> s_eax r \<notin> {0, 10} \<and> (s_eax r = 3 \<longrightarrow> s_ebx r \<noteq> 1) \<and> (s_eax r = 4 \<longrightarrow> s_ebx r \<noteq> 0)"

inductive machine_step :: "'io external \<Rightarrow> 'io machine \<Rightarrow> 'io machine \<Rightarrow> bool" for x where
  timer: "timer_interrupt_handler r (sc m) = Some s \<Longrightarrow> machine_step x m (m\<lparr>sc := s\<rparr>)"
| syscall: "syscall_handler x r m = Some (r', m') \<Longrightarrow> inner_call r \<Longrightarrow> machine_step x m m'"
| exit: "tasks (sc m) (current_task (sc m)) = Some t \<Longrightarrow> own_directory (sc m) t \<Longrightarrow> lift_sched task_exit m = Some m' \<Longrightarrow>
    machine_step x m m'"
| block: "mod_current (\<lambda>t. t\<lparr>state := TASK_BLOCKED\<rparr>) m = Some m' \<Longrightarrow> machine_step x m m'"
| yield: "lift_sched schedule m = Some m' \<Longrightarrow> machine_step x m m'"
| wake: "mod_current (\<lambda>t. t\<lparr>state := TASK_READY\<rparr>) m = Some m' \<Longrightarrow> machine_step x m m'"

inductive machine_reachable :: "'io external \<Rightarrow> 'io machine \<Rightarrow> bool" for x where
  boot: "unbooted s0 \<Longrightarrow> sched_init s0 = Some (sc m) \<Longrightarrow> current_task (sc m) \<noteq> NULL \<Longrightarrow> machine_reachable x m"
| step: "machine_reachable x m \<Longrightarrow> machine_step x m m' \<Longrightarrow> machine_reachable x m'"

subsection \<open>What a step keeps\<close>

text \<open>A well-formed machine stays one, tasks do not go away, and a task that is then current or queued was so
  before or is new.\<close>

definition advances :: "'io machine \<Rightarrow> 'io machine \<Rightarrow> bool" where
  "advances m m' \<longleftrightarrow> (\<forall>qs. sched_ok (sc m) qs \<longrightarrow> current_task (sc m) \<noteq> NULL \<longrightarrow>
     (\<exists>qs'. sched_ok (sc m') qs' \<and> current_task (sc m') \<noteq> NULL \<and> dom (tasks (sc m)) \<subseteq> dom (tasks (sc m')) \<and>
       insert (current_task (sc m')) (queued qs') \<inter> dom (tasks (sc m)) \<subseteq> insert (current_task (sc m)) (queued qs)))"

lemma advancesD:
  assumes "advances m m'"
  shows "machine_ok m \<Longrightarrow> machine_ok m'" "machine_ok m \<Longrightarrow> lost c (sc m) \<Longrightarrow> lost c (sc m')"
proof -
  show "machine_ok m \<Longrightarrow> machine_ok m'" using assms by (auto simp: advances_def machine_ok_def)
  assume "machine_ok m" "lost c (sc m)"
  then obtain qs where qs: "c \<in> dom (tasks (sc m))" "current_task (sc m) \<noteq> c" "sched_ok (sc m) qs" "c \<notin> queued qs"
    "current_task (sc m) \<noteq> NULL" by (auto simp: lost_def machine_ok_def)
  then obtain qs' where q': "sched_ok (sc m') qs'" "dom (tasks (sc m)) \<subseteq> dom (tasks (sc m'))"
    "insert (current_task (sc m')) (queued qs') \<inter> dom (tasks (sc m)) \<subseteq> insert (current_task (sc m)) (queued qs)"
    using assms unfolding advances_def by blast
  have "c \<notin> insert (current_task (sc m')) (queued qs')" using subsetD [OF q'(3), of c] qs(1,2,4) by auto
  then show "lost c (sc m')" unfolding lost_def using q'(1,2) qs(1) by blast
qed

lemma advances_same: "sc m' = sc m \<Longrightarrow> advances m m'"
  by (auto simp: advances_def)

lemma advances_set:
  assumes "tasks (sc m) (current_task (sc m)) = Some t"
    and "priority u = priority t" "sibling_next u = sibling_next t" "time_slice u = time_slice t"
  shows "advances m (set_current u m)"
  using sched_ok_mod [OF _ assms] assms(1) by (auto simp: advances_def set_current_def)

lemma advances_mod:
  assumes "mod_current f m = Some m'"
    and "\<And>t. priority (f t) = priority t \<and> sibling_next (f t) = sibling_next t \<and> time_slice (f t) = time_slice t"
  shows "advances m m'"
proof -
  obtain t where t: "tasks (sc m) (current_task (sc m)) = Some t" "m' = set_current (f t) m"
    using assms(1) by (auto simp: mod_current_def lift_sched_def mod_task_def set_current_def bind_eq_Some_conv split: if_splits)
  show ?thesis unfolding t(2) by (rule advances_set [OF t(1)]) (use assms(2) in simp_all)
qed

lemma schedule_advances: "schedule (sc m) = Some s \<Longrightarrow> advances m (m\<lparr>sc := s\<rparr>)"
  unfolding advances_def using schedule_step [of "sc m"] schedule_current [of "sc m"] by fastforce

lemma timer_current:
  assumes "sched_ok s qs" "current_task s \<noteq> NULL"
  shows "\<exists>s'. timer_interrupt_handler r s = Some s' \<and> current_task s' \<noteq> NULL"
  using assms(1)
proof (rule timer_prepares [where r = r])
  fix s1
  assume "timer_interrupt_handler r s = schedule s1" "sched_ok s1 qs" "current_task s1 = current_task s"
  then show ?thesis using schedule_current [of s1 qs] assms(2) by auto
qed

lemma timer_advances: "timer_interrupt_handler r (sc m) = Some s \<Longrightarrow> advances m (m\<lparr>sc := s\<rparr>)"
  unfolding advances_def using timer_step [of "sc m" _ r] timer_current [of "sc m" _ r] by fastforce

lemma exit_advances:
  assumes "tasks (sc m) (current_task (sc m)) = Some t" "own_directory (sc m) t" "lift_sched task_exit m = Some m'"
  shows "advances m m'"
  unfolding advances_def using exit_switches [OF _ assms(1,2)] assms(3) by (fastforce simp: lift_sched_def)

lemma fork_advances:
  assumes "sys_fork_handler r m = Some (v, m')"
  shows "advances m m'"
  unfolding advances_def
proof (intro allI impI)
  fix qs assume ok: "sched_ok (sc m) qs" and c: "current_task (sc m) \<noteq> NULL"
  then obtain t where t: "tasks (sc m) (current_task (sc m)) = Some t" by (auto simp: sched_ok_def)
  from ok t show "\<exists>qs'. sched_ok (sc m') qs' \<and> current_task (sc m') \<noteq> NULL \<and> dom (tasks (sc m)) \<subseteq> dom (tasks (sc m')) \<and>
    insert (current_task (sc m')) (queued qs') \<inter> dom (tasks (sc m)) \<subseteq> insert (current_task (sc m)) (queued qs)"
  proof (cases rule: fork_effect [where r = r])
    case (fail s')
    then show ?thesis using assms c by auto
  next
    case (child p u d s')
    have "unat (priority t) < 16" using ok t by (auto simp: sched_ok_def sched_wf_def ran_def unat_prio)
    then have "queued (qs[unat (priority t) := p # qs ! unat (priority t)]) = insert p (queued qs)"
      using sched_ok_length [OF ok] by (intro queued_push) auto
    then show ?thesis using child(1-5) assms c
      by (intro exI [of _ "qs[unat (priority t) := p # qs ! unat (priority t)]"]) auto
  qed
qed

lemma sbrk_advances:
  assumes "sys_sbrk_handler r m = Some (v, m')"
  shows "advances m m'"
proof -
  obtain t where t: "tasks (sc m) (current_task (sc m)) = Some t"
    using assms by (auto simp: sys_sbrk_handler_def Let_def bind_eq_Some_conv)
  show ?thesis using assms unfolding sbrk_unfold [OF t]
    by (auto simp: Let_def with_heap_def bind_eq_Some_conv split: if_splits intro!: advances_set [OF t])
qed

lemma execve_advances: "sys_execve_handler x r m = Some (v, m') \<Longrightarrow> advances m m'"
  using execve_fails [of r m x] advances_same [of m m]
  by (cases "string_at (s_ebx r) (umem m)") (simp_all add: sys_execve_handler_def)

text \<open>Every inner call that returns.\<close>

lemma handler_advances:
  assumes "(syscall_table x ! n) r m = Some (v, m')" "n < 12" "n \<notin> {0, 10}" "n = 3 \<longrightarrow> s_ebx r \<noteq> 1" "n = 4 \<longrightarrow> s_ebx r \<noteq> 0"
  shows "advances m m'"
proof -
  have "n = 1 \<or> n = 9 \<or> n = 11 \<or> n = 2 \<or> n = 3 \<or> n = 4 \<or> n = 5 \<or> n = 6 \<or> n = 7 \<or> n = 8"
    using assms(2,3) by simp presburger
  then consider "n = 1" | "n = 9" | "n = 11" | "n \<in> {2, 3, 4, 5, 6, 7, 8}" by blast
  then show ?thesis
  proof cases
    case 1
    then show ?thesis using fork_advances [of r m v m'] assms(1) by (simp add: syscall_table_def)
  next
    case 2
    then show ?thesis using sbrk_advances [of r m v m'] assms(1) by (simp add: syscall_table_def)
  next
    case 3
    then show ?thesis using execve_advances [of x r m v m'] assms(1) by (simp add: syscall_table_def)
  next
    case 4
    then have "sc m' = sc m"
      using assms(1,4,5) by (auto simp: syscall_table_def sys_wait_handler_def sys_write_handler_def sys_read_handler_def
        sys_open_handler_def sys_close_handler_def sys_mmap_handler_def sys_munmap_handler_def split: prod.splits if_splits)
    then show ?thesis by (rule advances_same)
  qed
qed

lemma syscall_advances:
  assumes "syscall_handler x r m = Some (r', m')" "inner_call r"
  shows "advances m m'"
proof (cases "s_eax r \<ge> MAX_SYSCALLS")
  case True
  then show ?thesis using assms(1) advances_same [of m m] by (simp add: syscall_handler_def)
next
  case False
  then have n: "unat (s_eax r) < 12" by (simp add: MAX_SYSCALLS_def word_less_nat_alt not_le)
  obtain v where v: "(syscall_table x ! unat (s_eax r)) r m = Some (v, m')"
    using assms(1) False by (auto simp: syscall_handler_def Let_def bind_eq_Some_conv)
  have r: "s_eax r = k \<longleftrightarrow> unat (s_eax r) = unat k" for k by (simp add: word_unat_eq_iff)
  show ?thesis
    by (rule handler_advances [OF v n]) (use assms(2) in \<open>simp_all add: inner_call_def r\<close>)
qed

lemma step_advances: "machine_step x m m' \<Longrightarrow> advances m m'"
proof (induction rule: machine_step.induct)
  case (yield m m')
  then show ?case using schedule_advances [of m] by (auto simp: lift_sched_def bind_eq_Some_conv)
qed (auto intro: timer_advances syscall_advances exit_advances elim: advances_mod)

lemma reachable_ok: "machine_reachable x m \<Longrightarrow> machine_ok m"
proof (induction rule: machine_reachable.induct)
  case (boot s0 m)
  then show ?case using sched_init_ok by (auto simp: machine_ok_def)
next
  case (step m m')
  then show ?case using advancesD(1) [OF step_advances] by blast
qed

lemma steps_lost:
  assumes "(machine_step x)\<^sup>*\<^sup>* m m'" "machine_ok m" "lost c (sc m)"
  shows "lost c (sc m')"
proof -
  have "machine_ok m' \<and> lost c (sc m')"
    using assms(1)
  proof (induction rule: rtranclp_induct)
    case (step m1 m2)
    then show ?case using advancesD [OF step_advances [OF step(2)]] by blast
  qed (use assms(2,3) in simp)
  then show ?thesis by simp
qed

subsection \<open>Properties\<close>

text \<open>C17: In every state the machine can reach from the start of the scheduler, in any order and with any registers and
  arguments, by timer interrupts, system calls that stay in the modelled code, the steps of \<open>sleep\<close> and
  \<open>exit\<close> of tasks whose page directory is a block of their own (or the kernel's), the scheduler and the heap are
  well formed: the ready queues are chains of distinct existing tasks of their priority, every task lies in
  a live block of the heap, there is a current task that exists; and the next timer interrupt returns. Not covered are
  console output, keyboard input and the second \<open>exit\<close> of two tasks that share a page directory.\<close>

theorem machine_invariant:
  assumes "machine_reachable x m"
  shows "\<exists>qs t s'. queues (sc m) qs \<and> kheap_ok (heap (sc m)) \<and> dom (tasks (sc m)) \<subseteq> kheap_live (heap (sc m)) \<and>
    tasks (sc m) (current_task (sc m)) = Some t \<and> timer_interrupt_handler r (sc m) = Some s' \<and> machine_ok (m\<lparr>sc := s'\<rparr>)"
proof -
  have ok: "machine_ok m" by (rule reachable_ok [OF assms])
  then obtain qs where qs: "sched_ok (sc m) qs" "current_task (sc m) \<noteq> NULL" by (auto simp: machine_ok_def)
  obtain t where "tasks (sc m) (current_task (sc m)) = Some t" using machine_ok_current [OF ok] by blast
  moreover obtain s' where "timer_interrupt_handler r (sc m) = Some s'" using timer_current [OF qs] by blast
  moreover from this have "machine_ok (m\<lparr>sc := s'\<rparr>)" by (rule advancesD(1) [OF timer_advances _ ]) (rule ok)
  ultimately show ?thesis using qs(1) by (auto simp: sched_ok_def sched_wf_def)
qed

theorem machine_invariant_witness:
  "\<exists>s m'. sched_init machine0 = Some s \<and> syscall_handler ticking (regs_of 1 0) (machine_of s) = Some m' \<and>
    (\<exists>t. tasks (sc (snd m')) (current_task (sc (snd m'))) = Some t)"
proof -
  obtain s qs t where s: "sched_init machine0 = Some s" "sched_ok s qs" "current_task s \<noteq> NULL"
    "tasks s (current_task s) = Some t" "priority t = 0" "time_slice t \<noteq> 1" by (rule booted_machine)
  have r0: "machine_reachable ticking (machine_of s)"
    using machine0_unbooted s(1,3) by (intro machine_reachable.boot [of machine0]) (simp_all add: machine_of_def)
  obtain v m' where m': "sys_fork_handler (regs_of 1 0) (machine_of s) = Some (v, m')"
    using fork_safe [of "machine_of s" "regs_of 1 0"] reachable_ok [OF r0] by blast
  then have h: "syscall_handler ticking (regs_of 1 0) (machine_of s) = Some ((regs_of 1 0)\<lparr>s_eax := v\<rparr>, m')"
    by (simp add: syscall_handler_def syscall_table_def MAX_SYSCALLS_def regs_of_def word_le_nat_alt)
  then have "machine_reachable ticking m'"
    using machine_step.syscall [OF h] by (intro machine_reachable.step [OF r0]) (simp add: inner_call_def regs_of_def)
  from machine_invariant [OF this] show ?thesis using s(1) h by auto
qed

text \<open>C20: A sleeping task is lost. When a task calls \<open>sleep\<close> with an end after the present time, as computed in 32 bits, while it
  is not queued, its time slice does not end with the next call of \<open>schedule\<close> and another task is ready, the call marks it
  as blocked and runs \<open>schedule\<close>, which switches to another task; what remains to be done when the sleeper
  comes back is the rest of the loop and of the call. It never comes back: in every state the machine reaches
  from there, the sleeper is neither the current task nor in any ready queue, whatever the time: no step
  of \<open>machine_step\<close> puts it back into a queue. Nothing is assumed of \<open>until_back\<close>.\<close>

theorem sleeper_lost:
  assumes "sched_ok (sc m) qs" "tasks (sc m) (current_task (sc m)) = Some t" "time_slice t \<noteq> 1"
    and "current_task (sc m) \<notin> queued qs" "queued qs \<noteq> {}"
    and "e = get_system_ticks (sc m) + s_ebx r * 100" "get_system_ticks (sc m) < e"
  shows "\<exists>s. schedule (sc (set_current (t\<lparr>state := TASK_BLOCKED\<rparr>) m)) = Some s \<and>
    sys_sleep_handler x r m = do {
      m' \<leftarrow> until_back x (m\<lparr>sc := s\<rparr>);
      m' \<leftarrow> sleep_until x e m';
      m' \<leftarrow> mod_current (\<lambda>t. t\<lparr>state := TASK_READY\<rparr>) m';
      Some (0, m') } \<and>
    (\<forall>m'. (machine_step x)\<^sup>*\<^sup>* (m\<lparr>sc := s\<rparr>) m' \<longrightarrow> lost (current_task (sc m)) (sc m'))"
proof -
  let ?b = "set_current (t\<lparr>state := TASK_BLOCKED\<rparr>) m"
  have c: "current_task (sc m) \<noteq> NULL" using assms(2) sched_ok_null [OF assms(1)] by auto
  have ok: "sched_ok (sc ?b) qs" using sched_ok_mod [OF assms(1,2)] by (simp add: set_current_def)
  obtain s where s: "schedule (sc ?b) = Some s" "lost (current_task (sc m)) s"
    using schedule_loses [OF ok, of "t\<lparr>state := TASK_BLOCKED\<rparr>"] c assms(3-5) by auto
  have b: "?b\<lparr>sc := s\<rparr> = m\<lparr>sc := s\<rparr>" by (simp add: set_current_def)
  have "machine_ok (?b\<lparr>sc := s\<rparr>)"
    using advancesD(1) [OF schedule_advances [OF s(1)]] ok c by (auto simp: machine_ok_def)
  then have "lost (current_task (sc m)) (sc m')" if "(machine_step x)\<^sup>*\<^sup>* (m\<lparr>sc := s\<rparr>) m'" for m'
    using steps_lost [OF that] s(2) unfolding b by simp
  moreover have "get_system_ticks (sc ?b) = get_system_ticks (sc m)" by (simp add: set_current_def get_system_ticks_def)
  then have "sleep_until x e ?b = do { m' \<leftarrow> until_back x (m\<lparr>sc := s\<rparr>); sleep_until x e m' }"
    using assms(7) s(1) b by (subst sleep_until.simps) (simp add: lift_sched_def)
  then have "sys_sleep_handler x r m = do {
      m' \<leftarrow> until_back x (m\<lparr>sc := s\<rparr>);
      m' \<leftarrow> sleep_until x e m';
      m' \<leftarrow> mod_current (\<lambda>t. t\<lparr>state := TASK_READY\<rparr>) m';
      Some (0, m') }"
    using assms(2,6) by (simp add: sys_sleep_handler_def mod_current_some Let_def)
  ultimately show ?thesis using s(1) by blast
qed

lemma sched_ok_ticks [simp]: "sched_ok (s\<lparr>system_ticks := n\<rparr>) = sched_ok s"
  by (rule ext) (simp add: sched_ok_def sched_wf_def queues_def next_of_def)

text \<open>The init task asks for five seconds, 100 ticks after the boot.\<close>

theorem sleeper_lost_witness:
  "\<exists>s s1 s2. sched_init machine0 = Some s \<and> schedule s = Some s1 \<and>
    sys_sleep_handler ticking (regs_of 10 5) (machine_of (s1\<lparr>system_ticks := 100\<rparr>)) = do {
      m' \<leftarrow> until_back ticking (machine_of s2);
      m' \<leftarrow> sleep_until ticking 600 m';
      m' \<leftarrow> mod_current (\<lambda>t. t\<lparr>state := TASK_READY\<rparr>) m';
      Some (0, m') } \<and>
    (\<forall>m'. (machine_step ticking)\<^sup>*\<^sup>* (machine_of s2) m' \<longrightarrow> lost (current_task s1) (sc m'))"
proof -
  obtain s s1 a b u where s: "sched_init machine0 = Some s" "schedule s = Some s1" "current_task s1 = b" "b \<noteq> NULL"
    "sched_ok s1 ((replicate 16 [])[0 := [a], 5 := []])" "tasks s1 b = Some u" "time_slice u = TIME_SLICE" "a \<noteq> b"
    "queued ((replicate 16 [])[0 := [a], 5 := []]) = {a}" by (rule first_tick)
  let ?m = "machine_of (s1\<lparr>system_ticks := 100\<rparr>)"
  have sc: "sc ?m = s1\<lparr>system_ticks := 100\<rparr>" "?m\<lparr>sc := v\<rparr> = machine_of v" for v by (simp_all add: machine_of_def)
  have h: "sched_ok (sc ?m) ((replicate 16 [])[0 := [a], 5 := []])" "tasks (sc ?m) (current_task (sc ?m)) = Some u"
    "time_slice u \<noteq> 1" "current_task (sc ?m) \<notin> queued ((replicate 16 [])[0 := [a], 5 := []])"
    "queued ((replicate 16 [])[0 := [a], 5 := []]) \<noteq> {}" "(600 :: u32) = get_system_ticks (sc ?m) + s_ebx (regs_of 10 5) * 100"
    "get_system_ticks (sc ?m) < 600" unfolding sc
    using s by (simp_all add: TIME_SLICE_def get_system_ticks_def regs_of_def)
  from sleeper_lost [OF h, of ticking] show ?thesis unfolding sc(2) using s(1,2) by (auto simp: sc(1))
qed

end
