(* ===== verification/Serial.thy ===== *)
theory Serial
  imports Prelude
begin

text \<open>
  The serial port: \<^verbatim>\<open>lib/serial.c\<close> and \<^verbatim>\<open>include/serial.h\<close>.

  The other side is a parameter: \<open>d n p\<close> is what the \<open>n\<close>-th read of a port gives when the port is \<open>p\<close>. The state
  counts the reads and keeps the bytes written to the ports. A wait for a status bit that never comes
  has no value.
\<close>

unbundle bit_operations_syntax

definition SERIAL_COM1_BASE :: u16 where "SERIAL_COM1_BASE = 0x3F8"
definition SERIAL_DATA_READY :: u8 where "SERIAL_DATA_READY = 0x01"
definition SERIAL_TRANSMITTER_EMPTY :: u8 where "SERIAL_TRANSMITTER_EMPTY = 0x20"

type_synonym uart = "nat \<Rightarrow> u16 \<Rightarrow> u8"

record serial =
  sent :: "(u16 \<times> u8) list"
  polls :: nat

definition serial_outb :: "u16 \<Rightarrow> u8 \<Rightarrow> serial \<Rightarrow> serial" where
  "serial_outb port val s = s\<lparr>sent := sent s @ [(port, val)]\<rparr>"

definition serial_inb :: "uart \<Rightarrow> u16 \<Rightarrow> serial \<Rightarrow> u8 \<times> serial" where
  "serial_inb d port s = (d (polls s) port, s\<lparr>polls := polls s + 1\<rparr>)"

definition serial_init :: "serial \<Rightarrow> serial" where
  "serial_init s =
     (let s = serial_outb (SERIAL_COM1_BASE + 1) 0x00 s;
          s = serial_outb (SERIAL_COM1_BASE + 3) 0x80 s;
          s = serial_outb (SERIAL_COM1_BASE + 0) 0x03 s;
          s = serial_outb (SERIAL_COM1_BASE + 1) 0x00 s;
          s = serial_outb (SERIAL_COM1_BASE + 3) 0x03 s;
          s = serial_outb (SERIAL_COM1_BASE + 2) 0xC7 s
      in serial_outb (SERIAL_COM1_BASE + 4) 0x0B s)"

text \<open>The loop of \<open>serial_write_char\<close>.\<close>

partial_function (option) wait_transmitter :: "uart \<Rightarrow> serial \<Rightarrow> serial option" where
  "wait_transmitter d s =
     (if fst (serial_inb d (SERIAL_COM1_BASE + 5) s) AND SERIAL_TRANSMITTER_EMPTY = 0
      then wait_transmitter d (snd (serial_inb d (SERIAL_COM1_BASE + 5) s))
      else Some (snd (serial_inb d (SERIAL_COM1_BASE + 5) s)))"

definition serial_write_char :: "uart \<Rightarrow> u8 \<Rightarrow> serial \<Rightarrow> serial option" where
  "serial_write_char d c s = do { s \<leftarrow> wait_transmitter d s; Some (serial_outb SERIAL_COM1_BASE c s) }"

fun serial_write_string :: "uart \<Rightarrow> u8 list \<Rightarrow> serial \<Rightarrow> serial option" where
  "serial_write_string d [] s = Some s"
| "serial_write_string d (c # cs) s = do { s \<leftarrow> serial_write_char d c s; serial_write_string d cs s }"

definition serial_can_read :: "uart \<Rightarrow> serial \<Rightarrow> bool \<times> serial" where
  "serial_can_read d s =
     (let (status, s) = serial_inb d (SERIAL_COM1_BASE + 5) s in (status AND SERIAL_DATA_READY \<noteq> 0, s))"

text \<open>The loop of \<open>serial_read_char\<close>.\<close>

partial_function (option) wait_data :: "uart \<Rightarrow> serial \<Rightarrow> serial option" where
  "wait_data d s =
     (if \<not> fst (serial_can_read d s) then wait_data d (snd (serial_can_read d s)) else Some (snd (serial_can_read d s)))"

definition serial_read_char :: "uart \<Rightarrow> serial \<Rightarrow> (u8 \<times> serial) option" where
  "serial_read_char d s = do { s \<leftarrow> wait_data d s; Some (serial_inb d SERIAL_COM1_BASE s) }"

definition serial_received :: "uart \<Rightarrow> serial \<Rightarrow> bool \<times> serial" where
  "serial_received d s = serial_can_read d s"

subsection \<open>Sending\<close>

text \<open>The line is always free again at some later read of the status.\<close>

definition keeps_sending :: "uart \<Rightarrow> bool" where
  "keeps_sending d \<longleftrightarrow> (\<forall>n. \<exists>k. d (n + k) (SERIAL_COM1_BASE + 5) AND SERIAL_TRANSMITTER_EMPTY \<noteq> 0)"

lemma wait_transmitter_first:
  assumes "\<And>j. j < k \<Longrightarrow> d (polls s + j) (SERIAL_COM1_BASE + 5) AND SERIAL_TRANSMITTER_EMPTY = 0"
    and "d (polls s + k) (SERIAL_COM1_BASE + 5) AND SERIAL_TRANSMITTER_EMPTY \<noteq> 0"
  shows "wait_transmitter d s = Some (s\<lparr>polls := polls s + Suc k\<rparr>)"
  using assms
proof (induction k arbitrary: s)
  case 0
  then show ?case by (subst wait_transmitter.simps) (simp add: serial_inb_def)
next
  case (Suc k)
  have "d (polls s) (SERIAL_COM1_BASE + 5) AND SERIAL_TRANSMITTER_EMPTY = 0" using Suc.prems(1) [of 0] by simp
  moreover have "wait_transmitter d (s\<lparr>polls := polls s + 1\<rparr>) = Some (s\<lparr>polls := polls s + 1 + Suc k\<rparr>)"
  proof (rule trans [OF Suc.IH])
    fix j assume "j < k"
    then show "d (polls (s\<lparr>polls := polls s + 1\<rparr>) + j) (SERIAL_COM1_BASE + 5) AND SERIAL_TRANSMITTER_EMPTY = 0"
      using Suc.prems(1) [of "Suc j"] by simp
  qed (use Suc.prems(2) in simp_all)
  ultimately show ?case by (subst wait_transmitter.simps) (simp add: serial_inb_def)
qed

lemma wait_transmitter_returns:
  assumes "keeps_sending d"
  shows "\<exists>k. wait_transmitter d s = Some (s\<lparr>polls := polls s + Suc k\<rparr>)"
proof -
  obtain k where "d (polls s + k) (SERIAL_COM1_BASE + 5) AND SERIAL_TRANSMITTER_EMPTY \<noteq> 0"
    "\<And>j. j < k \<Longrightarrow> d (polls s + j) (SERIAL_COM1_BASE + 5) AND SERIAL_TRANSMITTER_EMPTY = 0"
    using exists_least_iff [of "\<lambda>k. d (polls s + k) (SERIAL_COM1_BASE + 5) AND SERIAL_TRANSMITTER_EMPTY \<noteq> 0"] assms
    unfolding keeps_sending_def by blast
  then show ?thesis using wait_transmitter_first [of k d s] by blast
qed

lemma write_char_sends:
  "keeps_sending d \<Longrightarrow> \<exists>k. serial_write_char d c s = Some \<lparr>sent = sent s @ [(SERIAL_COM1_BASE, c)], polls = polls s + Suc k\<rparr>"
  using wait_transmitter_returns [of d s] by (cases s) (auto simp: serial_write_char_def serial_outb_def)

lemma write_string_sends:
  assumes "keeps_sending d"
  shows "\<exists>k. serial_write_string d cs s = Some \<lparr>sent = sent s @ map (Pair SERIAL_COM1_BASE) cs, polls = k\<rparr>"
proof (induction cs arbitrary: s)
  case Nil
  show ?case by (intro exI [of _ "polls s"]) simp
next
  case (Cons c cs)
  obtain k where "serial_write_char d c s = Some \<lparr>sent = sent s @ [(SERIAL_COM1_BASE, c)], polls = polls s + Suc k\<rparr>"
    using write_char_sends [OF assms] by blast
  then show ?case using Cons.IH [of "\<lparr>sent = sent s @ [(SERIAL_COM1_BASE, c)], polls = polls s + Suc k\<rparr>"] by simp
qed

subsection \<open>Receiving\<close>

text \<open>The device has bytes: from the \<open>n\<close>-th read on, two looks at the status and one at the data give the next.\<close>

fun offers :: "uart \<Rightarrow> nat \<Rightarrow> u8 list \<Rightarrow> bool" where
  "offers d n [] = True"
| "offers d n (c # cs) \<longleftrightarrow> d n (SERIAL_COM1_BASE + 5) AND SERIAL_DATA_READY \<noteq> 0 \<and>
     d (n + 1) (SERIAL_COM1_BASE + 5) AND SERIAL_DATA_READY \<noteq> 0 \<and> d (n + 2) SERIAL_COM1_BASE = c \<and> offers d (n + 3) cs"

definition silent :: "uart \<Rightarrow> bool" where
  "silent d \<longleftrightarrow> (\<forall>n. d n (SERIAL_COM1_BASE + 5) AND SERIAL_DATA_READY = 0)"

lemma silent_can_read: "silent d \<Longrightarrow> serial_can_read d s = (False, s\<lparr>polls := Suc (polls s)\<rparr>)"
  by (simp add: serial_can_read_def serial_inb_def silent_def)

lemma offered_can_read: "offers d (polls s) (c # cs) \<Longrightarrow> serial_can_read d s = (True, s\<lparr>polls := Suc (polls s)\<rparr>)"
  by (simp add: serial_can_read_def serial_inb_def)

lemma offered_read_char:
  assumes "offers d (polls s) (c # cs)"
  shows "serial_read_char d (s\<lparr>polls := Suc (polls s)\<rparr>) = Some (c, s\<lparr>polls := polls s + 3\<rparr>)"
proof -
  have "wait_data d (s\<lparr>polls := Suc (polls s)\<rparr>) = Some (s\<lparr>polls := polls s + 2\<rparr>)"
    using assms by (subst wait_data.simps) (simp add: serial_can_read_def serial_inb_def)
  then show ?thesis using assms by (simp add: serial_read_char_def serial_inb_def)
qed

end
