(* ===== verification/Shell_Commands.thy ===== *)
theory Shell_Commands
  imports Sched Paging Kprintf Serial
begin

text \<open>
  The built-in commands of the shell, \<^verbatim>\<open>lib/shell.c\<close>, on the screen and the serial port.

  \<^verbatim>\<open>ps\<close> and \<^verbatim>\<open>top\<close> walk a ring \<^verbatim>\<open>task_list\<close> and print a field \<^verbatim>\<open>total_time\<close>; no file of the repository declares
  them. The ring is an argument: its tasks in order, each with that number (no task at all for a null
  \<^verbatim>\<open>task_list\<close>). Their case for \<^verbatim>\<open>TASK_EXITED\<close>, which no file declares either, stands for no state of a task.
\<close>

unbundle bit_operations_syntax

subsection \<open>Commands that only print\<close>

datatype command = Cmd_help | Cmd_echo | Cmd_clear | Cmd_version | Cmd_ai | Cmd_ps | Cmd_free | Cmd_top

definition shell_commands :: "(string \<times> command \<times> string) list" where
  "shell_commands = [(''help'', Cmd_help, ''Show available commands''), (''echo'', Cmd_echo, ''Echo text to screen''),
     (''clear'', Cmd_clear, ''Clear the screen''), (''version'', Cmd_version, ''Show version information''),
     (''ai'', Cmd_ai, ''Ask AI a question (via serial port)''), (''ps'', Cmd_ps, ''Show process list''),
     (''free'', Cmd_free, ''Show memory usage''), (''top'', Cmd_top, ''Show running processes'')]"

definition find_command :: "u8 list \<Rightarrow> command option" where
  "find_command nm = map_option (fst \<circ> snd) (find (\<lambda>c. map ch (fst c) = nm) shell_commands)"

definition shell_cmd_help :: "vga \<Rightarrow> vga option" where
  "shell_cmd_help v = kprint (concat ((10 # map ch ''Available commands:'' @ [10]) #
     map (\<lambda>(nm, _, d). map ch (''  '' @ nm @ '' - '' @ d) @ [10]) shell_commands)) v"

text \<open>The words behind the command, with one space between them.\<close>

fun print_words :: "u8 list list \<Rightarrow> vga \<Rightarrow> vga option" where
  "print_words [] v = Some v"
| "print_words (w # ws) v = do {
     v \<leftarrow> kprint w v;
     v \<leftarrow> (if ws \<noteq> [] then kprint [32] v else Some v);
     print_words ws v }"

definition shell_cmd_echo :: "u8 list list \<Rightarrow> vga \<Rightarrow> vga option" where
  "shell_cmd_echo argv v =
     (if length argv < 2 then kprint [10] v
      else do {
        v \<leftarrow> kprint [10] v;
        v \<leftarrow> print_words (tl argv) v;
        kprint [10] v })"

definition shell_cmd_clear :: "vga \<Rightarrow> vga option" where "shell_cmd_clear v = vga_clear v"

text \<open>The version and the time of the build are macros.\<close>

definition shell_cmd_version :: "u8 list \<Rightarrow> u8 list \<Rightarrow> vga \<Rightarrow> vga option" where
  "shell_cmd_version version built v =
     kprint (10 # map ch ''Synapse OS v'' @ version @ [10] @ map ch ''AI-Native Operating System'' @ [10] @
       map ch ''Built: '' @ built @ [10]) v"

definition shell_cmd_free :: "paging \<Rightarrow> kheap \<Rightarrow> vga \<Rightarrow> vga option" where
  "shell_cmd_free pg h v = do {
     v \<leftarrow> kprint (10 # map ch ''Memory Usage:'' @ [10]) v;
     t \<leftarrow> snprintf 128 (map ch ''Total: %d KB'' @ [10] @ map ch ''Used: %d KB'' @ [10] @ map ch ''Free: %d KB'' @ [10])
       [Word_arg (get_total_memory pg div 1024), Word_arg (get_used_memory pg div 1024), Word_arg (get_free_memory pg div 1024)];
     v \<leftarrow> kprint t v;
     let (total, used, free) = get_kheap_info h;
     t \<leftarrow> snprintf 128 (map ch ''Kernel Heap:'' @ [10] @ map ch ''Total: %d KB'' @ [10] @ map ch ''Used: %d KB'' @ [10] @
         map ch ''Free: %d KB'' @ [10])
       [Word_arg (total div 1024), Word_arg (used div 1024), Word_arg (free div 1024)];
     v \<leftarrow> kprint t v;
     kprint [10] v }"

subsection \<open>Tasks\<close>

type_synonym listed = "task \<times> u32"

definition state_text :: "task_state \<Rightarrow> string" where
  "state_text st = (case st of TASK_READY \<Rightarrow> ''READY'' | TASK_RUNNING \<Rightarrow> ''RUNNING''
     | TASK_BLOCKED \<Rightarrow> ''BLOCKED'' | TASK_ZOMBIE \<Rightarrow> ''ZOMBIE'')"

definition task_line :: "listed \<Rightarrow> vga \<Rightarrow> vga option" where
  "task_line x v = (case x of (t, total_time) \<Rightarrow> do {
     b \<leftarrow> snprintf 128 (map ch ''%d'' @ [9] @ map ch ''%s'' @ [9] @ map ch ''Task%d'' @ [9] @ map ch ''%d'' @ [9] @
         map ch ''%d'' @ [9, 10])
       [Word_arg (pid t), Str_arg (Some (map ch (state_text (state t)))), Word_arg (pid t), Word_arg (priority t),
        Word_arg total_time];
     kprint b v })"

fun task_lines :: "listed list \<Rightarrow> vga \<Rightarrow> vga option" where
  "task_lines [] v = Some v"
| "task_lines (x # xs) v = do { v \<leftarrow> task_line x v; task_lines xs v }"

definition columns :: "u8 list" where
  "columns = map ch ''PID'' @ [9] @ map ch ''STATE'' @ [9] @ map ch ''NAME'' @ [9] @ map ch ''PRIORITY'' @ [9] @
     map ch ''TIME'' @ [9, 10]"

definition shell_cmd_ps :: "listed list \<Rightarrow> vga \<Rightarrow> vga option" where
  "shell_cmd_ps task_list v = do {
     v \<leftarrow> kprint (10 # columns) v;
     v \<leftarrow> task_lines task_list v;
     kprint [10] v }"

fun running_lines :: "listed list \<Rightarrow> vga \<Rightarrow> vga option" where
  "running_lines [] v = Some v"
| "running_lines (x # xs) v = do {
     v \<leftarrow> (if state (fst x) = TASK_RUNNING \<or> state (fst x) = TASK_READY then task_line x v else Some v);
     running_lines xs v }"

definition shell_cmd_top :: "listed list \<Rightarrow> vga \<Rightarrow> vga option" where
  "shell_cmd_top task_list v = do {
     v \<leftarrow> kprint (10 # map ch ''Running Processes:'' @ [10]) v;
     v \<leftarrow> kprint columns v;
     v \<leftarrow> running_lines task_list v;
     kprint [10] v }"

subsection \<open>Asking the AI\<close>

definition max_timeout :: nat where "max_timeout = 100000"

text \<open>The words of the question, with one space between them.\<close>

fun send_words :: "uart \<Rightarrow> u8 list list \<Rightarrow> serial \<Rightarrow> serial option" where
  "send_words d [] p = Some p"
| "send_words d (w # ws) p = do {
     p \<leftarrow> serial_write_string d w p;
     p \<leftarrow> (if ws \<noteq> [] then serial_write_char d 32 p else Some p);
     send_words d ws p }"

text \<open>The inner loop prints what arrives; only a look that finds nothing counts.\<close>

partial_function (option) ai_response :: "uart \<Rightarrow> nat \<Rightarrow> vga \<Rightarrow> serial \<Rightarrow> (vga \<times> serial) option" where
  "ai_response d timeout v p =
     (if fst (serial_can_read d p)
      then do {
        (c, p) \<leftarrow> serial_read_char d (snd (serial_can_read d p));
        if c = 0x0A \<or> c = 0x0D then do { v \<leftarrow> kprint [10] v; Some (v, p) }
        else do { v \<leftarrow> vga_putc c v; ai_response d timeout v p } }
      else if timeout + 1 \<ge> max_timeout
      then do { v \<leftarrow> kprint [10] v; Some (v, snd (serial_can_read d p)) }
      else ai_response d (timeout + 1) v (snd (serial_can_read d p)))"

function ai_wait :: "uart \<Rightarrow> nat \<Rightarrow> vga \<Rightarrow> serial \<Rightarrow> (vga \<times> serial) option" where
  "ai_wait d timeout v p =
     (if timeout < max_timeout
      then if fst (serial_received d p)
        then do {
          v \<leftarrow> kprint (10 # map ch ''AI Response:'' @ [10]) v;
          ai_response d timeout v (snd (serial_received d p)) }
        else ai_wait d (timeout + 1) v (snd (serial_received d p))
      else do { v \<leftarrow> kprint (map ch ''Timeout: No response from AI.'' @ [10]) v; Some (v, p) })"
  by auto
termination by (relation "measure (\<lambda>(d, timeout, v, p). max_timeout - timeout)") auto

declare ai_wait.simps [simp del]

definition shell_cmd_ai :: "uart \<Rightarrow> u8 list list \<Rightarrow> vga \<Rightarrow> serial \<Rightarrow> (vga \<times> serial) option" where
  "shell_cmd_ai d argv v p =
     (if length argv < 2
      then do {
        v \<leftarrow> kprint (10 # map ch ''Usage: ai <question>'' @ [10]) v;
        v \<leftarrow> kprint (map ch ''Ask AI a question via serial port.'' @ [10]) v;
        v \<leftarrow> kprint (map ch ''Note: Make sure the AI proxy script is running on the host.'' @ [10]) v;
        Some (v, p) }
      else do {
        v \<leftarrow> kprint [10] v;
        v \<leftarrow> kprint (map ch ''Sending question to AI...'' @ [10]) v;
        p \<leftarrow> serial_write_string d (map ch ''AI_QUESTION:'') p;
        p \<leftarrow> send_words d (tl argv) p;
        p \<leftarrow> serial_write_char d 10 p;
        v \<leftarrow> kprint (map ch ''Waiting for AI response...'' @ [10]) v;
        ai_wait d 0 v p })"

subsection \<open>What the commands do\<close>

lemma kprint_total: "vga_ok v \<Longrightarrow> \<exists>v'. kprint xs v = Some v' \<and> vga_ok v'"
proof (induction xs arbitrary: v)
  case (Cons c xs)
  obtain w where "vga_putc c v = Some w" "vga_ok w" using vga_putc_ok [OF Cons.prems] by blast
  then show ?case using Cons.IH by (simp add: kprint_def)
qed (simp add: kprint_def)

lemma vga_set_color_ok [simp]: "vga_ok (vga_set_color f b v) = vga_ok v"
  by (simp add: vga_ok_def vga_set_color_def)

lemma kprint_append: "kprint (xs @ ys) v = do { v \<leftarrow> kprint xs v; kprint ys v }"
proof (induction xs arbitrary: v)
  case (Cons x xs)
  then show ?case by (cases "vga_putc x v") (simp_all add: kprint_def)
qed (simp add: kprint_def)

lemma kprint_putc: "kprint (c # xs) v = do { v \<leftarrow> vga_putc c v; kprint xs v }"
  by (cases "vga_putc c v") (simp_all add: kprint_def)

lemma kprint_one: "kprint [c] = vga_putc c"
proof (rule ext)
  fix v
  show "kprint [c] v = vga_putc c v" by (cases "vga_putc c v") (simp_all add: kprint_def)
qed

lemma kprint_nil [simp]: "kprint [] v = Some v"
  by (simp add: kprint_def)

text \<open>Words with one space between them.\<close>

definition spaced :: "u8 list list \<Rightarrow> u8 list" where
  "spaced ws = concat (map (\<lambda>w. w @ [32]) (butlast ws)) @ last ws"

lemma spaced_Cons: "ws \<noteq> [] \<Longrightarrow> spaced (w # ws) = w @ 32 # spaced ws"
  by (simp add: spaced_def)

lemma spaced_one [simp]: "spaced [w] = w"
  by (simp add: spaced_def)

lemma print_words_spaced: "ws \<noteq> [] \<Longrightarrow> print_words ws v = kprint (spaced ws) v"
proof (induction ws arbitrary: v rule: list_nonempty_induct)
  case (single w)
  show ?case by simp
next
  case (cons w ws)
  have "print_words ws = kprint (spaced ws)" by (rule ext) (rule cons.IH)
  then show ?case using cons(1) by (simp add: spaced_Cons kprint_append [of w] kprint_putc [of 32] kprint_one)
qed

text \<open>\<open>echo\<close> prints its words on a line of their own.\<close>

lemma echo_prints: "ws \<noteq> [] \<Longrightarrow> shell_cmd_echo (w # ws) v = kprint (10 # spaced ws @ [10]) v"
  by (simp add: shell_cmd_echo_def print_words_spaced kprint_append kprint_putc [of 10] kprint_one)

lemma send_words_sends:
  assumes "keeps_sending d" "ws \<noteq> []"
  shows "\<exists>k. send_words d ws p = Some \<lparr>sent = sent p @ map (Pair SERIAL_COM1_BASE) (spaced ws), polls = k\<rparr>"
  using assms(2)
proof (induction ws arbitrary: p rule: list_nonempty_induct)
  case (single w)
  then show ?case using write_string_sends [OF assms(1), of w p] by auto
next
  case (cons w ws)
  obtain k where k: "serial_write_string d w p = Some \<lparr>sent = sent p @ map (Pair SERIAL_COM1_BASE) w, polls = k\<rparr>"
    using write_string_sends [OF assms(1)] by blast
  obtain j where j: "serial_write_char d 32 \<lparr>sent = sent p @ map (Pair SERIAL_COM1_BASE) w, polls = k\<rparr> =
      Some \<lparr>sent = sent p @ map (Pair SERIAL_COM1_BASE) (w @ [32]), polls = j\<rparr>"
    using write_char_sends [OF assms(1), of 32 "\<lparr>sent = sent p @ map (Pair SERIAL_COM1_BASE) w, polls = k\<rparr>"] by auto
  show ?case
    using k j cons(1) cons.IH [of "\<lparr>sent = sent p @ map (Pair SERIAL_COM1_BASE) (w @ [32]), polls = j\<rparr>"]
    by (simp add: spaced_Cons)
qed

lemma framed_question:
  assumes "keeps_sending d" "ws \<noteq> []"
  obtains p1 p2 k where "serial_write_string d q p = Some p1" "send_words d ws p1 = Some p2"
    "serial_write_char d c p2 = Some \<lparr>sent = sent p @ map (Pair SERIAL_COM1_BASE) (q @ spaced ws @ [c]), polls = k\<rparr>"
proof -
  obtain p1 where p1: "serial_write_string d q p = Some p1" "sent p1 = sent p @ map (Pair SERIAL_COM1_BASE) q"
    using write_string_sends [OF assms(1), of q p] by auto
  obtain p2 where p2: "send_words d ws p1 = Some p2" "sent p2 = sent p1 @ map (Pair SERIAL_COM1_BASE) (spaced ws)"
    using send_words_sends [OF assms, of p1] by auto
  show thesis using write_char_sends [OF assms(1), of c p2] that [OF p1(1) p2(1)] p1(2) p2(2) by auto
qed

lemma ai_wait_silent:
  assumes "silent d" "timeout \<le> max_timeout"
  shows "ai_wait d timeout v p = do { v \<leftarrow> kprint (map ch ''Timeout: No response from AI.'' @ [10]) v;
    Some (v, p\<lparr>polls := polls p + (max_timeout - timeout)\<rparr>) }"
  using assms
proof (induction d timeout v p rule: ai_wait.induct)
  case (1 d timeout v p)
  show ?case
  proof (cases "timeout < max_timeout")
    case True
    have r: "serial_received d p = (False, p\<lparr>polls := Suc (polls p)\<rparr>)"
      using 1(2) by (simp add: serial_received_def silent_can_read)
    have "Suc (polls p + max_timeout - Suc timeout) = polls p + max_timeout - timeout" using True by simp
    then show ?thesis using 1(1) 1(2) True by (subst ai_wait.simps) (simp add: r)
  next
    case False
    then show ?thesis using 1(3) by (subst ai_wait.simps) simp
  qed
qed

lemma ai_response_prints:
  assumes "offers d (polls p) (xs @ [c])" "c = 10 \<or> c = 13" "10 \<notin> set xs" "13 \<notin> set xs"
  shows "ai_response d timeout v p = do { v \<leftarrow> kprint (xs @ [10]) v; Some (v, p\<lparr>polls := polls p + 3 * Suc (length xs)\<rparr>) }"
  using assms
proof (induction xs arbitrary: v p)
  case Nil
  then show ?case
    by (subst ai_response.simps) (simp add: offered_can_read [of d p c "[]"] offered_read_char [of d p c "[]"])
next
  case (Cons x xs)
  have o: "offers d (polls p) (x # (xs @ [c]))" using Cons.prems(1) by simp
  have "ai_response d timeout w (p\<lparr>polls := polls p + 3\<rparr>) =
      do { v \<leftarrow> kprint (xs @ [10]) w; Some (v, p\<lparr>polls := polls p + 3 * Suc (length (x # xs))\<rparr>) }" for w
    using Cons.IH [of "p\<lparr>polls := polls p + 3\<rparr>" w] Cons.prems by (simp add: ac_simps)
  then show ?case using Cons.prems(3,4)
    by (subst ai_response.simps)
      (simp add: offered_can_read [OF o] offered_read_char [OF o] kprint_putc)
qed

text \<open>What arrives behind the first sign of data is printed up to the end of the line.\<close>

theorem ai_answer:
  assumes "d (polls p) (SERIAL_COM1_BASE + 5) AND SERIAL_DATA_READY \<noteq> 0" "timeout < max_timeout"
    and "offers d (Suc (polls p)) (xs @ [c])" "c = 10 \<or> c = 13" "10 \<notin> set xs" "13 \<notin> set xs"
  shows "ai_wait d timeout v p = do { v \<leftarrow> kprint (10 # map ch ''AI Response:'' @ 10 # xs @ [10]) v;
    Some (v, p\<lparr>polls := polls p + 3 * length xs + 4\<rparr>) }"
proof -
  have r: "serial_received d p = (True, p\<lparr>polls := Suc (polls p)\<rparr>)"
    using assms(1) by (simp add: serial_received_def serial_can_read_def serial_inb_def)
  have a: "ai_response d timeout w (p\<lparr>polls := Suc (polls p)\<rparr>) = do { v \<leftarrow> kprint (xs @ [10]) w;
      Some (v, p\<lparr>polls := polls p + 3 * length xs + 4\<rparr>) }" for w
    using ai_response_prints [OF _ assms(4-6), of d "p\<lparr>polls := Suc (polls p)\<rparr>" timeout w] assms(3) by (simp add: ac_simps)
  have "kprint (10 # map ch ''AI Response:'' @ 10 # xs @ [10]) v =
      do { v \<leftarrow> kprint (10 # map ch ''AI Response:'' @ [10]) v; kprint (xs @ [10]) v }"
    using kprint_append [of "10 # map ch ''AI Response:'' @ [10]" "xs @ [10]"] by (simp only: append_Cons append_assoc append_Nil)
  then show ?thesis using assms(2)
    by (subst ai_wait.simps) (simp add: r a del: list.map)
qed

subsection \<open>Properties\<close>

text \<open>C28: when the line to the host is always free again at some time and the host never answers, the command \<^verbatim>\<open>ai\<close>
  ends: it has sent the question, framed by \<^verbatim>\<open>AI_QUESTION:\<close> and a new line, and nothing else, and it has printed
  its messages and that the time is over.\<close>

theorem ai_gives_up:
  assumes "keeps_sending d" "silent d" "ws \<noteq> []" "vga_ok v"
  shows "\<exists>v' k. shell_cmd_ai d (w # ws) v p =
      Some (v', \<lparr>sent = sent p @ map (Pair SERIAL_COM1_BASE) (map ch ''AI_QUESTION:'' @ spaced ws @ [10]), polls = k\<rparr>) \<and>
    kprint (10 # map ch ''Sending question to AI...'' @ 10 # map ch ''Waiting for AI response...'' @ 10 #
      map ch ''Timeout: No response from AI.'' @ [10]) v = Some v' \<and> vga_ok v'"
proof -
  let ?a = "map ch ''Sending question to AI...'' @ [10]" and ?b = "map ch ''Waiting for AI response...'' @ [10]"
  let ?c = "map ch ''Timeout: No response from AI.'' @ [10]" and ?q = "map ch ''AI_QUESTION:''"
  obtain v0 where v0: "kprint [10] v = Some v0" "vga_ok v0" using kprint_total [OF assms(4)] by blast
  obtain v1 where v1: "kprint ?a v0 = Some v1" "vga_ok v1" using kprint_total [OF v0(2)] by blast
  obtain v2 where v2: "kprint ?b v1 = Some v2" "vga_ok v2" using kprint_total [OF v1(2)] by blast
  obtain v3 where v3: "kprint ?c v2 = Some v3" "vga_ok v3" using kprint_total [OF v2(2)] by blast
  obtain p1 p2 k3 where q: "serial_write_string d ?q p = Some p1" "send_words d ws p1 = Some p2"
      "serial_write_char d 10 p2 = Some \<lparr>sent = sent p @ map (Pair SERIAL_COM1_BASE) (?q @ spaced ws @ [10]), polls = k3\<rparr>"
    by (rule framed_question [OF assms(1,3)])
  have seq: "kprint xs u = Some w \<Longrightarrow> kprint (xs @ ys) u = kprint ys w" for xs ys u w
    by (simp add: kprint_append)
  have "kprint ([10] @ ?a @ ?b @ ?c) v = Some v3"
    unfolding seq [OF v0(1)] seq [OF v1(1)] seq [OF v2(1)] by (rule v3(1))
  then have out: "kprint (10 # map ch ''Sending question to AI...'' @ 10 # map ch ''Waiting for AI response...'' @ 10 #
      map ch ''Timeout: No response from AI.'' @ [10]) v = Some v3"
    by (simp only: append_assoc append_Cons append_Nil)
  have "shell_cmd_ai d (w # ws) v p =
      Some (v3, \<lparr>sent = sent p @ map (Pair SERIAL_COM1_BASE) (?q @ spaced ws @ [10]), polls = k3 + max_timeout\<rparr>)"
    unfolding shell_cmd_ai_def v0(1) v1(1) v2(1) q(1) list.sel bind.bind_lunit q(2,3) ai_wait_silent [OF assms(2) le0] v3(1)
    using assms(3) by (simp del: list.map)
  then show ?thesis using out v3(2) by blast
qed

theorem ai_gives_up_witness:
  "\<exists>v' k. shell_cmd_ai (\<lambda>_ _. 0x20) [map ch ''ai'', map ch ''hi''] vga_blank \<lparr>sent = [], polls = 0\<rparr> =
    Some (v', \<lparr>sent = map (Pair SERIAL_COM1_BASE) (map ch ''AI_QUESTION:hi'' @ [10]), polls = k\<rparr>)"
proof -
  have d: "keeps_sending (\<lambda>_ _. 0x20)" "silent (\<lambda>_ _. 0x20)"
    by (simp_all add: keeps_sending_def silent_def SERIAL_TRANSMITTER_EMPTY_def SERIAL_DATA_READY_def)
  have ok: "vga_ok vga_blank" by (simp add: vga_ok_def vga_blank_def VGA_HEIGHT_def VGA_WIDTH_def)
  show ?thesis
    using ai_gives_up [OF d _ ok, of "[map ch ''hi'']" "map ch ''ai''" "\<lparr>sent = [], polls = 0\<rparr>"] by auto
qed

end
