(* ===== verification/Shell.thy ===== *)
theory Shell
  imports Keyboard Cstring Shell_Commands
begin

text \<open>
  The shell, \<^verbatim>\<open>lib/shell.c\<close> and \<^verbatim>\<open>include/shell.h\<close>: the line editor, the split of a line into
  arguments, the look-up of a command and its call.

  \<^verbatim>\<open>shell_buffer\<close> and the delimiter string lie in memory at the addresses \<open>buf\<close> and \<open>delim\<close>; the key
  events are a list, a wait for an event that does not come has no value. The version, the time of the build, what
  the commands read from the memory manager, the other side of the serial port and the result of \<^verbatim>\<open>execve\<close> are
  the record \<open>shell_env\<close>.
\<close>

unbundle bit_operations_syntax

subsection \<open>Reading a line\<close>

definition SHELL_BUFFER_SIZE :: nat where "SHELL_BUFFER_SIZE = 256"
definition SHELL_MAX_ARGS :: nat where "SHELL_MAX_ARGS = 16"
definition VGA_COLOR_LIGHT_GREEN :: u8 where "VGA_COLOR_LIGHT_GREEN = 10"

record shell =
  smem :: memory
  shell_buffer_pos :: nat
  screen_of :: vga
  strtok_saveptr :: addr
  port_of :: serial

definition on_screen :: "(vga \<Rightarrow> vga option) \<Rightarrow> shell \<Rightarrow> shell option" where
  "on_screen f s = do { v \<leftarrow> f (screen_of s); Some (s\<lparr>screen_of := v\<rparr>) }"

definition shell_init :: "shell \<Rightarrow> shell option" where
  "shell_init s = on_screen (kprint (10 # map ch ''Shell initialized. Type '' @ [0x27] @ map ch ''help'' @ [0x27] @
     map ch '' for available commands.'' @ [10, 10])) (s\<lparr>shell_buffer_pos := 0\<rparr>)"

definition shell_prompt :: "vga \<Rightarrow> vga option" where
  "shell_prompt v = do {
     v \<leftarrow> kprint (map ch ''synapse> '') (vga_set_color VGA_COLOR_LIGHT_GREEN VGA_COLOR_BLACK v);
     Some (vga_set_color VGA_COLOR_LIGHT_GREY VGA_COLOR_BLACK v) }"

text \<open>One event; the flag says that the line is complete.\<close>

definition handle_key :: "addr \<Rightarrow> key_event \<Rightarrow> shell \<Rightarrow> (bool \<times> shell) option" where
  "handle_key buf event s =
     (if ev_pressed event
      then if ev_ascii event = 0x0A then do { s \<leftarrow> on_screen (kprint [0x0A]) s; Some (True, s) }
        else if ev_ascii event = 0x08
        then if shell_buffer_pos s > 0
          then do {
            let s = s\<lparr>shell_buffer_pos := shell_buffer_pos s - 1\<rparr>;
            let s = s\<lparr>smem := (smem s)(buf + of_nat (shell_buffer_pos s) := 0)\<rparr>;
            s \<leftarrow> on_screen (vga_putc 0x08) s;
            Some (False, s) }
          else Some (False, s)
        else if 32 \<le> ev_ascii event \<and> ev_ascii event \<le> 126
        then if shell_buffer_pos s < SHELL_BUFFER_SIZE - 1
          then do {
            let s = s\<lparr>smem := (smem s)(buf + of_nat (shell_buffer_pos s) := ev_ascii event)\<rparr>;
            let s = s\<lparr>shell_buffer_pos := shell_buffer_pos s + 1\<rparr>;
            let s = s\<lparr>smem := (smem s)(buf + of_nat (shell_buffer_pos s) := 0)\<rparr>;
            s \<leftarrow> on_screen (vga_putc (ev_ascii event)) s;
            Some (False, s) }
          else Some (False, s)
        else Some (False, s)
      else Some (False, s))"

fun read_keys :: "addr \<Rightarrow> key_event list \<Rightarrow> shell \<Rightarrow> (key_event list \<times> shell) option" where
  "read_keys buf [] s = None"
| "read_keys buf (e # evs) s = do {
     (complete, s) \<leftarrow> handle_key buf e s;
     if complete then Some (evs, s) else read_keys buf evs s }"

definition read_line :: "addr \<Rightarrow> key_event list \<Rightarrow> shell \<Rightarrow> (key_event list \<times> shell) option" where
  "read_line buf evs s = do {
     s \<leftarrow> on_screen shell_prompt s;
     let s = s\<lparr>shell_buffer_pos := 0, smem := (smem s)(buf := 0)\<rparr>;
     read_keys buf evs s }"

subsection \<open>Arguments and commands\<close>

text \<open>The loop of \<open>shell_parse_command\<close>: \<open>n\<close> places of \<^verbatim>\<open>argv\<close> are left.\<close>

fun parse_args :: "nat \<Rightarrow> addr \<Rightarrow> addr \<Rightarrow> addr \<Rightarrow> memory \<Rightarrow> (addr list \<times> addr \<times> memory) option" where
  "parse_args 0 delim token save m = Some ([], save, m)"
| "parse_args (Suc n) delim token save m =
     (if token = NULL then Some ([], save, m)
      else do {
        (next_token, save, m) \<leftarrow> strtok NULL delim save m;
        (argv, save, m) \<leftarrow> parse_args n delim next_token save m;
        Some (token # argv, save, m) })"

definition shell_parse_command :: "addr \<Rightarrow> addr \<Rightarrow> shell \<Rightarrow> (addr list \<times> shell) option" where
  "shell_parse_command inp delim s = do {
     (token, save, m) \<leftarrow> strtok inp delim (strtok_saveptr s) (smem s);
     (argv, save, m) \<leftarrow> parse_args SHELL_MAX_ARGS delim token save m;
     Some (argv, s\<lparr>strtok_saveptr := save, smem := m\<rparr>) }"

text \<open>The string at an address.\<close>

definition bytes_at :: "addr \<Rightarrow> memory \<Rightarrow> u8 list option" where
  "bytes_at p m = do { n \<leftarrow> strlen p m; Some (map (\<lambda>i. m (p + of_nat i)) [0..<unat n]) }"

text \<open>What the shell uses from outside.\<close>

record shell_env =
  env_version :: "u8 list"
  env_built :: "u8 list"
  env_paging :: paging
  env_heap :: kheap
  env_uart :: uart
  env_task_list :: "listed list"
  env_execve :: "u8 list list \<Rightarrow> int"

definition screen_only :: "(vga \<Rightarrow> vga option) \<Rightarrow> vga \<times> serial \<Rightarrow> (vga \<times> serial) option" where
  "screen_only f vp = do { v \<leftarrow> f (fst vp); Some (v, snd vp) }"

definition run_command :: "shell_env \<Rightarrow> command \<Rightarrow> u8 list list \<Rightarrow> vga \<times> serial \<Rightarrow> (vga \<times> serial) option" where
  "run_command x c argv vp = (case c of
     Cmd_help \<Rightarrow> screen_only shell_cmd_help vp
   | Cmd_echo \<Rightarrow> screen_only (shell_cmd_echo argv) vp
   | Cmd_clear \<Rightarrow> screen_only shell_cmd_clear vp
   | Cmd_version \<Rightarrow> screen_only (shell_cmd_version (env_version x) (env_built x)) vp
   | Cmd_ai \<Rightarrow> shell_cmd_ai (env_uart x) argv (fst vp) (snd vp)
   | Cmd_ps \<Rightarrow> screen_only (shell_cmd_ps (env_task_list x)) vp
   | Cmd_free \<Rightarrow> screen_only (shell_cmd_free (env_paging x) (env_heap x)) vp
   | Cmd_top \<Rightarrow> screen_only (shell_cmd_top (env_task_list x)) vp)"

definition dispatch_line :: "shell_env \<Rightarrow> u8 list list \<Rightarrow> vga \<times> serial \<Rightarrow> (vga \<times> serial) option" where
  "dispatch_line x argv vp = (case find_command (hd argv) of
     Some c \<Rightarrow> run_command x c argv vp
   | None \<Rightarrow> do {
       vp \<leftarrow> screen_only (kprint (map ch ''Executing: '' @ hd argv @ [10])) vp;
       if env_execve x argv < 0
       then screen_only (kprint (map ch ''Failed to execute: '' @ hd argv @ [10])) vp
       else Some vp })"

definition on_devices :: "(vga \<times> serial \<Rightarrow> (vga \<times> serial) option) \<Rightarrow> shell \<Rightarrow> shell option" where
  "on_devices f s = do { (v, p) \<leftarrow> f (screen_of s, port_of s); Some (s\<lparr>screen_of := v, port_of := p\<rparr>) }"

fun strings_at :: "addr list \<Rightarrow> memory \<Rightarrow> u8 list list option" where
  "strings_at [] m = Some []"
| "strings_at (p # ps) m = do { w \<leftarrow> bytes_at p m; ws \<leftarrow> strings_at ps m; Some (w # ws) }"

text \<open>One turn of the loop of \<open>shell_run\<close>.\<close>

definition shell_turn :: "addr \<Rightarrow> addr \<Rightarrow> shell_env \<Rightarrow> key_event list \<Rightarrow> shell \<Rightarrow> (key_event list \<times> shell) option" where
  "shell_turn buf delim x evs s = do {
     (evs, s) \<leftarrow> read_line buf evs s;
     if shell_buffer_pos s = 0 then Some (evs, s)
     else do {
       (argv, s) \<leftarrow> shell_parse_command buf delim s;
       if argv = [] then Some (evs, s)
       else do {
         ws \<leftarrow> strings_at argv (smem s);
         s \<leftarrow> on_devices (dispatch_line x ws) s;
         Some (evs, s) } } }"

subsection \<open>The line editor as a function on lists\<close>

text \<open>What a key does to the line, and a whole line.\<close>

definition edit :: "key_event \<Rightarrow> u8 list \<Rightarrow> u8 list" where
  "edit e xs = (if \<not> ev_pressed e then xs
     else if ev_ascii e = 0x08 then butlast xs
     else if 32 \<le> ev_ascii e \<and> ev_ascii e \<le> 126 \<and> length xs < 255 then xs @ [ev_ascii e] else xs)"

definition enter :: "key_event \<Rightarrow> bool" where "enter e \<longleftrightarrow> ev_pressed e \<and> ev_ascii e = 0x0A"

lemma offset_eq: "i < 2 ^ 32 \<Longrightarrow> j < 2 ^ 32 \<Longrightarrow> (p :: u32) + of_nat i = p + of_nat j \<longleftrightarrow> i = j"
  using unat_of_nat_small by (metis add_left_cancel)

lemma cstr_iff:
  "cstr m p xs \<longleftrightarrow> (\<forall>i < length xs. m (p + of_nat i) = xs ! i \<and> xs ! i \<noteq> 0) \<and> m (p + of_nat (length xs)) = 0"
proof (induction xs arbitrary: p)
  case (Cons x xs)
  have "(\<forall>i < length (x # xs). P i) \<longleftrightarrow> P 0 \<and> (\<forall>i < length xs. P (Suc i))" for P
    using less_Suc_eq_0_disj by auto
  then show ?case using Cons.IH [of "p + 1"] by (auto simp: ac_simps)
qed simp

lemma cstr_snoc:
  assumes "cstr m p xs" "c \<noteq> 0" "length xs < 2 ^ 31"
  shows "cstr (m(p + of_nat (length xs) := c, p + of_nat (Suc (length xs)) := 0)) p (xs @ [c])"
proof -
  have ne: "p + of_nat i \<noteq> p + of_nat (length xs)" "p + of_nat i \<noteq> p + of_nat (Suc (length xs))" if "i < length xs" for i
    using that assms(3) by (subst offset_eq; simp)+
  have "p + of_nat (length xs) \<noteq> p + of_nat (Suc (length xs))" using assms(3) by (subst offset_eq) simp_all
  with ne show ?thesis
    using assms(1,2) unfolding cstr_iff by (auto simp: nth_append less_Suc_eq simp del: of_nat_Suc)
qed

lemma cstr_butlast:
  assumes "cstr m p (xs @ [c])" "length xs < 2 ^ 31"
  shows "cstr (m(p + of_nat (length xs) := 0)) p xs"
proof -
  have "p + of_nat i \<noteq> p + of_nat (length xs)" if "i < length xs" for i
    using that assms(2) by (subst offset_eq) simp_all
  then show ?thesis using assms(1) unfolding cstr_iff by (auto simp: nth_append less_Suc_eq split: if_splits)
qed

text \<open>The buffer holds the line, and nothing else in memory changes.\<close>

definition holds_line :: "addr \<Rightarrow> u8 list \<Rightarrow> memory \<Rightarrow> shell \<Rightarrow> bool" where
  "holds_line buf xs m s \<longleftrightarrow> cstr (smem s) buf xs \<and> shell_buffer_pos s = length xs \<and> length xs \<le> 255 \<and>
     vga_ok (screen_of s) \<and> (\<forall>a. 256 \<le> unat (a - buf) \<longrightarrow> smem s a = m a)"

lemma in_buffer: "k < 256 \<Longrightarrow> 256 \<le> unat (a - buf :: addr) \<Longrightarrow> a \<noteq> buf + of_nat k"
proof
  assume "k < 256" "256 \<le> unat (a - buf)" "a = buf + of_nat k"
  moreover from this have "unat (a - buf) = k" using unat_of_nat_small [of k] by simp
  ultimately show False by linarith
qed

lemma on_screen_putc:
  "vga_ok (screen_of s) \<Longrightarrow> \<exists>v. on_screen (vga_putc c) s = Some (s\<lparr>screen_of := v\<rparr>) \<and> vga_ok v"
  using vga_putc_ok [of "screen_of s" c] by (auto simp: on_screen_def)

lemma handle_key_edit:
  assumes "holds_line buf xs m s" "\<not> enter e"
  shows "\<exists>s'. handle_key buf e s = Some (False, s') \<and> holds_line buf (edit e xs) m s' \<and>
    port_of s' = port_of s"
proof -
  note h = assms(1) [unfolded holds_line_def]
  obtain v where v: "\<And>c. on_screen (vga_putc c) s = Some (s\<lparr>screen_of := v c\<rparr>)" "\<And>c. vga_ok (v c)"
    using on_screen_putc h by metis
  have v': "on_screen (vga_putc c) (s\<lparr>shell_buffer_pos := n, smem := k\<rparr>) = Some (s\<lparr>shell_buffer_pos := n, smem := k, screen_of := v c\<rparr>)"
    for c n k using v(1) [of c] by (auto simp: on_screen_def bind_eq_Some_conv dest: arg_cong [of _ _ screen_of])
  define rubs where "rubs \<longleftrightarrow> ev_pressed e \<and> ev_ascii e = 8 \<and> xs \<noteq> []"
  define types where "types \<longleftrightarrow> ev_pressed e \<and> 32 \<le> ev_ascii e \<and> ev_ascii e \<le> 126 \<and> length xs < 255"
  have p: "types \<Longrightarrow> ev_ascii e \<noteq> 8" "types \<Longrightarrow> ev_ascii e \<noteq> 10" by (auto simp: types_def)
  have other: "handle_key buf e s = Some (False, s)" "edit e xs = xs" if "\<not> rubs" "\<not> types"
    using that assms(2) h
    by (cases "ev_pressed e"; cases "ev_ascii e = 8"; simp add: handle_key_def edit_def enter_def SHELL_BUFFER_SIZE_def rubs_def types_def; fail)+
  consider "rubs" | "types" | "\<not> rubs" "\<not> types" by blast
  then show ?thesis
  proof cases
    case 1
    then have 1: "ev_pressed e" "ev_ascii e = 8" "xs \<noteq> []" by (simp_all add: rubs_def)
    then obtain ys y where xs: "xs = ys @ [y]" by (metis append_butlast_last_id)
    have "handle_key buf e s = Some (False, s\<lparr>shell_buffer_pos := length ys,
        smem := (smem s)(buf + of_nat (length ys) := 0), screen_of := v 8\<rparr>)"
      using 1 h xs v' by (simp add: handle_key_def Let_def)
    moreover have "cstr ((smem s)(buf + of_nat (length ys) := 0)) buf ys"
      using h xs by (intro cstr_butlast [of _ _ _ y]) simp_all
    ultimately show ?thesis using 1 h xs v(2) in_buffer [of "length ys"]
      by (simp add: holds_line_def edit_def)
  next
    case 2
    then have 2: "ev_pressed e" "32 \<le> ev_ascii e" "ev_ascii e \<le> 126" "ev_ascii e \<noteq> 8" "ev_ascii e \<noteq> 10" "length xs < 255"
      using p by (simp_all add: types_def)
    then have "handle_key buf e s = Some (False, s\<lparr>shell_buffer_pos := length xs + 1,
        smem := (smem s)(buf + of_nat (length xs) := ev_ascii e, buf + of_nat (Suc (length xs)) := 0), screen_of := v (ev_ascii e)\<rparr>)"
      using h v' by (simp add: handle_key_def Let_def SHELL_BUFFER_SIZE_def)
    moreover have "ev_ascii e \<noteq> 0" using 2(2) by auto
    then have "cstr ((smem s)(buf + of_nat (length xs) := ev_ascii e, buf + of_nat (Suc (length xs)) := 0)) buf (xs @ [ev_ascii e])"
      using h 2(6) by (intro cstr_snoc) simp_all
    ultimately show ?thesis using 2 h v(2) in_buffer [of "length xs"] in_buffer [of "Suc (length xs)"]
      by (simp add: holds_line_def edit_def)
  next
    case 3
    then show ?thesis using other assms(1) by simp
  qed
qed

lemma read_keys_edit:
  assumes "holds_line buf xs m s" "\<forall>e \<in> set ks. \<not> enter e" "enter e"
  shows "\<exists>s'. read_keys buf (ks @ e # rest) s = Some (rest, s') \<and> holds_line buf (fold edit ks xs) m s' \<and>
    port_of s' = port_of s"
  using assms
proof (induction ks arbitrary: xs s)
  case Nil
  obtain v where "kprint [10] (screen_of s) = Some v" "vga_ok v"
    using kprint_total [of "screen_of s"] Nil(1) by (auto simp: holds_line_def)
  then show ?case using Nil by (simp add: handle_key_def enter_def on_screen_def holds_line_def)
next
  case (Cons k ks)
  obtain s1 where "handle_key buf k s = Some (False, s1)" "holds_line buf (edit k xs) m s1" "port_of s1 = port_of s"
    using handle_key_edit [OF Cons.prems(1), of k] Cons.prems(2) by auto
  then show ?case using Cons.IH [of "edit k xs" s1] Cons.prems(2,3) by simp
qed

lemma shell_prompt_total: "vga_ok v \<Longrightarrow> \<exists>v'. shell_prompt v = Some v' \<and> vga_ok v'"
proof -
  assume "vga_ok v"
  then obtain w where "kprint (map ch ''synapse> '') (vga_set_color VGA_COLOR_LIGHT_GREEN VGA_COLOR_BLACK v) = Some w" "vga_ok w"
    using kprint_total [of "vga_set_color VGA_COLOR_LIGHT_GREEN VGA_COLOR_BLACK v"] by (metis vga_set_color_ok)
  then show ?thesis by (simp add: shell_prompt_def)
qed

lemma read_line_edit:
  assumes "vga_ok (screen_of s)" "\<forall>e \<in> set ks. \<not> enter e" "enter e"
  shows "\<exists>s'. read_line buf (ks @ e # rest) s = Some (rest, s') \<and> holds_line buf (fold edit ks []) (smem s) s' \<and>
    port_of s' = port_of s"
proof -
  obtain v where v: "shell_prompt (screen_of s) = Some v" "vga_ok v" using shell_prompt_total [OF assms(1)] by blast
  let ?s = "s\<lparr>screen_of := v, shell_buffer_pos := 0, smem := (smem s)(buf := 0)\<rparr>"
  have "holds_line buf [] (smem s) ?s" using v(2) by (auto simp: holds_line_def)
  from read_keys_edit [OF this assms(2,3)] show ?thesis using v(1) by (simp add: read_line_def on_screen_def)
qed

subsection \<open>Splitting at spaces\<close>

text \<open>The pieces between spaces, an empty one behind the last space left out.\<close>

function pieces :: "u8 list \<Rightarrow> u8 list list" where
  "pieces xs = (if xs = [] then []
     else takeWhile (\<lambda>c. c \<noteq> 32) xs # pieces (tl (dropWhile (\<lambda>c. c \<noteq> 32) xs)))"
  by auto
termination
proof (relation "measure length", simp)
  fix xs :: "u8 list"
  assume "xs \<noteq> []"
  then show "(tl (dropWhile (\<lambda>c. c \<noteq> 32) xs), xs) \<in> measure length"
    using length_dropWhile_le [of "\<lambda>c. c \<noteq> 32" xs] by (cases xs) (auto intro: le_less_trans)
qed

declare pieces.simps [simp del]

lemma pieces_append:
  "(\<forall>w \<in> set ws. 32 \<notin> set w) \<Longrightarrow> pieces (concat (map (\<lambda>w. w @ [32]) ws) @ us) = ws @ pieces us"
proof (induction ws)
  case (Cons w ws)
  have "takeWhile (\<lambda>c. c \<noteq> 32) (v @ 32 # us) = v" "dropWhile (\<lambda>c. c \<noteq> 32) (v @ 32 # us) = 32 # us"
    if "32 \<notin> set v" for v us :: "u8 list"
    using that by (induction v) auto
  then show ?case using Cons by (subst pieces.simps) simp
qed simp

lemma pieces_one: "w \<noteq> [] \<Longrightarrow> 32 \<notin> set w \<Longrightarrow> pieces w = [w]"
proof -
  assume w: "w \<noteq> []" "32 \<notin> set w"
  then have t: "takeWhile (\<lambda>c. c \<noteq> 32) w = w" and d: "dropWhile (\<lambda>c. c \<noteq> 32) w = []" by auto
  show ?thesis unfolding pieces.simps [of w] t d using w(1) by (simp add: pieces.simps [of "[]"])
qed

text \<open>Words with one space between two of them.\<close>

lemma pieces_spaced:
  assumes "ws \<noteq> []" "\<forall>w \<in> set ws. w \<noteq> [] \<and> 32 \<notin> set w"
  shows "pieces (spaced ws) = ws"
proof -
  have "last ws \<noteq> []" "32 \<notin> set (last ws)" "\<forall>w \<in> set (butlast ws). 32 \<notin> set w"
    using assms by (auto dest: in_set_butlastD)
  then show ?thesis using assms(1) by (simp add: spaced_def pieces_append pieces_one)
qed

text \<open>The arguments that \<open>parse_args\<close> finds from the start of a string are its pieces, in place.\<close>

definition apart_from :: "addr \<Rightarrow> addr \<Rightarrow> nat \<Rightarrow> bool" where
  "apart_from delim p n \<longleftrightarrow> (\<forall>k \<le> n. p + of_nat k \<notin> {NULL, delim, delim + 1})"

lemma cstr_delim: "cstr m delim [32] \<Longrightarrow> q \<notin> {delim, delim + 1} \<Longrightarrow> cstr (m(q := v)) delim [32]"
  by auto

lemma strtok_first:
  assumes "cstr m p xs" "cstr m delim [32]" "length xs < 2 ^ 31"
  shows "strtok_from p p delim m = Some (
    if xs = [] then (NULL, p, m)
    else if 32 \<in> set xs
      then (let q = p + of_nat (length (takeWhile (\<lambda>c. c \<noteq> 32) xs)) in (p, q + 1, m(q := 0)))
      else (p, NULL, m))"
proof -
  let ?t = "takeWhile (\<lambda>c. c \<notin> set [32]) xs"
  have t: "?t = takeWhile (\<lambda>c. c \<noteq> 32) xs" by simp
  have "length ?t < length xs \<longleftrightarrow> 32 \<in> set xs" by (induction xs) auto
  moreover have "p = p + of_nat (length xs) \<longleftrightarrow> xs = []"
    using offset_eq [of 0 "length xs" p] assms(3) by auto
  note e = calculation this
  show ?thesis
  proof (cases "32 \<in> set xs")
    case True
    then show ?thesis using strtok_from_cstr [OF assms(1,2), of p] e unfolding t Let_def by auto
  next
    case False
    then have x: "takeWhile (\<lambda>c. c \<noteq> 32) xs = xs" by (auto simp: takeWhile_eq_all_conv)
    show ?thesis using strtok_from_cstr [OF assms(1,2), of p] e False unfolding t x Let_def by simp
  qed
qed

lemma parse_args_null [simp]: "parse_args n delim NULL save m = Some ([], save, m)"
  by (cases n) simp_all

text \<open>The first piece stays as it is when the rest is split further.\<close>

lemma first_piece:
  assumes "cstr m p xs" "length xs < 2 ^ 31" "32 \<in> set xs" and l: "l = length (takeWhile (\<lambda>c. c \<noteq> 32) xs)"
    and m': "\<And>a. (\<forall>k \<le> length (drop (Suc l) xs). a \<noteq> p + of_nat (Suc l) + of_nat k) \<Longrightarrow> m' a = (m(p + of_nat l := 0)) a"
  shows "l < length xs" "cstr m' p (takeWhile (\<lambda>c. c \<noteq> 32) xs)" "cstr (m(p + of_nat l := 0)) (p + of_nat (Suc l)) (drop (Suc l) xs)"
    and "(\<forall>k \<le> length xs. a \<noteq> p + of_nat k) \<Longrightarrow> m' a = m a"
proof -
  show lt: "l < length xs" using assms(3) unfolding l by (induction xs) auto
  have ne: "p + of_nat i \<noteq> p + of_nat j" if "i \<noteq> j" "i \<le> length xs" "j \<le> length xs" for i j
    using that assms(2) by (subst offset_eq) simp_all
  have out: "m' (p + of_nat i) = (m(p + of_nat l := 0)) (p + of_nat i)" if "i \<le> l" for i
  proof (rule m', intro allI impI)
    fix k assume "k \<le> length (drop (Suc l) xs)"
    then have "Suc l + k \<le> length xs" using lt by simp
    then show "p + of_nat i \<noteq> p + of_nat (Suc l) + of_nat k"
      using ne [of i "Suc l + k"] that lt by (simp add: ac_simps)
  qed
  have x: "m (p + of_nat i) = xs ! i \<and> xs ! i \<noteq> 0" if "i < l" for i
    using cstr_nth [OF assms(1), of i] that lt by simp
  have t: "takeWhile (\<lambda>c. c \<noteq> 32) xs ! i = xs ! i" if "i < l" for i
    using that unfolding l by (rule takeWhile_nth)
  have "m' (p + of_nat i) = takeWhile (\<lambda>c. c \<noteq> 32) xs ! i \<and> takeWhile (\<lambda>c. c \<noteq> 32) xs ! i \<noteq> 0" if "i < l" for i
    using out [of i] x [OF that] t [OF that] ne [of i l] that lt by simp
  moreover have "m' (p + of_nat l) = 0" using out [of l] by simp
  ultimately show "cstr m' p (takeWhile (\<lambda>c. c \<noteq> 32) xs)" unfolding cstr_iff l [symmetric] by blast
  have "cstr m (p + of_nat (Suc l)) (drop (Suc l) xs)" using cstr_drop [OF assms(1), of "Suc l"] lt by simp
  moreover have "(m(p + of_nat l := 0)) (p + of_nat (Suc l) + of_nat i) = m (p + of_nat (Suc l) + of_nat i)"
    if "i \<le> length (drop (Suc l) xs)" for i
    using ne [of "Suc l + i" l] that lt by (simp add: ac_simps)
  ultimately show "cstr (m(p + of_nat l := 0)) (p + of_nat (Suc l)) (drop (Suc l) xs)"
    using cstr_cong [of "drop (Suc l) xs" "m(p + of_nat l := 0)" "p + of_nat (Suc l)" m] by blast
  show "m' a = m a" if a: "\<forall>k \<le> length xs. a \<noteq> p + of_nat k"
  proof -
    have "m' a = (m(p + of_nat l := 0)) a"
    proof (rule m', intro allI impI)
      fix k assume "k \<le> length (drop (Suc l) xs)"
      then have "Suc l + k \<le> length xs" using lt by simp
      then have "a \<noteq> p + of_nat (Suc l + k)" using a by blast
      then show "a \<noteq> p + of_nat (Suc l) + of_nat k" by (simp add: ac_simps)
    qed
    then show ?thesis using a lt by auto
  qed
qed

lemma parse_pieces:
  assumes "cstr m p xs" "cstr m delim [32]" "length xs < 2 ^ 31" "apart_from delim p (length xs)"
  shows "\<exists>args save m'. do { (t, s, m) \<leftarrow> strtok_from p p delim m; parse_args n delim t s m } = Some (args, save, m') \<and>
    list_all2 (cstr m') args (take n (pieces xs)) \<and>
    (\<forall>a. (\<forall>k \<le> length xs. a \<noteq> p + of_nat k) \<longrightarrow> m' a = m a)"
  using assms
proof (induction n arbitrary: p xs m)
  case 0
  let ?l = "length (takeWhile (\<lambda>c. c \<noteq> 32) xs)"
  have "?l \<le> length xs" by (rule length_takeWhile_le)
  then have m': "\<forall>a. (\<forall>k \<le> length xs. a \<noteq> p + of_nat k) \<longrightarrow> (m(p + of_nat ?l := 0)) a = m a" by simp
  note f = strtok_first [OF 0(1-3)]
  consider "xs = []" | "xs \<noteq> []" "32 \<notin> set xs" | "xs \<noteq> []" "32 \<in> set xs" by blast
  then show ?case
  proof cases
    case 3
    then show ?thesis using f m' by (simp add: Let_def)
  qed (use f in simp_all)
next
  case (Suc n)
  note f = strtok_first [OF Suc.prems(1-3)]
  have p0: "p \<noteq> NULL" using Suc.prems(4) [unfolded apart_from_def, rule_format, of 0] by simp
  consider "xs = []" | "xs \<noteq> []" "32 \<notin> set xs" | "xs \<noteq> []" "32 \<in> set xs" by blast
  then show ?case
  proof cases
    case 1
    then show ?thesis using f by (simp add: pieces.simps)
  next
    case 2
    then show ?thesis using f p0 Suc.prems(1) by (simp add: strtok_def pieces_one)
  next
    case 3
    define l where "l = length (takeWhile (\<lambda>c. c \<noteq> 32) xs)"
    let ?m = "m(p + of_nat l := 0)" and ?q = "p + of_nat (Suc l)" and ?r = "drop (Suc l) xs"
    note fp = first_piece [OF Suc.prems(1,3) 3(2) l_def]
    have lt: "l < length xs" using 3(2) unfolding l_def by (induction xs) auto
    have away: "p + of_nat k \<notin> {NULL, delim, delim + 1}" if "k \<le> length xs" for k
      using that Suc.prems(4) by (simp add: apart_from_def)
    have r: "cstr ?m ?q ?r" by (rule fp(3)) simp
    have d: "cstr ?m delim [32]" using away [of l] lt by (intro cstr_delim [OF Suc.prems(2)]) auto
    have ap: "apart_from delim ?q (length ?r)"
      unfolding apart_from_def
    proof (intro allI impI)
      fix k assume "k \<le> length ?r"
      then have a: "p + of_nat (Suc l + k) \<notin> {NULL, delim, delim + 1}" using lt by (intro away) simp
      have "?q + of_nat k = p + of_nat (Suc l + k)" by (simp add: ac_simps)
      then show "?q + of_nat k \<notin> {NULL, delim, delim + 1}" using a by metis
    qed
    have short: "length ?r < 2 ^ 31" using Suc.prems(3) by simp
    obtain args save m' where ih: "do { (t, s, m) \<leftarrow> strtok_from ?q ?q delim ?m; parse_args n delim t s m } = Some (args, save, m')"
      "list_all2 (cstr m') args (take n (pieces ?r))" "\<And>a. (\<forall>k \<le> length ?r. a \<noteq> ?q + of_nat k) \<Longrightarrow> m' a = ?m a"
      using Suc.IH [OF r d short ap] by blast
    have q: "p + of_nat l + 1 = ?q" by simp
    have "strtok NULL delim ?q ?m = strtok_from ?q ?q delim ?m"
      using away [of "Suc l"] lt by (simp add: strtok_def Let_def)
    then have "do { (t, s, m) \<leftarrow> strtok_from p p delim m; parse_args (Suc n) delim t s m } = Some (p # args, save, m')"
      using f 3 p0 ih(1) unfolding l_def [symmetric] Let_def q by (auto simp: bind_eq_Some_conv split: prod.splits)
    moreover have "pieces xs = takeWhile (\<lambda>c. c \<noteq> 32) xs # pieces ?r"
      using 3(1) unfolding l_def by (subst pieces.simps) (simp add: dropWhile_eq_drop drop_Suc tl_drop)
    ultimately show ?thesis using fp(2,4) [OF ih(3)] ih(2) by (intro exI [of _ "p # args"] exI [of _ save] exI [of _ m']) auto
  qed
qed

subsection \<open>From keys to a command\<close>

definition key :: "u8 \<Rightarrow> key_event" where "key c = \<lparr>ev_scancode = 0, ev_ascii = c, ev_pressed = True\<rparr>"

definition printable_bytes :: "u8 list \<Rightarrow> bool" where
  "printable_bytes xs \<longleftrightarrow> (\<forall>c \<in> set xs. 32 \<le> c \<and> c \<le> 126)"

lemma not_enter_key: "32 \<le> c \<Longrightarrow> \<not> enter (key c)"
  by (auto simp: enter_def key_def)

lemma fold_edit_typed:
  "printable_bytes xs \<Longrightarrow> length ys + length xs \<le> 255 \<Longrightarrow> fold edit (map key xs) ys = ys @ xs"
proof (induction xs arbitrary: ys)
  case (Cons x xs)
  then have "edit (key x) ys = ys @ [x]" by (auto simp: edit_def key_def printable_bytes_def)
  then show ?case using Cons by (simp add: printable_bytes_def)
qed simp

lemma bytes_at_cstr:
  assumes "cstr m p xs" "length xs < 2 ^ 32"
  shows "bytes_at p m = Some xs"
proof -
  have "unat (of_nat (length xs) :: u32) = length xs" using assms(2) by (rule unat_of_nat_small)
  moreover have "map (\<lambda>i. m (p + of_nat i)) [0..<length xs] = xs"
    using cstr_nth [OF assms(1)] by (intro nth_equalityI) auto
  ultimately show ?thesis using strlen_cstr [OF assms(1)] by (simp add: bytes_at_def)
qed

lemma strings_at_cstr:
  "list_all2 (cstr m) ps ws \<Longrightarrow> \<forall>w \<in> set ws. length w < 2 ^ 32 \<Longrightarrow> strings_at ps m = Some ws"
  by (induction rule: list_all2_induct) (auto simp: bytes_at_cstr)

lemma parse_line:
  assumes "holds_line buf xs m s" "cstr m delim [32]" "apart_from delim buf 255"
  shows "\<exists>argv s'. shell_parse_command buf delim s = Some (argv, s') \<and> screen_of s' = screen_of s \<and> port_of s' = port_of s \<and>
    list_all2 (cstr (smem s')) argv (take 16 (pieces xs)) \<and>
    shell_buffer_pos s' = length xs \<and> (\<forall>a. 256 \<le> unat (a - buf) \<longrightarrow> smem s' a = m a)"
proof -
  note h = assms(1) [unfolded holds_line_def]
  have far: "256 \<le> unat (d - buf)" if "\<And>k. k \<le> 255 \<Longrightarrow> buf + of_nat k \<noteq> d" for d
  proof (rule ccontr)
    assume "\<not> 256 \<le> unat (d - buf)"
    then have "unat (d - buf) \<le> 255" "buf + of_nat (unat (d - buf)) = d" by simp_all
    then show False using that by blast
  qed
  have away: "buf + of_nat k \<notin> {NULL, delim, delim + 1}" if "k \<le> 255" for k
    using that assms(3) unfolding apart_from_def by blast
  have "256 \<le> unat (delim - buf)" "256 \<le> unat (delim + 1 - buf)" using far away by auto
  then have d: "cstr (smem s) delim [32]" using h assms(2) by simp
  have ap: "apart_from delim buf (length xs)" using away h unfolding apart_from_def by (meson le_trans)
  have b: "buf \<noteq> NULL" using away [of 0] by simp
  obtain args save m' where "do { (t, s, m) \<leftarrow> strtok_from buf buf delim (smem s); parse_args 16 delim t s m } = Some (args, save, m')"
    "list_all2 (cstr m') args (take 16 (pieces xs))"
    and fr: "\<forall>a. (\<forall>k \<le> length xs. a \<noteq> buf + of_nat k) \<longrightarrow> m' a = smem s a"
    using parse_pieces [OF _ d _ ap, of 16] h by auto
  moreover have "\<forall>a. 256 \<le> unat (a - buf) \<longrightarrow> m' a = m a"
  proof (intro allI impI)
    fix a assume a: "256 \<le> unat (a - buf)"
    then have "a \<noteq> buf + of_nat k" if "k \<le> length xs" for k using in_buffer [of k a buf] that h by simp
    then show "m' a = m a" using fr h a by simp
  qed
  ultimately show ?thesis using b h
    by (intro exI [of _ args] exI [of _ "s\<lparr>strtok_saveptr := save, smem := m'\<rparr>"])
      (auto simp: shell_parse_command_def strtok_def SHELL_MAX_ARGS_def bind_eq_Some_conv split: prod.splits)
qed

lemma spaced_bytes:
  assumes "\<forall>w \<in> set ws. w \<noteq> [] \<and> printable_bytes w" "ws \<noteq> []"
  shows "printable_bytes (spaced ws)" "spaced ws \<noteq> []" "\<forall>w \<in> set ws. length w \<le> length (spaced ws)"
proof -
  have l: "last ws \<in> set ws" using assms(2) by simp
  have b: "w \<in> set (butlast ws) \<Longrightarrow> w \<in> set ws" for w by (rule in_set_butlastD)
  show "printable_bytes (spaced ws)" using assms(1) l b by (auto simp: spaced_def printable_bytes_def)
  show "spaced ws \<noteq> []" using assms(1) l by (simp add: spaced_def)
  have "length w \<le> length (concat (map (\<lambda>w. w @ [32]) us) @ v)" if "w \<in> set (us @ [v])" for w us and v :: "u8 list"
    using that by (induction us) auto
  from this [of _ "butlast ws" "last ws"] show "\<forall>w \<in> set ws. length w \<le> length (spaced ws)"
    using assms(2) by (simp add: spaced_def del: length_append)
qed

text \<open>The screen while a line is typed: the line, and a new line.\<close>

lemma typed_screen:
  assumes "printable_bytes xs" "shell_buffer_pos s + length xs \<le> 255" "enter e"
    and "read_keys buf (map key xs @ e # rest) s = Some (rest', s')"
  shows "kprint (xs @ [10]) (screen_of s) = Some (screen_of s')"
  using assms
proof (induction xs arbitrary: s)
  case Nil
  then show ?case by (auto simp: handle_key_def enter_def on_screen_def bind_eq_Some_conv)
next
  case (Cons x xs)
  have x: "32 \<le> x" "x \<le> 126" "x \<noteq> 8" "x \<noteq> 10" "printable_bytes xs" using Cons.prems(1) by (auto simp: printable_bytes_def)
  have first: "handle_key buf (key x) s = do { y \<leftarrow> vga_putc x (screen_of s); Some (False, s\<lparr>
      shell_buffer_pos := shell_buffer_pos s + 1, smem := (smem s)(buf + of_nat (shell_buffer_pos s) := x,
        buf + of_nat (shell_buffer_pos s + 1) := 0), screen_of := y\<rparr>) }"
    using Cons.prems(2) x by (simp add: handle_key_def key_def [of x] on_screen_def SHELL_BUFFER_SIZE_def Let_def)
  obtain y where y: "vga_putc x (screen_of s) = Some y"
    using Cons.prems(4) unfolding list.map append_Cons read_keys.simps first by (auto simp: bind_eq_Some_conv)
  define s1 where "s1 = s\<lparr>shell_buffer_pos := shell_buffer_pos s + 1,
    smem := (smem s)(buf + of_nat (shell_buffer_pos s) := x, buf + of_nat (shell_buffer_pos s + 1) := 0), screen_of := y\<rparr>"
  have s1: "handle_key buf (key x) s = Some (False, s1)" unfolding first y s1_def by simp
  then have "read_keys buf (map key xs @ e # rest) s1 = Some (rest', s')" "screen_of s1 = y"
      "shell_buffer_pos s1 = shell_buffer_pos s + 1"
    using Cons.prems(4) by (simp_all add: s1_def)
  then show ?case using Cons.IH [OF x(5) _ Cons.prems(3), of s1] Cons.prems(2) y by (simp add: kprint_def)
qed

lemma turn_words:
  assumes "vga_ok (screen_of s)" "cstr (smem s) delim [32]" "apart_from delim buf 255"
    and ws: "ws \<noteq> []" "\<forall>w \<in> set ws. w \<noteq> [] \<and> 32 \<notin> set w \<and> printable_bytes w" "length (spaced ws) \<le> 255" and e: "enter e"
  shows "\<exists>s' v. vga_ok (screen_of s') \<and> shell_prompt (screen_of s) = Some v \<and>
    shell_buffer_pos s' = length (spaced ws) \<and> (\<forall>a. 256 \<le> unat (a - buf) \<longrightarrow> smem s' a = smem s a) \<and>
    kprint (spaced ws @ [10]) v = Some (screen_of s') \<and>
    shell_turn buf delim x (map key (spaced ws) @ e # rest) s =
    map_option (\<lambda>(v, p). (rest, s'\<lparr>screen_of := v, port_of := p\<rparr>)) (dispatch_line x (take 16 ws) (screen_of s', port_of s))"
proof -
  have sp: "printable_bytes (spaced ws)" "spaced ws \<noteq> []" "\<forall>w \<in> set ws. length w \<le> length (spaced ws)"
    using spaced_bytes [OF _ ws(1)] ws(2) by auto
  have "\<forall>k \<in> set (map key (spaced ws)). \<not> enter k" using sp(1) not_enter_key by (auto simp: printable_bytes_def)
  from read_line_edit [OF assms(1) this e, of buf rest]
  obtain s1 where s1: "read_line buf (map key (spaced ws) @ e # rest) s = Some (rest, s1)"
    "holds_line buf (spaced ws) (smem s) s1" "port_of s1 = port_of s"
    using fold_edit_typed [OF sp(1), of "[]"] ws(3) by auto
  obtain v where v: "shell_prompt (screen_of s) = Some v"
    "kprint (spaced ws @ [10]) v = Some (screen_of s1)"
  proof -
    from s1(1) obtain v where v: "shell_prompt (screen_of s) = Some v"
      "read_keys buf (map key (spaced ws) @ e # rest)
        (s\<lparr>screen_of := v, shell_buffer_pos := 0, smem := (smem s)(buf := 0)\<rparr>) = Some (rest, s1)"
      by (auto simp: read_line_def on_screen_def Let_def bind_eq_Some_conv)
    then show thesis using typed_screen [OF sp(1) _ e v(2)] ws(3) by (intro that) auto
  qed
  obtain argv s2 where s2: "shell_parse_command buf delim s1 = Some (argv, s2)" "screen_of s2 = screen_of s1"
    "port_of s2 = port_of s1" "list_all2 (cstr (smem s2)) argv (take 16 ws)"
    "shell_buffer_pos s2 = length (spaced ws)" "\<forall>a. 256 \<le> unat (a - buf) \<longrightarrow> smem s2 a = smem s a"
    using parse_line [OF s1(2) assms(2,3)] pieces_spaced [OF ws(1)] ws(2) by auto
  have "\<forall>w \<in> set (take 16 ws). length w < 2 ^ 32" using sp(3) ws(3) by (force dest: in_set_takeD)
  then have st: "strings_at argv (smem s2) = Some (take 16 ws)" using s2(4) by (rule strings_at_cstr [rotated])
  have "argv \<noteq> []" using s2(4) ws(1) by auto
  moreover have "shell_buffer_pos s1 \<noteq> 0" using s1(2) sp(2) by (simp add: holds_line_def)
  ultimately have "shell_turn buf delim x (map key (spaced ws) @ e # rest) s =
    map_option (\<lambda>(v, p). (rest, s2\<lparr>screen_of := v, port_of := p\<rparr>)) (dispatch_line x (take 16 ws) (screen_of s2, port_of s))"
    using s1 s2 st by (auto simp: shell_turn_def on_devices_def map_option_case split: option.splits)
  moreover have "vga_ok (screen_of s1)" using s1(2) by (simp add: holds_line_def)
  ultimately show ?thesis using v s2(2,5,6) by (intro exI [of _ s2] exI [of _ v]) simp
qed

lemma apart_from_intro:
  "n < unat (- buf) \<Longrightarrow> n < unat (delim - buf) \<Longrightarrow> n < unat (delim + 1 - buf) \<Longrightarrow> apart_from delim buf n"
  unfolding apart_from_def
proof (intro allI impI)
  fix k assume n: "n < unat (- buf)" "n < unat (delim - buf)" "n < unat (delim + 1 - buf)" "k \<le> n"
  have far: "buf + of_nat k \<noteq> d" if "n < unat (d - buf)" for d
  proof
    assume d: "buf + of_nat k = d"
    have "unat (d - buf) < 2 ^ 32" using unsigned_less [of "d - buf", where 'a = nat] by simp
    then have "k < 2 ^ 32" using that n(4) by linarith
    then have "unat (of_nat k :: u32) = k" by (rule unat_of_nat_small)
    then show False using d that n(4) by auto
  qed
  show "buf + of_nat k \<notin> {NULL, delim, delim + 1}" using far [of NULL] far [of delim] far [of "delim + 1"] n by simp
qed

lemma find_echo: "find_command (map ch ''echo'') = Some Cmd_echo"
  by (simp add: find_command_def shell_commands_def ch_def)

subsection \<open>Properties\<close>

text \<open>C25: the line editor refines an editor of lists: when enter comes, the buffer holds, ended by a zero byte, what the
  keys before it make of an empty line (append, rub out, ignore), never more than 255 characters; no byte outside
  the 256 bytes of the buffer has changed.\<close>

theorem line_editor:
  assumes "vga_ok (screen_of s)" "\<forall>k \<in> set ks. \<not> enter k" "enter e"
  shows "\<exists>s'. read_line buf (ks @ e # rest) s = Some (rest, s') \<and> cstr (smem s') buf (fold edit ks []) \<and>
    shell_buffer_pos s' = length (fold edit ks []) \<and> length (fold edit ks []) \<le> 255 \<and>
    (\<forall>a. 256 \<le> unat (a - buf) \<longrightarrow> smem s' a = smem s a) \<and> port_of s' = port_of s \<and> vga_ok (screen_of s')"
  using read_line_edit [OF assms, of buf rest] by (auto simp: holds_line_def)

definition shell_start :: shell where
  "shell_start = \<lparr>smem = (\<lambda>_. 0)(0x2000 := 32), shell_buffer_pos = 0, screen_of = vga_blank, strtok_saveptr = NULL,
     port_of = \<lparr>sent = [], polls = 0\<rparr>\<rparr>"

lemma shell_start_ok: "vga_ok (screen_of shell_start)" "cstr (smem shell_start) 0x2000 [32]"
  by (simp_all add: shell_start_def vga_ok_def vga_blank_def VGA_HEIGHT_def VGA_WIDTH_def)

lemma start_apart: "apart_from 0x2000 0x1000 255"
  by (rule apart_from_intro) simp_all

theorem line_editor_witness:
  "\<exists>s'. read_line 0x1000 (map key (map ch ''ab'' @ [8] @ map ch ''c'') @ [key 10]) shell_start = Some ([], s') \<and>
    cstr (smem s') 0x1000 (map ch ''ac'')"
proof -
  let ?ks = "map key (map ch ''ab'' @ [8] @ map ch ''c'')"
  have "\<forall>k \<in> set ?ks. \<not> enter k" "enter (key 10)" by (simp_all add: enter_def key_def ch_def)
  moreover have "fold edit ?ks [] = map ch ''ac''" by (simp add: edit_def key_def ch_def)
  ultimately show ?thesis using line_editor [OF shell_start_ok(1), of ?ks "key 10" "0x1000" "[]"] by auto
qed

text \<open>C26: typed words with one space between them come through the keyboard events, the buffer and \<^verbatim>\<open>strtok\<close> to the
  command unchanged: a turn of the shell prints the prompt, the line and a new line and then calls what the first
  word names with the words, of which it drops those behind the sixteenth.\<close>

theorem shell_runs_words:
  assumes "vga_ok (screen_of s)" "cstr (smem s) delim [32]" "apart_from delim buf 255" "ws \<noteq> []"
    and "\<forall>w \<in> set ws. w \<noteq> [] \<and> 32 \<notin> set w \<and> printable_bytes w" "length (spaced ws) \<le> 255" "enter e"
  shows "\<exists>s' v. shell_prompt (screen_of s) = Some v \<and> kprint (spaced ws @ [10]) v = Some (screen_of s') \<and>
    shell_turn buf delim x (map key (spaced ws) @ e # rest) s =
    map_option (\<lambda>(v, p). (rest, s'\<lparr>screen_of := v, port_of := p\<rparr>)) (dispatch_line x (take 16 ws) (screen_of s', port_of s))"
  using turn_words [OF assms, of x rest] by blast

theorem shell_runs_words_witness:
  "\<forall>x. \<exists>s'. shell_turn 0x1000 0x2000 x (map key (map ch ''version now'') @ [key 10]) shell_start =
    map_option (\<lambda>(v, p). ([], s'\<lparr>screen_of := v, port_of := p\<rparr>))
      (run_command x Cmd_version [map ch ''version'', map ch ''now''] (screen_of s', port_of shell_start))"
proof
  fix x
  let ?ws = "[map ch ''version'', map ch ''now'']"
  have "\<forall>w \<in> set ?ws. w \<noteq> [] \<and> 32 \<notin> set w \<and> printable_bytes w" "length (spaced ?ws) \<le> 255" "enter (key 10)"
    by (simp_all add: printable_bytes_def spaced_def enter_def key_def ch_def)
  moreover have "spaced ?ws = map ch ''version now''" by (simp add: spaced_def ch_def)
  moreover have "find_command (map ch ''version'') = Some Cmd_version"
    by (simp add: find_command_def shell_commands_def ch_def)
  ultimately show "\<exists>s'. shell_turn 0x1000 0x2000 x (map key (map ch ''version now'') @ [key 10]) shell_start =
    map_option (\<lambda>(v, p). ([], s'\<lparr>screen_of := v, port_of := p\<rparr>))
      (run_command x Cmd_version ?ws (screen_of s', port_of shell_start))"
    using shell_runs_words [OF shell_start_ok start_apart, of ?ws "key 10" x "[]"]
    by (auto simp: dispatch_line_def simp del: list.map)
qed

text \<open>C27: a typed line \<open>echo w1 ... wn\<close> with at most fifteen words prints, behind the prompt and the line itself, the
  words with one space between them on a line of their own. No byte of memory outside the 256 bytes of the line buffer
  changes, and the serial port is not used; beside the screen and the buffer with its position only the pointer
  that \<^verbatim>\<open>strtok\<close> keeps is different afterwards.\<close>

theorem shell_echoes:
  assumes "vga_ok (screen_of s)" "cstr (smem s) delim [32]" "apart_from delim buf 255" "ws \<noteq> []" "length ws < 16"
    and "\<forall>w \<in> set ws. w \<noteq> [] \<and> 32 \<notin> set w \<and> printable_bytes w" "length (spaced ws) \<le> 250" "enter e"
  shows "\<exists>s' v. shell_turn buf delim x (map key (map ch ''echo '' @ spaced ws) @ e # rest) s = Some (rest, s') \<and>
    shell_prompt (screen_of s) = Some v \<and>
    kprint (map ch ''echo '' @ spaced ws @ [10, 10] @ spaced ws @ [10]) v = Some (screen_of s') \<and>
    vga_ok (screen_of s') \<and> port_of s' = port_of s \<and> shell_buffer_pos s' = 5 + length (spaced ws) \<and>
    (\<forall>a. 256 \<le> unat (a - buf) \<longrightarrow> smem s' a = smem s a)"
proof -
  let ?e = "map ch ''echo''" and ?l = "map ch ''echo '' @ spaced ws"
  have sp: "spaced (?e # ws) = ?l" using spaced_Cons [OF assms(4), of ?e] by (simp add: ch_def)
  have e: "?e \<noteq> [] \<and> 32 \<notin> set ?e \<and> printable_bytes ?e" by (simp add: printable_bytes_def ch_def)
  have "length ?l \<le> 255" using assms(7) by simp
  moreover have "\<forall>w \<in> set (?e # ws). w \<noteq> [] \<and> 32 \<notin> set w \<and> printable_bytes w" using e assms(6) by simp
  ultimately obtain s' v where t: "vga_ok (screen_of s')" "shell_prompt (screen_of s) = Some v" "kprint (?l @ [10]) v = Some (screen_of s')"
    "shell_turn buf delim x (map key ?l @ e # rest) s = map_option (\<lambda>(v, p). (rest, s'\<lparr>screen_of := v, port_of := p\<rparr>))
      (dispatch_line x (take 16 (?e # ws)) (screen_of s', port_of s))"
    "shell_buffer_pos s' = length ?l" "\<forall>a. 256 \<le> unat (a - buf) \<longrightarrow> smem s' a = smem s a"
    using turn_words [OF assms(1-3) _ _ _ assms(8), of "?e # ws" x rest] unfolding sp by blast
  obtain w where w: "kprint (10 # spaced ws @ [10]) (screen_of s') = Some w" "vga_ok w" using kprint_total [OF t(1)] by blast
  have "take 16 (?e # ws) = ?e # ws" using assms(5) by simp
  then have "dispatch_line x (take 16 (?e # ws)) (screen_of s', port_of s) = Some (w, port_of s)"
    using w(1) echo_prints [OF assms(4), of ?e "screen_of s'"] find_echo
    by (simp add: dispatch_line_def run_command_def screen_only_def del: list.map)
  then have "shell_turn buf delim x (map key ?l @ e # rest) s = Some (rest, s'\<lparr>screen_of := w, port_of := port_of s\<rparr>)"
    using t(4) by simp
  moreover have "kprint ((?l @ [10]) @ 10 # spaced ws @ [10]) v = Some w"
    unfolding kprint_append [of "?l @ [10]"] t(3) using w(1) by simp
  ultimately show ?thesis using t(2,5,6) w(2) by (intro exI [of _ "s'\<lparr>screen_of := w, port_of := port_of s\<rparr>"] exI [of _ v]) simp
qed

theorem shell_echoes_witness:
  "\<forall>x. \<exists>s' v. shell_turn 0x1000 0x2000 x (map key (map ch ''echo to you'') @ [key 10]) shell_start = Some ([], s') \<and>
    shell_prompt vga_blank = Some v \<and>
    kprint (map ch ''echo to you'' @ [10, 10] @ map ch ''to you'' @ [10]) v = Some (screen_of s')"
proof
  fix x
  let ?ws = "[map ch ''to'', map ch ''you'']"
  have "\<forall>w \<in> set ?ws. w \<noteq> [] \<and> 32 \<notin> set w \<and> printable_bytes w" "length (spaced ?ws) \<le> 250" "enter (key 10)"
    by (simp_all add: printable_bytes_def spaced_def enter_def key_def ch_def)
  moreover have "spaced ?ws = map ch ''to you''" by (simp add: spaced_def ch_def)
  moreover have "screen_of shell_start = vga_blank" by (simp add: shell_start_def)
  ultimately show "\<exists>s' v. shell_turn 0x1000 0x2000 x (map key (map ch ''echo to you'') @ [key 10]) shell_start = Some ([], s') \<and>
    shell_prompt vga_blank = Some v \<and>
    kprint (map ch ''echo to you'' @ [10, 10] @ map ch ''to you'' @ [10]) v = Some (screen_of s')"
    using shell_echoes [OF shell_start_ok start_apart, of ?ws "key 10" x "[]"] by auto
qed

end
