(* ===== verification/Interrupts.thy ===== *)
theory Interrupts
  imports Keyboard
begin

text \<open>
  Interrupts: \<^verbatim>\<open>lib/interrupts.c\<close>, \<^verbatim>\<open>include/interrupts.h\<close> and \<^verbatim>\<open>keyboard_init\<close> of \<^verbatim>\<open>lib/keyboard.c\<close>.

  The inline assembly works on the register AL, the interrupt flag, the table register and the ports, which are
  the state together with the table; \<open>d p\<close> is what a read of port \<open>p\<close> gives. The addresses of the table and
  of the two entry routines are parameters, as is what AL holds when \<^verbatim>\<open>keyboard_handler\<close> writes it to port 0x20: the
  assembly there does not set it.

  The last part is what the processor makes of the table: the repository is built for i686, where a gate
  takes 8 bytes, whereas \<^verbatim>\<open>idt_entry_t\<close> takes 16.
\<close>

unbundle bit_operations_syntax

subsection \<open>Registers and ports\<close>

definition IDT_ENTRIES :: nat where "IDT_ENTRIES = 256"

record idt_entry =
  offset_low :: u16
  selector :: u16
  ist :: u8
  type_attr :: u8
  offset_mid :: u16
  offset_high :: u32
  zero :: u32

definition gate :: "u64 \<Rightarrow> u16 \<Rightarrow> u8 \<Rightarrow> idt_entry" where
  "gate base sel flags = \<lparr>offset_low = ucast (base AND 0xFFFF), selector = sel, ist = 0, type_attr = flags,
     offset_mid = ucast (drop_bit 16 base AND 0xFFFF), offset_high = ucast (drop_bit 32 base AND 0xFFFFFFFF), zero = 0\<rparr>"

definition idt_set_gate :: "u8 \<Rightarrow> u64 \<Rightarrow> u16 \<Rightarrow> u8 \<Rightarrow> idt_entry list \<Rightarrow> idt_entry list" where
  "idt_set_gate num base sel flags idt = idt[unat num := gate base sel flags]"

record idt_ptr =
  ptr_limit :: u16
  ptr_base :: u64

record intr =
  idt :: "idt_entry list"
  idt_ptr :: idt_ptr
  idtr :: idt_ptr
  al :: u8
  int_flag :: bool
  written :: "(u16 \<times> u8) list"

definition cli :: "intr \<Rightarrow> intr" where "cli s = s\<lparr>int_flag := False\<rparr>"
definition sti :: "intr \<Rightarrow> intr" where "sti s = s\<lparr>int_flag := True\<rparr>"
definition lidt :: "idt_ptr \<Rightarrow> intr \<Rightarrow> intr" where "lidt p s = s\<lparr>idtr := p\<rparr>"
definition inb_al :: "(u16 \<Rightarrow> u8) \<Rightarrow> u16 \<Rightarrow> intr \<Rightarrow> intr" where "inb_al d p s = s\<lparr>al := d p\<rparr>"
definition outb_al :: "u16 \<Rightarrow> intr \<Rightarrow> intr" where "outb_al p s = s\<lparr>written := written s @ [(p, al s)]\<rparr>"
definition orb_al :: "u8 \<Rightarrow> intr \<Rightarrow> intr" where "orb_al c s = s\<lparr>al := al s OR c\<rparr>"
definition andb_al :: "u8 \<Rightarrow> intr \<Rightarrow> intr" where "andb_al c s = s\<lparr>al := al s AND c\<rparr>"

lemmas cpu_defs = cli_def sti_def lidt_def inb_al_def outb_al_def orb_al_def andb_al_def

definition set_gate :: "u8 \<Rightarrow> u64 \<Rightarrow> u16 \<Rightarrow> u8 \<Rightarrow> intr \<Rightarrow> intr" where
  "set_gate num base sel flags s = s\<lparr>idt := idt_set_gate num base sel flags (idt s)\<rparr>"

subsection \<open>Setting up\<close>

definition keyboard_init :: "(u16 \<Rightarrow> u8) \<Rightarrow> intr \<Rightarrow> intr" where
  "keyboard_init d s =
     (let s = cli s;
          s = inb_al d 0x61 s;
          s = orb_al 0x80 s;
          s = outb_al 0x61 s;
          s = andb_al 0x7F s;
          s = outb_al 0x61 s
      in sti s)"

text \<open>\<^verbatim>\<open>sizeof(idt_entry_t)\<close> of the packed structure is 16.\<close>

definition sizeof_idt_entry :: nat where "sizeof_idt_entry = 16"

definition idt_init :: "u32 \<Rightarrow> intr \<Rightarrow> intr" where
  "idt_init idt_addr s =
     (let s = s\<lparr>idt_ptr := \<lparr>ptr_limit = of_nat (sizeof_idt_entry * IDT_ENTRIES) - 1, ptr_base = ucast idt_addr\<rparr>\<rparr>
      in fold (\<lambda>i. set_gate (of_nat i) 0 0 0) [0..<IDT_ENTRIES] s)"

definition isr_install :: "u32 \<Rightarrow> intr \<Rightarrow> intr" where
  "isr_install idt_addr s = idt_init idt_addr s"

definition irq_install :: "(u16 \<Rightarrow> u8) \<Rightarrow> u32 \<Rightarrow> u32 \<Rightarrow> intr \<Rightarrow> intr" where
  "irq_install d keyboard_addr timer_addr s =
     (let s = set_gate 0x21 (ucast keyboard_addr) 0x08 0x8E s;
          s = set_gate 0x20 (ucast timer_addr) 0x08 0x8E s;
          s = lidt (idt_ptr s) s;
          s = inb_al d 0x21 s;
          s = andb_al 0xFC s
      in outb_al 0x21 s)"

subsection \<open>The keyboard interrupt\<close>

definition keyboard_handler :: "(nat \<Rightarrow> u8) \<Rightarrow> (nat \<Rightarrow> u8) \<Rightarrow> u8 \<Rightarrow> keyboard \<times> vga \<times> intr \<Rightarrow> (keyboard \<times> vga \<times> intr) option" where
  "keyboard_handler status port a s = (case s of (k, v, i) \<Rightarrow> do {
     scancode \<leftarrow> keyboard_get_scancode status port;
     let (ev, k) = keyboard_read scancode k;
     v \<leftarrow> (if ev_pressed ev \<and> ev_ascii ev \<noteq> 0 then vga_putc (ev_ascii ev) v else Some v);
     Some (k, v, outb_al 0x20 (i\<lparr>al := a\<rparr>)) })"

definition keyboard_handler_wrapper :: "(nat \<Rightarrow> u8) \<Rightarrow> (nat \<Rightarrow> u8) \<Rightarrow> u8 \<Rightarrow> keyboard \<times> vga \<times> intr \<Rightarrow>
    (keyboard \<times> vga \<times> intr) option" where
  "keyboard_handler_wrapper status port a s = keyboard_handler status port a s"

text \<open>The handler keeps the console in order whatever the keyboard sends, once it sends something. The byte that
  is to end the interrupt is whatever AL holds.\<close>

theorem keyboard_handler_ok:
  assumes "vga_ok v" "\<And>j. j < n \<Longrightarrow> status j AND 0x01 = 0" "status n AND 0x01 \<noteq> 0"
  shows "\<exists>k' v'. keyboard_handler status port a (k, v, i) =
      Some (k', v', i\<lparr>al := a, written := written i @ [(0x20, a)]\<rparr>) \<and> vga_ok v' \<and>
    k' = snd (scancode_to_ascii (port n) k)"
proof -
  have g: "keyboard_get_scancode status port = Some (port n)"
    using wait_output_full_first [of n status 0] assms(2,3) by (simp add: keyboard_get_scancode_def)
  obtain c k' where c: "scancode_to_ascii (port n) k = (c, k')" by (cases "scancode_to_ascii (port n) k")
  obtain v' where "vga_putc c v = Some v'" "vga_ok v'" using vga_putc_ok [OF assms(1)] by blast
  then show ?thesis using g c assms(1) by (simp add: keyboard_handler_def keyboard_read_def outb_al_def)
qed

subsection \<open>Gates\<close>

text \<open>The fields of a gate hold its address.\<close>

lemma three_parts:
  "push_bit 32 (ucast (ucast (drop_bit 32 base AND mask 32 :: u64) :: u32)) OR
   push_bit 16 (ucast (ucast (drop_bit 16 base AND mask 16 :: u64) :: u16)) OR
   ucast (ucast (base AND mask 16 :: u64) :: u16) = (base :: u64)" (is "?w = base")
proof (rule bit_eqI)
  fix n
  assume "possible_bit TYPE(64 word) n"
  then have "n < 64" by simp
  moreover have "n < 32 \<Longrightarrow> \<not> n < 16 \<Longrightarrow> n - 16 < 16" "\<not> n < 32 \<Longrightarrow> 32 + (n - 32) = n" by simp_all
  ultimately show "bit ?w n = bit base n" by (cases "n < 32") (auto simp: bit_simps)
qed

theorem gate_address:
  "push_bit 32 (ucast (offset_high (gate base sel flags))) OR push_bit 16 (ucast (offset_mid (gate base sel flags)))
     OR ucast (offset_low (gate base sel flags)) = (base :: u64)"
proof -
  have "(0xFFFF :: u64) = mask 16" "(0xFFFFFFFF :: u64) = mask 32" by (simp_all add: mask_eq_exp_minus_1)
  then show ?thesis using three_parts by (simp only: gate_def idt_entry.simps)
qed

lemma fold_set_gate: "fold (\<lambda>i. set_gate (of_nat i) 0 0 0) ns s = s\<lparr>idt := fold (\<lambda>i. idt_set_gate (of_nat i) 0 0 0) ns (idt s)\<rparr>"
  by (induction ns arbitrary: s) (simp_all add: set_gate_def)

lemma cleared_prefix:
  "n \<le> 256 \<Longrightarrow> n \<le> length g \<Longrightarrow> fold (\<lambda>i. idt_set_gate (of_nat i) 0 0 0) [0..<n] g = replicate n (gate 0 0 0) @ drop n g"
proof (induction n)
  case (Suc n)
  have "unat (of_nat n :: u8) = n" using Suc.prems by (simp add: unsigned_of_nat take_bit_nat_eq_self)
  then show ?case using Suc
    by (simp add: idt_set_gate_def list_update_append replicate_append_same Cons_nth_drop_Suc [symmetric])
qed simp

lemma idt_init_clears:
  "length (idt s) = IDT_ENTRIES \<Longrightarrow> idt_init a s =
     s\<lparr>idt_ptr := \<lparr>ptr_limit = 4095, ptr_base = ucast a\<rparr>, idt := replicate 256 (gate 0 0 0)\<rparr>"
  by (simp add: idt_init_def fold_set_gate cleared_prefix IDT_ENTRIES_def sizeof_idt_entry_def Let_def)

lemma keyboard_init_result:
  "keyboard_init d s = s\<lparr>al := (d 0x61 OR 0x80) AND 0x7F, int_flag := True,
     written := written s @ [(0x61, d 0x61 OR 0x80), (0x61, (d 0x61 OR 0x80) AND 0x7F)]\<rparr>"
  by (simp add: keyboard_init_def cpu_defs Let_def)

subsection \<open>What the processor reads\<close>

definition bytes2 :: "u16 \<Rightarrow> u8 list" where "bytes2 w = [ucast w, ucast (drop_bit 8 w)]"
definition bytes4 :: "u32 \<Rightarrow> u8 list" where
  "bytes4 w = [ucast w, ucast (drop_bit 8 w), ucast (drop_bit 16 w), ucast (drop_bit 24 w)]"

definition entry_bytes :: "idt_entry \<Rightarrow> u8 list" where
  "entry_bytes e = bytes2 (offset_low e) @ bytes2 (selector e) @ [ist e, type_attr e] @ bytes2 (offset_mid e) @
     bytes4 (offset_high e) @ bytes4 (zero e)"

text \<open>On i686 the gate of vector \<open>n\<close> is the eight bytes from \<open>8 * n\<close> on; its sixth byte holds the present bit.\<close>

definition cpu_gate :: "idt_entry list \<Rightarrow> nat \<Rightarrow> u8 list" where
  "cpu_gate g n = take 8 (drop (8 * n) (concat (map entry_bytes g)))"

definition gate_present :: "u8 list \<Rightarrow> bool" where "gate_present b \<longleftrightarrow> b ! 5 AND 0x80 \<noteq> 0"

lemma entry_bytes_length [simp]: "length (entry_bytes e) = 16"
  by (simp add: entry_bytes_def bytes2_def bytes4_def)

lemma concat_entries:
  "k < length g \<Longrightarrow> drop (16 * k) (concat (map entry_bytes g)) = entry_bytes (g ! k) @ concat (map entry_bytes (drop (Suc k) g))"
proof (induction k arbitrary: g)
  case 0
  then show ?case by (cases g) simp_all
next
  case (Suc k)
  then show ?case by (cases g) (simp_all add: drop_append)
qed

lemma cpu_gate_entry:
  assumes "n div 2 < length g"
  shows "cpu_gate g n = (if even n then take 8 (entry_bytes (g ! (n div 2))) else drop 8 (entry_bytes (g ! (n div 2))))"
proof -
  let ?r = "concat (map entry_bytes (drop (Suc (n div 2)) g))"
  have n: "8 * n = 8 * (n mod 2) + 16 * (n div 2)" by presburger
  have "drop (8 * n) (concat (map entry_bytes g)) = drop (8 * (n mod 2)) (entry_bytes (g ! (n div 2)) @ ?r)"
    unfolding n drop_drop [symmetric] concat_entries [OF assms] ..
  then show ?thesis by (cases "even n") (simp_all add: cpu_gate_def even_iff_mod_2_eq_zero odd_iff_mod_2_eq_one)
qed

lemma present_gate_entry:
  "n div 2 < length g \<Longrightarrow> gate_present (cpu_gate g n) \<longleftrightarrow>
     (if even n then type_attr (g ! (n div 2)) AND 0x80 \<noteq> 0
      else ucast (drop_bit 8 (zero (g ! (n div 2)))) AND (0x80 :: u8) \<noteq> 0)"
  by (simp add: cpu_gate_entry gate_present_def entry_bytes_def bytes2_def bytes4_def numeral_eq_Suc)

subsection \<open>Properties\<close>

text \<open>C33: no interrupt reaches its handler. After \<^verbatim>\<open>idt_init\<close> and \<^verbatim>\<open>irq_install\<close> the table is loaded, the lines of timer and
  keyboard are unmasked and the others as they were; but since an entry has the size of two gates of an
  i686, the processor finds present gates for the vectors 64 and 66 only, with the addresses of the timer and
  the keyboard routine, and none for the vectors 32 and 33 they are installed for.\<close>

theorem irq_gates_misplaced:
  assumes "length (idt s) = IDT_ENTRIES" "n < 512"
  shows "let s' = irq_install d keyboard_addr timer_addr (idt_init idt_addr s) in
    idtr s' = \<lparr>ptr_limit = 4095, ptr_base = ucast idt_addr\<rparr> \<and>
    written s' = written s @ [(0x21, d 0x21 AND 0xFC)] \<and>
    (gate_present (cpu_gate (idt s') n) \<longleftrightarrow> n = 64 \<or> n = 66) \<and>
    idt s' ! 0x20 = gate (ucast timer_addr) 0x08 0x8E \<and> idt s' ! 0x21 = gate (ucast keyboard_addr) 0x08 0x8E"
proof -
  let ?s = "irq_install d keyboard_addr timer_addr (idt_init idt_addr s)"
  let ?g = "(replicate 256 (gate 0 0 0))[0x21 := gate (ucast keyboard_addr) 0x08 0x8E, 0x20 := gate (ucast timer_addr) 0x08 0x8E]"
  have s: "idt ?s = ?g" "idtr ?s = \<lparr>ptr_limit = 4095, ptr_base = ucast idt_addr\<rparr>"
      "written ?s = written s @ [(0x21, d 0x21 AND 0xFC)]"
    using assms(1) by (simp_all add: irq_install_def idt_init_clears set_gate_def idt_set_gate_def cpu_defs Let_def)
  have h: "n div 2 < 256" using assms(2) by simp
  have e: "n = 64 \<or> n = 66 \<longleftrightarrow> even n \<and> (n div 2 = 0x20 \<or> n div 2 = 0x21)" by presburger
  have "gate_present (cpu_gate ?g n) \<longleftrightarrow> n = 64 \<or> n = 66"
    unfolding e using h by (simp add: present_gate_entry nth_list_update gate_def)
  then show ?thesis using s by (simp add: Let_def)
qed

theorem irq_gates_misplaced_witness:
  "let s' = irq_install (\<lambda>_. 0xFF) 0x101000 0x102000 (idt_init 0x110000 \<lparr>idt = replicate IDT_ENTRIES (gate 1 2 3),
      idt_ptr = \<lparr>ptr_limit = 0, ptr_base = 0\<rparr>, idtr = \<lparr>ptr_limit = 0, ptr_base = 0\<rparr>, al = 0, int_flag = False, written = []\<rparr>) in
    written s' = [(0x21, 0xFC)] \<and> \<not> gate_present (cpu_gate (idt s') 33)"
  using irq_gates_misplaced [of "\<lparr>idt = replicate IDT_ENTRIES (gate 1 2 3), idt_ptr = \<lparr>ptr_limit = 0, ptr_base = 0\<rparr>,
      idtr = \<lparr>ptr_limit = 0, ptr_base = 0\<rparr>, al = 0, int_flag = False, written = []\<rparr>" 33 "\<lambda>_. 0xFF" "0x101000" "0x102000" "0x110000"]
  by (simp add: Let_def)

end
