(* ===== verification/Boot.thy ===== *)
theory Boot
  imports Shell Tmpfs Interrupts
begin

text \<open>
  The entry of the kernel, \<^verbatim>\<open>kernel/main.c\<close>, over the parts it initialises, and the test tasks of
  \<^verbatim>\<open>kernel/proc/test_tasks.c\<close>.

  \<^verbatim>\<open>tasking_init\<close> and \<^verbatim>\<open>register_interrupt_handler\<close> (all that \<^verbatim>\<open>syscall_init\<close> calls) are in no file of the repository and
  are arguments. \<open>d\<close> is what the ports answer, \<open>idt_addr\<close> the address of the interrupt table.
\<close>

unbundle bit_operations_syntax

subsection \<open>kernel_main\<close>

definition KERNEL_VERSION :: "u8 list" where "KERNEL_VERSION = map ch ''0.1''"

text \<open>The heap is the one in the state of the file system; the last field is what the parts that are not here keep.\<close>

record 'x boot =
  b_shell :: shell
  b_intr :: intr
  b_pg :: paging
  b_fs :: tmpfs
  b_rest :: 'x

record 'x undeclared =
  tasking_init :: "'x boot \<Rightarrow> 'x boot option"
  register_interrupt_handler :: "u8 \<Rightarrow> 'x boot \<Rightarrow> 'x boot option"

definition in_shell :: "(shell \<Rightarrow> shell option) \<Rightarrow> 'x boot \<Rightarrow> 'x boot option" where
  "in_shell f b = do { s \<leftarrow> f (b_shell b); Some (b\<lparr>b_shell := s\<rparr>) }"

definition say :: "u8 list \<Rightarrow> 'x boot \<Rightarrow> 'x boot option" where
  "say t b = in_shell (on_screen (kprint t)) b"

definition syscall_init :: "'x undeclared \<Rightarrow> 'x boot \<Rightarrow> 'x boot option" where
  "syscall_init x b = register_interrupt_handler x 0x80 b"

definition init_procfs :: "u32 \<Rightarrow> addr \<Rightarrow> 'x boot \<Rightarrow> 'x boot option" where
  "init_procfs flags buf b = do {
     (_, v, fs) \<leftarrow> kprintf flags buf (map ch ''[PROCFS] Proc filesystem initialized'' @ [10]) []
       (screen_of (b_shell b), b_fs b);
     Some (b\<lparr>b_shell := (b_shell b)\<lparr>screen_of := v\<rparr>, b_fs := fs\<rparr>) }"

text \<open>Up to the system calls.\<close>

definition kernel_start :: "'x undeclared \<Rightarrow> (u16 \<Rightarrow> u8) \<Rightarrow> u32 \<Rightarrow> 'x boot \<Rightarrow> 'x boot option" where
  "kernel_start x d idt_addr b = do {
     b \<leftarrow> in_shell (on_screen vga_init) b;
     b \<leftarrow> say (map ch ''Synapse OS v'') b;
     b \<leftarrow> say KERNEL_VERSION b;
     b \<leftarrow> say [10] b;
     b \<leftarrow> say (map ch ''AI-Native Operating System'' @ [10]) b;
     b \<leftarrow> say (map ch ''Initializing...'' @ [10]) b;
     b \<leftarrow> say (map ch ''VGA driver initialized'' @ [10]) b;
     b \<leftarrow> say (map ch ''Keyboard driver initialized'' @ [10]) (b\<lparr>b_intr := keyboard_init d (b_intr b)\<rparr>);
     b \<leftarrow> say (map ch ''IDT initialized'' @ [10]) (b\<lparr>b_intr := idt_init idt_addr (b_intr b)\<rparr>);
     b \<leftarrow> say (map ch ''Paging initialized'' @ [10]) (b\<lparr>b_pg := init_paging (b_pg b)\<rparr>);
     b \<leftarrow> say (map ch ''Kernel heap initialized'' @ [10]) (b\<lparr>b_fs := (b_fs b)\<lparr>theap := init_kheap (theap (b_fs b))\<rparr>\<rparr>);
     b \<leftarrow> tasking_init x b;
     b \<leftarrow> say (map ch ''Process scheduling initialized'' @ [10]) b;
     b \<leftarrow> syscall_init x b;
     say (map ch ''System call initialized'' @ [10]) b }"

text \<open>The whole routine up to \<open>shell_run\<close>. \<open>buf\<close> and \<open>flags\<close> are the arguments of \<open>kprintf\<close>, the addresses those of the
  two interrupt routines.\<close>

definition kernel_main :: "'x undeclared \<Rightarrow> (u16 \<Rightarrow> u8) \<Rightarrow> u32 \<Rightarrow> u32 \<Rightarrow> addr \<Rightarrow> u32 \<Rightarrow> u32 \<Rightarrow> 'x boot \<Rightarrow> 'x boot option" where
  "kernel_main x d idt_addr flags buf keyboard_addr timer_addr b = do {
     b \<leftarrow> kernel_start x d idt_addr b;
     fs \<leftarrow> init_filesystem (b_fs b);
     b \<leftarrow> say (map ch ''Filesystem initialized'' @ [10]) (b\<lparr>b_fs := fs\<rparr>);
     b \<leftarrow> init_procfs flags buf b;
     b \<leftarrow> say (map ch ''Proc filesystem initialized'' @ [10]) b;
     b \<leftarrow> say (map ch ''IRQ installed'' @ [10]) (b\<lparr>b_intr := irq_install d keyboard_addr timer_addr (b_intr b)\<rparr>);
     b \<leftarrow> say (map ch ''System ready'' @ [10]) b;
     in_shell shell_init b }"

subsection \<open>Test tasks\<close>

text \<open>The messages go to the console in every branch and are left out.\<close>

definition init_test_tasks :: "u32 \<Rightarrow> u32 \<Rightarrow> sched \<Rightarrow> sched option" where
  "init_test_tasks printer_process calculator_process s = do {
     (printer_task, s) \<leftarrow> create_task printer_process ''printer'' 5 s;
     if printer_task = NULL then Some s
     else do {
       (calculator_task, s) \<leftarrow> create_task calculator_process ''calculator'' 5 s;
       Some s } }"

text \<open>One turn of each endless loop; the pid is that of the current task.\<close>

definition printer_turn :: "u32 \<Rightarrow> addr \<Rightarrow> u32 \<Rightarrow> vga \<times> tmpfs \<Rightarrow> (int \<times> vga \<times> tmpfs) option" where
  "printer_turn flags buf current_pid s =
     kprintf flags buf (map ch ''[TEST] Printer process PID: %d'' @ [10]) [Word_arg current_pid] s"

fun fibonacci_loop :: "nat \<Rightarrow> u32 \<Rightarrow> u32 \<Rightarrow> u32" where
  "fibonacci_loop 0 a b = a"
| "fibonacci_loop (Suc i) a b = fibonacci_loop i b (a + b)"

definition calculator_turn :: "u32 \<Rightarrow> addr \<Rightarrow> u32 \<Rightarrow> vga \<times> tmpfs \<Rightarrow> (int \<times> vga \<times> tmpfs) option" where
  "calculator_turn flags buf current_pid s =
     kprintf flags buf (map ch ''[TEST] Calculator process PID: %d, Fibonacci result: %d'' @ [10])
       [Word_arg current_pid, Word_arg (fibonacci_loop 20 0 1)] s"

fun fib :: "nat \<Rightarrow> nat" where
  "fib 0 = 0"
| "fib (Suc 0) = 1"
| "fib (Suc (Suc n)) = fib n + fib (Suc n)"

lemma fibonacci_loop_fib: "fibonacci_loop n (of_nat (fib k)) (of_nat (fib (Suc k))) = of_nat (fib (n + k))"
proof (induction n arbitrary: k)
  case (Suc n)
  then show ?case using Suc.IH [of "Suc k"] by simp
qed simp

lemma calculator_result: "fibonacci_loop 20 0 1 = of_nat (fib 20)"
  using fibonacci_loop_fib [of 20 0] by simp

text \<open>Both tasks are ready, the second in front, or memory has run out and the queues hold what could be made.\<close>

lemma test_tasks_ready:
  assumes "sched_ok s qs"
  shows "\<exists>s' ps. init_test_tasks pr ca s = Some s' \<and> current_task s' = current_task s \<and> length ps \<le> 2 \<and>
    sched_ok s' (qs[5 := ps @ qs ! 5]) \<and> set ps \<inter> dom (tasks s) = {}"
proof -
  have u: "unat (5 :: u32) = 5" by simp
  have q: "length qs = 16" using assms by (simp add: sched_ok_def sched_wf_def queues_def)
  obtain p s1 where p: "create_task pr ''printer'' 5 s = Some (p, s1)" "current_task s1 = current_task s"
    "p = NULL \<and> sched_ok s1 qs \<or> p \<noteq> NULL \<and> p \<notin> dom (tasks s) \<and> sched_ok s1 (qs[5 := p # qs ! 5]) \<and> (\<exists>t. tasks s1 = (tasks s)(p \<mapsto> t))"
    using sched_ok_create [OF assms, of "''printer''" pr 5] unfolding u by fastforce
  show ?thesis
  proof (cases "p = NULL")
    case True
    then show ?thesis using p by (intro exI [of _ s1] exI [of _ "[]"]) (auto simp: init_test_tasks_def)
  next
    case False
    then have ok: "sched_ok s1 (qs[5 := p # qs ! 5])" "p \<notin> dom (tasks s)" "dom (tasks s1) = insert p (dom (tasks s))" using p(3) by auto
    obtain c s2 where c: "create_task ca ''calculator'' 5 s1 = Some (c, s2)" "current_task s2 = current_task s1"
      "c = NULL \<and> sched_ok s2 (qs[5 := p # qs ! 5]) \<or>
       c \<noteq> NULL \<and> c \<notin> dom (tasks s1) \<and> sched_ok s2 (qs[5 := c # p # qs ! 5])"
      using sched_ok_create [OF ok(1), of "''calculator''" ca 5] q unfolding u by fastforce
    from c(3) show ?thesis
    proof
      assume "c = NULL \<and> sched_ok s2 (qs[5 := p # qs ! 5])"
      then show ?thesis using p c False ok by (intro exI [of _ s2] exI [of _ "[p]"]) (auto simp: init_test_tasks_def)
    next
      assume "c \<noteq> NULL \<and> c \<notin> dom (tasks s1) \<and> sched_ok s2 (qs[5 := c # p # qs ! 5])"
      then show ?thesis using p c False ok by (intro exI [of _ s2] exI [of _ "[c, p]"]) (auto simp: init_test_tasks_def)
    qed
  qed
qed

subsection \<open>How far the kernel comes\<close>

text \<open>The states on the way: nothing is mounted, paging is off, the screen is in order and the processor has the
  interrupt table \<open>r\<close>; later also: interrupts are on and there is a heap.\<close>

definition booting :: "idt_ptr \<Rightarrow> 'x boot \<Rightarrow> bool" where
  "booting r b \<longleftrightarrow> vga_ok (screen_of (b_shell b)) \<and> mounts (b_fs b) = [] \<and> roots (b_fs b) NULL = None \<and>
     cr0 (b_pg b) AND 0x80000000 = 0 \<and> idtr (b_intr b) = r"

definition up :: "'x boot \<Rightarrow> bool" where
  "up b \<longleftrightarrow> int_flag (b_intr b) \<and> (\<exists>n \<ge> 48. heap_room (theap (b_fs b)) n)"

lemma say_booting:
  "booting r b \<Longrightarrow> \<exists>b'. say t b = Some b' \<and> booting r b' \<and> b_fs b' = b_fs b \<and> b_intr b' = b_intr b"
  using kprint_total [of "screen_of (b_shell b)" t] by (auto simp: booting_def say_def in_shell_def on_screen_def)

lemma vga_init_ok: "length (vga_buffer v) = screen \<Longrightarrow> \<exists>v'. vga_init v = Some v' \<and> vga_ok v'"
  by (auto simp: vga_init_def vga_clear_def fill_cells_ok vga_ok_def VGA_WIDTH_def VGA_HEIGHT_def screen_def simp del: fill_cells.simps)

lemma bind_returns:
  assumes "\<exists>b. f = Some b \<and> P b" "\<And>b. P b \<Longrightarrow> \<exists>c. g b = Some c \<and> Q c"
  shows "\<exists>c. f \<bind> g = Some c \<and> Q c"
  using assms by auto

lemma say_step:
  assumes "booting r b" "\<And>b'. booting r b' \<Longrightarrow> b_fs b' = b_fs b \<Longrightarrow> b_intr b' = b_intr b \<Longrightarrow> \<exists>c. g b' = Some c \<and> Q c"
  shows "\<exists>c. say t b \<bind> g = Some c \<and> Q c"
  by (rule bind_returns [OF say_booting [OF assms(1)]]) (use assms(2) in auto)

lemma fold_set_gate_fields:
  "idtr (fold (\<lambda>i. set_gate (f i) 0 0 0) ns i) = idtr i" "int_flag (fold (\<lambda>i. set_gate (f i) 0 0 0) ns i) = int_flag i"
  by (induction ns arbitrary: i) (simp_all add: set_gate_def)

lemma intr_fields [simp]:
  "idtr (keyboard_init d i) = idtr i" "int_flag (keyboard_init d i)"
  "idtr (idt_init a i) = idtr i" "int_flag (idt_init a i) = int_flag i"
  by (simp_all add: keyboard_init_result idt_init_def fold_set_gate_fields Let_def)

lemma booting_set:
  "booting r b \<Longrightarrow> booting r (b\<lparr>b_intr := keyboard_init d (b_intr b)\<rparr>)"
  "booting r b \<Longrightarrow> booting r (b\<lparr>b_intr := idt_init a (b_intr b)\<rparr>)"
  "booting r b \<Longrightarrow> booting r (b\<lparr>b_pg := init_paging (b_pg b)\<rparr>)"
  "booting r b \<Longrightarrow> booting r (b\<lparr>b_fs := (b_fs b)\<lparr>theap := h\<rparr>\<rparr>)"
  by (simp_all add: booting_def init_paging_gives_up)

lemma kernel_start_returns:
  fixes x :: "'x undeclared" and b :: "'x boot"
  assumes "length (vga_buffer (screen_of (b_shell b))) = screen" "mounts (b_fs b) = []" "roots (b_fs b) NULL = None"
    and "cr0 (b_pg b) AND 0x80000000 = 0"
    and t: "\<And>c. booting (idtr (b_intr b)) c \<Longrightarrow> up c \<Longrightarrow>
      \<exists>c'. tasking_init x c = Some c' \<and> booting (idtr (b_intr b)) c' \<and> up c'"
    and r: "\<And>c. booting (idtr (b_intr b)) c \<Longrightarrow> up c \<Longrightarrow>
      \<exists>c'. register_interrupt_handler x 0x80 c = Some c' \<and> booting (idtr (b_intr b)) c' \<and> up c'"
  shows "\<exists>b'. kernel_start x d idt_addr b = Some b' \<and> booting (idtr (b_intr b)) b' \<and> up b'"
proof -
  let ?r = "idtr (b_intr b)"
  have v: "\<exists>b'. in_shell (on_screen vga_init) b = Some b' \<and> booting ?r b'"
    using vga_init_ok [OF assms(1)] assms(2-4) by (auto simp: in_shell_def on_screen_def booting_def)
  have heap: "up c" if "b_fs c = b_fs (e\<lparr>b_fs := (b_fs e)\<lparr>theap := init_kheap h\<rparr>\<rparr>)" "int_flag (b_intr c)" for c e :: "'x boot" and h
    using heap_room_init [of h] that unfolding up_def by (intro conjI exI [of _ "0x1000000"]) simp_all
  have tail: "\<exists>b'. (tasking_init x b \<bind> (\<lambda>b. say t1 b \<bind> (\<lambda>b. syscall_init x b \<bind> say t2))) = Some b' \<and> booting ?r b' \<and> up b'"
    if b: "booting ?r b" "up b" for b :: "'x boot" and t1 t2
  proof (rule bind_returns [OF t [OF b]])
    fix c :: "'x boot" assume c: "booting ?r c \<and> up c"
    show "\<exists>b'. (say t1 c \<bind> (\<lambda>b. syscall_init x b \<bind> say t2)) = Some b' \<and> booting ?r b' \<and> up b'"
    proof (rule say_step)
      fix d :: "'x boot" assume d: "booting ?r d" "b_fs d = b_fs c" "b_intr d = b_intr c"
      then have "up d" using c by (simp add: up_def)
      then show "\<exists>b'. (syscall_init x d \<bind> say t2) = Some b' \<and> booting ?r b' \<and> up b'"
        unfolding syscall_init_def using r [OF d(1)] say_booting by (fastforce simp: up_def)
    qed (use c in simp)
  qed
  show ?thesis unfolding kernel_start_def
    by (rule bind_returns [OF v],
      (rule say_step, (assumption | (rule booting_set, assumption)))+, rule tail, assumption, rule heap, assumption, simp)
qed

subsection \<open>Properties\<close>

text \<open>How far the code defines what \<^verbatim>\<open>kernel_main\<close> does. From the zeroed variables of a fresh machine, and if the two undeclared
  routines return and leave screen, CR0, the interrupts, the mount table and a little heap
  alone, the start succeeds up to the system calls, with paging still off although the screen says it is
  initialised, and with interrupts on although the interrupt table has not been loaded; then
  \<^verbatim>\<open>init_filesystem\<close> mounts the root and dereferences a NULL pointer, which has no value here: what a
  processor without paging does then is not modelled, nor that the heap lies at an address no memory may be behind.\<close>

theorem kernel_main_stops:
  assumes "length (vga_buffer (screen_of (b_shell b))) = screen" "mounts (b_fs b) = []" "roots (b_fs b) NULL = None"
    and "cr0 (b_pg b) AND 0x80000000 = 0"
    and "\<And>c. booting (idtr (b_intr b)) c \<Longrightarrow> up c \<Longrightarrow>
      \<exists>c'. tasking_init x c = Some c' \<and> booting (idtr (b_intr b)) c' \<and> up c'"
    and "\<And>c. booting (idtr (b_intr b)) c \<Longrightarrow> up c \<Longrightarrow>
      \<exists>c'. register_interrupt_handler x 0x80 c = Some c' \<and> booting (idtr (b_intr b)) c' \<and> up c'"
  shows "\<exists>b'. kernel_start x d idt_addr b = Some b' \<and> vga_ok (screen_of (b_shell b')) \<and>
    cr0 (b_pg b') AND 0x80000000 = 0 \<and> int_flag (b_intr b') \<and> idtr (b_intr b') = idtr (b_intr b) \<and>
    kheap_ok (theap (b_fs b')) \<and> init_filesystem (b_fs b') = None \<and> kernel_main x d idt_addr flags buf k t b = None"
proof -
  obtain b' r where b': "kernel_start x d idt_addr b = Some b'" "booting (idtr (b_intr b)) b'" "heap_room (theap (b_fs b')) r"
      "48 \<le> r" "int_flag (b_intr b')"
    using kernel_start_returns [OF assms, of d idt_addr] by (auto simp: up_def)
  have n: "unat (align_size sizeof_tmpfs_data + 16) = 24" "sizeof_tmpfs_data \<noteq> 0" "sizeof_tmpfs_data \<le> 0xFFFFFFE8"
    by (simp_all add: align_size_def sizeof_tmpfs_data_def)
  obtain p h where "kmalloc sizeof_tmpfs_data (theap (b_fs b')) = Some (p, h)" "p \<noteq> NULL"
    using kmalloc_room [OF b'(3) n(2,3)] n(1) b'(4) by auto
  then have "init_filesystem (b_fs b') = None"
    using init_filesystem_null b'(2) by (auto simp: booting_def)
  then show ?thesis using b' heap_room_ok by (auto simp: kernel_main_def booting_def)
qed

definition fresh_machine :: "unit boot" where
  "fresh_machine = \<lparr>b_shell = shell_start, b_intr = \<lparr>idt = replicate IDT_ENTRIES (gate 0 0 0), idt_ptr = \<lparr>ptr_limit = 0, ptr_base = 0\<rparr>,
     idtr = \<lparr>ptr_limit = 0, ptr_base = 0\<rparr>, al = 0, int_flag = False, written = []\<rparr>,
     b_pg = small_machine, b_fs = tmpfs0, b_rest = ()\<rparr>"

theorem kernel_main_stops_witness:
  "\<exists>b'. kernel_start \<lparr>tasking_init = Some, register_interrupt_handler = (\<lambda>_. Some)\<rparr> (\<lambda>_. 0) 0x110000 fresh_machine = Some b' \<and>
    int_flag (b_intr b') \<and> ptr_limit (idtr (b_intr b')) = 0 \<and>
    kernel_main \<lparr>tasking_init = Some, register_interrupt_handler = (\<lambda>_. Some)\<rparr> (\<lambda>_. 0) 0x110000 1 0x9000 0x101000 0x102000
      fresh_machine = None"
proof -
  have "length (vga_buffer (screen_of (b_shell fresh_machine))) = screen" "mounts (b_fs fresh_machine) = []"
    "roots (b_fs fresh_machine) NULL = None"
    using shell_start_ok(1) by (simp_all add: fresh_machine_def tmpfs0_def vga_ok_def)
  moreover have "cr0 (b_pg fresh_machine) AND 0x80000000 = 0" "ptr_limit (idtr (b_intr fresh_machine)) = 0"
    by (simp_all add: fresh_machine_def small_machine_def)
  ultimately show ?thesis
    using kernel_main_stops [of fresh_machine "\<lparr>tasking_init = Some, register_interrupt_handler = (\<lambda>_. Some)\<rparr>"
        "\<lambda>_. 0" "0x110000" 1 "0x9000" "0x101000" "0x102000"] by auto
qed

end
