(* ===== verification/Spec2Isabelle.thy ===== *)
theory Spec2Isabelle
  imports Kheap Paging Sched Cstring Process Mmap Ramfs_Dirs Tmpfs Kprintf Keyboard Fs_Tables Libc Machine Boot
begin

text \<open>
  Synapse Kernel, a small i686 kernel in C: memory management, two generations of process
  management, three file systems, an ELF loader, system calls, a text console, a keyboard and a serial
  driver, a shell and a small library for user programs. This library models those parts from their
  sources and proves what each promises its callers, and where it breaks the promise.

  \<^bold>\<open>The program and its parts.\<close> The kernel heap (\<^verbatim>\<open>kernel/mm/kheap.c\<close>) serves every other part: the
  scheduler (\<^verbatim>\<open>kernel/proc/sched.c\<close>) takes task records from it, the process table
  (\<^verbatim>\<open>kernel/proc/process.c\<close>) control blocks, stacks and page directories, RamFS (\<^verbatim>\<open>kernel/fs/ramfs.c\<close>)
  and TmpFS (\<^verbatim>\<open>kernel/fs/tmpfs.c\<close>) inodes, directory entries and file data. The paging code
  (\<^verbatim>\<open>kernel/mm/paging.c\<close>) hands out physical frames from a bitmap and edits two-level page tables;
  \<^verbatim>\<open>mmap\<close> and \<^verbatim>\<open>munmap\<close> of \<^verbatim>\<open>process.c\<close> are built on it. The string and memory routines (\<^verbatim>\<open>lib/string.c\<close>,
  \<^verbatim>\<open>lib/mem.c\<close>) are used everywhere; \<^verbatim>\<open>lib/kprintf.c\<close> formats text for the console \<^verbatim>\<open>lib/vga.c\<close>; the timer
  interrupt runs the scheduler, the keyboard interrupt \<^verbatim>\<open>lib/keyboard.c\<close>. On top of these lie the
  system calls (\<^verbatim>\<open>kernel/syscall.c\<close>), which the library of user programs (\<^verbatim>\<open>lib/libc.c\<close>) calls, the files
  about processes (\<^verbatim>\<open>kernel/proc/procfs.c\<close>), the executor of requests from an AI
  (\<^verbatim>\<open>kernel/executor.c\<close>) and the shell (\<^verbatim>\<open>lib/shell.c\<close>); \<^verbatim>\<open>kernel/main.c\<close> starts them in order.

  \<^bold>\<open>The theories.\<close>
  \<^item> \<^verbatim>\<open>Prelude\<close>: machine words of the C widths, addresses (\<^verbatim>\<open>NULL\<close> is 0), memory as a function from
    addresses to bytes, linked chains in a typed store, and the lemmas on words, lists and
    chains the components share.
  \<^item> \<^verbatim>\<open>Allocator\<close>: the interface of the heap as two locales. \<^verbatim>\<open>kernel_allocator\<close> holds the laws of
    \<^verbatim>\<open>kmalloc\<close> and \<^verbatim>\<open>kfree\<close> about live blocks, \<^verbatim>\<open>sized_allocator\<close> extends it with sizes and the
    separation of blocks; the undo of several allocations on an error path is proved there once.
  \<^item> \<^verbatim>\<open>Kheap\<close>: \<^verbatim>\<open>kheap.c\<close>, the block headers as a store of records, first fit, splitting, merging with
    both neighbours, statistics. Every operation keeps the invariant that the headers tile the
    16 MB region and that the free list is exactly the free blocks; allocation is safe (disjoint
    from all live blocks), succeeds exactly when a large enough block exists, and \<^verbatim>\<open>kfree\<close> undoes it.
    It interprets \<^verbatim>\<open>kernel_allocator\<close>; \<^verbatim>\<open>Heap_Blocks\<close> interprets \<^verbatim>\<open>sized_allocator\<close>.
  \<^item> \<^verbatim>\<open>Paging\<close>: the frame bitmap and the page tables in physical memory. The allocator interprets the
    locale \<^verbatim>\<open>frame_pool\<close>; \<^verbatim>\<open>map_page\<close> and \<^verbatim>\<open>unmap_page\<close> refine an update of the translation function.
    \<^verbatim>\<open>init_paging\<close> is shown to overwrite its own bitmap and to give up.
  \<^item> \<^verbatim>\<open>Sched\<close>: \<^verbatim>\<open>sched.c\<close>, with tasks in a store, 16 ready queues, the timer interrupt and task exit.
    The machine is the step relation \<^verbatim>\<open>sched_step\<close>; the invariant is proved for every reachable
    state. The theorems say which task runs next and what happens to the one that ran.
  \<^item> \<^verbatim>\<open>Cstring\<close>, \<^verbatim>\<open>Area\<close>: \<^verbatim>\<open>string.c\<close> and \<^verbatim>\<open>mem.c\<close> on byte memory, against definitions on lists.
  \<^item> \<^verbatim>\<open>Ring\<close>: circular doubly linked lists over a node type, the locale \<^verbatim>\<open>ring_node\<close>, with insertion
    at the tail and removal; interpreted on the process list and on the entries of a directory.
  \<^item> \<^verbatim>\<open>Process\<close>, \<^verbatim>\<open>Mmap\<close>: the process table with its two scheduling policies, the context switch,
    termination, and memory maps over the paging state.
  \<^item> \<^verbatim>\<open>Ramfs\<close> (definitions), \<^verbatim>\<open>Ramfs_Files\<close> (read and write refine operations on a list of bytes),
    \<^verbatim>\<open>Ramfs_Dirs\<close> (create, unlink, mkdir, rmdir, lookup and readdir on the list of entries).
  \<^item> \<^verbatim>\<open>Tmpfs\<close>: TmpFS, mounting, path resolution and the descriptor table.
  \<^item> \<^verbatim>\<open>Vga\<close>, \<^verbatim>\<open>Kprintf\<close>, \<^verbatim>\<open>Keyboard\<close>: the console as its 80 by 25 cells and cursor, \<^verbatim>\<open>kprintf\<close> and
    \<^verbatim>\<open>snprintf\<close> as functions from format and arguments to the bytes written, scan codes to characters.
  \<^item> \<^verbatim>\<open>Interrupts\<close>: the descriptor table in memory, the table register, the interrupt flag and the bytes
    written to the ports: \<^verbatim>\<open>idt_init\<close>, \<^verbatim>\<open>irq_install\<close>, \<^verbatim>\<open>keyboard_init\<close> and the keyboard's handler. The gates are
    read back the way the processor reads them, which shows that each is a byte off (\<^verbatim>\<open>irq_gates_misplaced\<close>).
  \<^item> \<^verbatim>\<open>Executor\<close>: the parser of requests, the question to the user and the action on the scheduler's tasks,
    in every case, a task that ends itself included. Requests in the form the parser looks for are parsed back;
    without consent nothing changes.
  \<^item> \<^verbatim>\<open>Vfs\<close>, \<^verbatim>\<open>Elf\<close>: the mount list and the calls through its operation tables; the loader, which can never
    load a file since the VFS has no way to read one.
  \<^item> \<^verbatim>\<open>Syscall\<close>: the table of the twelve handlers over scheduler, paging and loader. Every call that returns
    to its caller within the modelled code is safe on a well-formed machine; \<^verbatim>\<open>exit\<close> and \<^verbatim>\<open>sleep\<close> give the processor
    away, and the caller goes on only when it is scheduled again. The theorems say what \<^verbatim>\<open>fork\<close> and \<^verbatim>\<open>sbrk\<close> do.
  \<^item> \<^verbatim>\<open>Machine\<close>: calls and timer interrupts in any order, the relation \<^verbatim>\<open>machine_step\<close>; \<^verbatim>\<open>sleep\<close> is split where it
    gives the processor away into steps of its own (block, yield, wake). What a step keeps is shown once for each
    kind of step, so every reachable machine is well formed (\<^verbatim>\<open>machine_invariant\<close>), and a task that sleeps while
    another is ready is never scheduled again (\<^verbatim>\<open>sleeper_lost\<close>). Nothing is assumed of code outside.
  \<^item> \<^verbatim>\<open>Libc\<close>: the user's wrappers, \<^verbatim>\<open>malloc\<close> and \<^verbatim>\<open>printf\<close>. The assembly passes only EAX, so the registers of the
    caller are an argument, and the theorems say what then reaches the kernel.
  \<^item> \<^verbatim>\<open>Procfs\<close>: the contents of the files in \<^verbatim>\<open>/proc\<close>, and reading as a window of the contents. \<^verbatim>\<open>Fs_Tables\<close>: the
    tables of file operations of TmpFS and \<^verbatim>\<open>/proc\<close>, the reads behind them and the list of mounts.
  \<^item> \<^verbatim>\<open>Serial\<close>, \<^verbatim>\<open>Shell_Commands\<close>, \<^verbatim>\<open>Shell\<close>: the port, the commands, the line editor, which refines an editor of
    lists, the split into words and their way from the keys to a command.
  \<^item> \<^verbatim>\<open>Boot\<close>: \<^verbatim>\<open>kernel_main\<close> over all these, which has no defined result: mounting TmpFS reads through
    \<^verbatim>\<open>NULL\<close> first; and the test tasks.

  \<^bold>\<open>How code becomes definitions.\<close> A C structure is a record, a pointer its address, the objects of
  one type a map from addresses to records; global variables are the fields of a state record that
  every operation takes and returns. The value \<^verbatim>\<open>None\<close> stands for behaviour C leaves undefined: a
  dereference of an address that holds no object of the type, an index outside of an array, an
  endless loop. Error returns (\<^verbatim>\<open>-1\<close>, \<^verbatim>\<open>NULL\<close>) are ordinary values. So a theorem that an operation
  equals \<^verbatim>\<open>Some\<close> also says that it returns and touches only memory it may touch. Loops over memory
  that need not end are partial functions into option (no fuel is used anywhere), loops with a
  counter are total functions with a measure. Integers keep their width; where a sum may wrap
  around, the wrapped value is what the model computes.

  What the sources use and do not define is an argument of the definitions that use it, gathered in a
  record: \<^verbatim>\<open>kwrite\<close>, the \<^verbatim>\<open>keyboard_read\<close> with a buffer, the entry into \<^verbatim>\<open>page_dir->tables\<close> and what runs until a task
  is scheduled again (with no value if it never is; \<open>external\<close> in \<^verbatim>\<open>Syscall\<close>), \<^verbatim>\<open>tasking_init\<close> and \<^verbatim>\<open>register_interrupt_handler\<close>
  (\<open>undeclared\<close> in \<^verbatim>\<open>Boot\<close>), the ring \<^verbatim>\<open>task_list\<close> (\<open>shell_env\<close> in \<^verbatim>\<open>Shell\<close>), the key that
  \<^verbatim>\<open>vga_getc\<close> would read for the executor and the free memory that \<^verbatim>\<open>get_free_mem_size\<close> would give to
  \<^verbatim>\<open>Procfs\<close>. Devices are arguments too: the keyboard controller, the interrupt controllers and the serial line are what
  their ports answer.

  Console messages of the memory, process and file system code are left out of their models: they
  change the screen only. Interrupts are atomic steps, as the handlers run with interrupts off;
  the switch of stacks in assembly is the change of the current task.

  \<^bold>\<open>What the theorems showed.\<close> Besides the properties that hold, the development proves defects of
  the code as theorems about it, each with a concrete run as its witness. Examples: a task
  that is preempted before its slice ends is in no queue any more (\<^verbatim>\<open>schedule_loses_current\<close>), an
  exiting task may be made ready again (\<^verbatim>\<open>task_exit_resurrects\<close>), the frame bitmap is overwritten by the
  first page directory (\<^verbatim>\<open>init_paging_gives_up\<close>), \<^verbatim>\<open>rmdir\<close> accepts the name of the directory itself
  (\<^verbatim>\<open>ramfs_rmdir_dot\<close>), a forked child starts with the wrong stack pointer (\<^verbatim>\<open>fork_child\<close>), blocks of
  \<^verbatim>\<open>malloc\<close> overlap (\<^verbatim>\<open>malloc_blocks\<close>), a sleeping task is
  never woken (\<^verbatim>\<open>sleeper_lost\<close>), and mounting TmpFS during the boot dereferences \<^verbatim>\<open>NULL\<close>, which is undefined
  behaviour (\<^verbatim>\<open>init_filesystem_null\<close>, \<^verbatim>\<open>kernel_main_stops\<close>).

  \<^bold>\<open>Not modelled.\<close> Boot code, the stubs that enter the interrupt handlers, the start of user programs and
  the stack switch are assembly. \<^verbatim>\<open>multiboot2.h\<close> only describes tables no code reads. The empty routines that
  only print (\<^verbatim>\<open>send_signal\<close>, \<^verbatim>\<open>handle_signal\<close>, \<^verbatim>\<open>ramfs_init\<close>, \<^verbatim>\<open>ai_executor_init\<close>, \<^verbatim>\<open>elf_cleanup\<close>) have no
  definitions. The applications call the streams of a C library that is neither in the repository nor
  linked by its build.
\<close>

end
